(* ===== verification/Prelude.thy ===== *)
theory Prelude
  imports Main "HOL-Library.Word" "HOL-Library.Monad_Syntax" "HOL-Library.Multiset"
begin

text \<open>
  The vocabulary the components share.

  A Go program fails in two ways, and the model keeps them apart. A function
  that returns an \<open>error\<close> returns a value of the sum type \<open>nerr + 'a\<close>
  (\<open>Inl\<close> the error); a run-time panic (a slice expression out of range) is the
  value \<open>None\<close> of an enclosing \<open>option\<close>. A function that can do both returns
  \<open>(nerr + 'a) option\<close>, named \<open>'a go\<close> below, and the \<open>do\<close> notation of the
  option monad propagates panics the way the Go run time does.

  Byte slices are lists of 8-bit words. The theory defines reading a range of a
  buffer (\<open>slice\<close>), overwriting one (\<open>blit\<close>), Go's \<open>copy\<close> into
  the tail of a buffer (\<open>copyAt\<close>) and the little-endian encoding of naturals, with
  the lemmas that let the simplifier read back what was written. Buffers are
  taken to have capacity equal to their length, so a slice expression is in range
  when its upper bound is at most the length.
\<close>

section \<open>Errors\<close>

text \<open>The error codes of \<open>internal/nerr/nerr.go\<close> and its \<open>Error\<close> value.\<close>

datatype code =
    InvalidArgument | InvalidFormat | Corruption | NotFound | AlreadyExists
  | PageFull | Exhausted | Crypto | IO | Internal | Unavailable | Conflict
  | Deadlock | Serialization | Syntax | Unauthorized | Forbidden | Protocol
  | Canceled | ForeignKey

datatype nerr =
    New code string string
  | Wrap code string string nerr

primrec codeOf :: "nerr \<Rightarrow> code" where
  "codeOf (New c op msg) = c"
| "codeOf (Wrap c op msg e) = c"

text \<open>\<open>errors.As\<close> stops at the outermost typed error, so only its code is compared.\<close>

definition HasCode :: "nerr \<Rightarrow> code \<Rightarrow> bool" where
  "HasCode e c \<longleftrightarrow> codeOf e = c"

type_synonym 'a res = "nerr + 'a"
type_synonym 'a go = "(nerr + 'a) option"

text \<open>\<open>if err != nil { return err }\<close> on a computation that may also panic.\<close>

definition gbind :: "'a go \<Rightarrow> ('a \<Rightarrow> 'b go) \<Rightarrow> 'b go" where
  "gbind m f = (case m of
      None \<Rightarrow> None
    | Some (Inl e) \<Rightarrow> Some (Inl e)
    | Some (Inr x) \<Rightarrow> f x)"

lemma gbind_simps [simp]:
  "gbind None f = None"
  "gbind (Some (Inl e)) f = Some (Inl e)"
  "gbind (Some (Inr x)) f = f x"
  by (simp_all add: gbind_def)

lemma gbind_eq_ok [simp]:
  "gbind m f = Some (Inr y) \<longleftrightarrow> (\<exists>x. m = Some (Inr x) \<and> f x = Some (Inr y))"
  by (cases m) (auto simp: gbind_def split: sum.splits)

section \<open>Machine types\<close>

type_synonym byte = "8 word"
type_synonym bytes = "byte list"
type_synonym u16 = "16 word"
type_synonym u32 = "32 word"
type_synonym u64 = "64 word"

text \<open>The identifier types of \<open>internal/storage/format/format.go\<close>.\<close>

type_synonym PageID = u64
type_synonym LSN = u64
type_synonym TxnID = u64
type_synonym UndoID = u64
type_synonym KeyVersion = u32

section \<open>Collections of lemmas\<close>

named_theorems buf_simps \<open>reading back a buffer that was written\<close>
named_theorems go_defs \<open>the byte-level accessors, to be unfolded\<close>

section \<open>Ranges of a buffer\<close>

definition slice :: "'a list \<Rightarrow> nat \<Rightarrow> nat \<Rightarrow> 'a list" where
  "slice b off n = take n (drop off b)"

definition blit :: "'a list \<Rightarrow> nat \<Rightarrow> 'a list \<Rightarrow> 'a list" where
  "blit b off bs = take off b @ bs @ drop (off + length bs) b"

text \<open>Go's \<open>b[lo:hi]\<close>; out of range panics.\<close>

definition goSlice :: "'a list \<Rightarrow> nat \<Rightarrow> nat \<Rightarrow> 'a list option" where
  "goSlice b lo hi = (if lo \<le> hi \<and> hi \<le> length b then Some (slice b lo (hi - lo)) else None)"

text \<open>Go's \<open>copy(b[off:], src)\<close>: the slice expression panics when \<open>off\<close> is beyond the
  buffer, and the copy stops at the shorter of the two.\<close>

definition copyAt :: "'a list \<Rightarrow> nat \<Rightarrow> 'a list \<Rightarrow> 'a list option" where
  "copyAt b off src = (if off \<le> length b then Some (blit b off (take (length b - off) src)) else None)"

text \<open>Go's \<open>copy(b[lo:hi], src)\<close>.\<close>

definition copyRange :: "'a list \<Rightarrow> nat \<Rightarrow> nat \<Rightarrow> 'a list \<Rightarrow> 'a list option" where
  "copyRange b lo hi src =
     (if lo \<le> hi \<and> hi \<le> length b then Some (blit b lo (take (hi - lo) src)) else None)"

text \<open>Go's \<open>b[i]\<close> and \<open>b[i] = v\<close>.\<close>

definition getB :: "'a list \<Rightarrow> nat \<Rightarrow> 'a option" where
  "getB b i = (if i < length b then Some (b ! i) else None)"

definition putB :: "'a list \<Rightarrow> nat \<Rightarrow> 'a \<Rightarrow> 'a list option" where
  "putB b i v = (if i < length b then Some (blit b i [v]) else None)"

lemma length_slice [simp]: "off + n \<le> length b \<Longrightarrow> length (slice b off n) = n"
  by (simp add: slice_def)

lemma length_blit [simp]: "off + length bs \<le> length b \<Longrightarrow> length (blit b off bs) = length b"
  by (simp add: blit_def)

lemma slice_0 [simp]: "slice b off 0 = []"
  by (simp add: slice_def)

lemma slice_full [simp]: "length b \<le> n \<Longrightarrow> slice b 0 n = b"
  by (simp add: slice_def)

lemma blit_Nil [simp]: "off \<le> length b \<Longrightarrow> blit b off [] = b"
  by (simp add: blit_def)

lemma nth_slice: "off + n \<le> length b \<Longrightarrow> i < n \<Longrightarrow> slice b off n ! i = b ! (off + i)"
  by (simp add: slice_def)

lemma nth_blit:
  assumes "off + length bs \<le> length b" and "i < length b"
  shows "blit b off bs ! i = (if off \<le> i \<and> i < off + length bs then bs ! (i - off) else b ! i)"
  using assms by (auto simp: blit_def nth_append min_def)

lemma slice_eq_iff:
  assumes "o1 + n \<le> length a" and "o2 + n \<le> length b"
  shows "slice a o1 n = slice b o2 n \<longleftrightarrow> (\<forall>i<n. a ! (o1 + i) = b ! (o2 + i))"
  using assms by (auto simp: list_eq_iff_nth_eq nth_slice)

lemma slice_blit_within [buf_simps]:
  assumes "off + length bs \<le> length b" and "off \<le> o2" and "o2 + n \<le> off + length bs"
  shows "slice (blit b off bs) o2 n = slice bs (o2 - off) n"
proof (rule nth_equalityI)
  show "length (slice (blit b off bs) o2 n) = length (slice bs (o2 - off) n)"
    using assms by simp
next
  fix i
  assume "i < length (slice (blit b off bs) o2 n)"
  with assms have "i < n" by simp
  with assms show "slice (blit b off bs) o2 n ! i = slice bs (o2 - off) n ! i"
    by (simp add: nth_slice nth_blit)
qed

lemma slice_blit_same [buf_simps]:
  "off + length bs \<le> length b \<Longrightarrow> n = length bs \<Longrightarrow> slice (blit b off bs) off n = bs"
  by (simp add: slice_blit_within)

lemma slice_blit_below [buf_simps]:
  "off + length bs \<le> length b \<Longrightarrow> o2 + n \<le> off \<Longrightarrow> slice (blit b off bs) o2 n = slice b o2 n"
  by (simp add: slice_eq_iff nth_blit)

lemma slice_blit_above [buf_simps]:
  "off + length bs \<le> length b \<Longrightarrow> off + length bs \<le> o2 \<Longrightarrow> o2 + n \<le> length b \<Longrightarrow>
   slice (blit b off bs) o2 n = slice b o2 n"
  by (simp add: slice_eq_iff nth_blit)

lemma slice_slice: "i + m \<le> n \<Longrightarrow> slice (slice b off n) i m = slice b (off + i) m"
  by (simp add: slice_def drop_take min_def add.commute)

lemma slice_append_left: "off + n \<le> length a \<Longrightarrow> slice (a @ b) off n = slice a off n"
  by (simp add: slice_def)

lemma slice_append_right: "length a \<le> off \<Longrightarrow> slice (a @ b) off n = slice b (off - length a) n"
  by (simp add: slice_def)

lemma slice_replicate [simp]: "off + n \<le> m \<Longrightarrow> slice (replicate m x) off n = replicate n x"
  by (simp add: slice_def)

lemma take_eq_slice: "take n b = slice b 0 n"
  by (simp add: slice_def)

lemma drop_eq_slice: "drop n b = slice b n (length b - n)"
  by (simp add: slice_def)

lemma blit_slice_id: "off + n \<le> length b \<Longrightarrow> blit b off (slice b off n) = b"
  by (rule nth_equalityI) (auto simp: nth_blit nth_slice)

lemma blit_overwrite:
  "off + length xs \<le> length b \<Longrightarrow> length ys = length xs \<Longrightarrow> blit (blit b off xs) off ys = blit b off ys"
  by (rule nth_equalityI) (auto simp: nth_blit)

lemma nth_eq_slice: "i < length b \<Longrightarrow> b ! i = hd (slice b i 1)"
  by (simp add: slice_def hd_drop_conv_nth take_Suc)

section \<open>Records of fields\<close>

text \<open>An encoder that writes fields from left to right: the fields with their offsets, the
  buffer they give, and reading one of them back.\<close>

definition putFields :: "'a list \<Rightarrow> (nat \<times> 'a list) list \<Rightarrow> 'a list" where
  "putFields b fs = foldl (\<lambda>b (off, v). blit b off v) b fs"

fun laid :: "nat \<Rightarrow> nat \<Rightarrow> (nat \<times> 'a list) list \<Rightarrow> bool" where
  "laid lo n [] \<longleftrightarrow> lo \<le> n"
| "laid lo n ((off, v) # fs) \<longleftrightarrow> lo \<le> off \<and> laid (off + length v) n fs"

lemma laid_le: "laid lo n fs \<Longrightarrow> lo \<le> n"
  by (induction lo n fs rule: laid.induct) auto

lemma laid_bounds: "laid lo n fs \<Longrightarrow> (off, v) \<in> set fs \<Longrightarrow> lo \<le> off \<and> off + length v \<le> n"
  by (induction lo n fs rule: laid.induct) (auto dest: laid_le)

lemma putFields_Cons: "putFields b ((off, v) # fs) = putFields (blit b off v) fs"
  by (simp add: putFields_def)

lemma length_putFields: "laid lo (length b) fs \<Longrightarrow> length (putFields b fs) = length b"
proof (induction fs arbitrary: lo b)
  case (Cons f fs)
  obtain off v where f: "f = (off, v)" by (cases f)
  have "length (blit b off v) = length b" using Cons.prems laid_le [of "off + length v" "length b" fs] by (simp add: f)
  then show ?case using Cons.prems Cons.IH [of "off + length v" "blit b off v"] by (simp add: f putFields_Cons)
qed (simp add: putFields_def)

lemma slice_putFields_below:
  "laid lo (length b) fs \<Longrightarrow> off + n \<le> lo \<Longrightarrow> slice (putFields b fs) off n = slice b off n"
proof (induction fs arbitrary: lo b)
  case (Cons f fs)
  obtain o' v where f: "f = (o', v)" by (cases f)
  have l: "o' + length v \<le> length b" using Cons.prems laid_le [of "o' + length v" "length b" fs] by (simp add: f)
  then have "slice (putFields (blit b o' v) fs) off n = slice (blit b o' v) off n"
    using Cons by (intro Cons.IH [of "o' + length v"]) (simp_all add: f)
  also have "\<dots> = slice b off n" using l Cons.prems by (simp add: f slice_blit_below)
  finally show ?case by (simp add: f putFields_Cons)
qed (simp add: putFields_def)

lemma slice_putFields:
  "laid lo (length b) fs \<Longrightarrow> (off, v) \<in> set fs \<Longrightarrow> slice (putFields b fs) off (length v) = v"
proof (induction fs arbitrary: lo b)
  case (Cons f fs)
  obtain o' w where f: "f = (o', w)" by (cases f)
  have l: "o' + length w \<le> length b" using Cons.prems laid_le [of "o' + length w" "length b" fs] by (simp add: f)
  then have rest: "laid (o' + length w) (length (blit b o' w)) fs" using Cons.prems by (simp add: f)
  show ?case
  proof (cases "(off, v) \<in> set fs")
    case True
    then show ?thesis using Cons.IH [OF rest] by (simp add: f putFields_Cons)
  next
    case False
    then have "off = o'" "v = w" using Cons.prems(2) f by auto
    then show ?thesis using slice_putFields_below [OF rest, of off "length v"] l
      by (simp add: f putFields_Cons slice_blit_same)
  qed
qed simp

named_theorems field_steps \<open>one more field written to a buffer of fields\<close>

lemma putFields_snoc: "blit (putFields b fs) off v = putFields b (fs @ [(off, v)])"
  by (simp add: putFields_def)

lemma copyRange_fields [field_steps]:
  assumes "laid 0 (length b) fs" and "lo + length src = hi" and "hi \<le> length b"
  shows "copyRange (putFields b fs) lo hi src = Some (putFields b (fs @ [(lo, src)]))"
  using assms(2,3) length_putFields [OF assms(1)] by (auto simp: copyRange_def putFields_snoc)

lemma copyAt_fields [field_steps]:
  assumes "laid 0 (length b) fs" and "off + length src \<le> length b"
  shows "copyAt (putFields b fs) off src = Some (putFields b (fs @ [(off, src)]))"
  using assms(2) length_putFields [OF assms(1)] by (simp add: copyAt_def putFields_snoc)

section \<open>Little-endian integers\<close>

primrec le_bytes :: "nat \<Rightarrow> nat \<Rightarrow> bytes" where
  "le_bytes 0 v = []"
| "le_bytes (Suc n) v = word_of_nat (v mod 256) # le_bytes n (v div 256)"

primrec le_val :: "bytes \<Rightarrow> nat" where
  "le_val [] = 0"
| "le_val (b # bs) = unat b + 256 * le_val bs"

lemma length_le_bytes [simp]: "length (le_bytes n v) = n"
  by (induction n arbitrary: v) simp_all

lemma unat_byte_mod [simp]: "unat (word_of_nat (v mod 256) :: byte) = v mod 256"
  by (simp add: unat_of_nat)

lemma le_val_le_bytes [simp]: "le_val (le_bytes n v) = v mod 256 ^ n"
  by (induction n arbitrary: v) (simp_all add: mod_mult2_eq)

lemma unat_byte_bound: "unat (b :: byte) < 256"
proof -
  have "unat b < 2 ^ LENGTH(8)" by (rule unsigned_less)
  then show ?thesis by simp
qed

lemma le_val_bound: "le_val bs < 256 ^ length bs"
proof (induction bs)
  case (Cons b bs)
  have "unat b < 256" by (rule unat_byte_bound)
  with Cons.IH show ?case by simp
qed simp

lemma le_bytes_le_val [simp]: "le_bytes (length bs) (le_val bs) = bs"
proof (induction bs)
  case (Cons b bs)
  have b: "unat b < 256" by (rule unat_byte_bound)
  then have "(unat b + 256 * le_val bs) div 256 = le_val bs" and
    "(unat b + 256 * le_val bs) mod 256 = unat b" by simp_all
  with Cons.IH show ?case by simp
qed simp

lemma le_val_replicate_0 [simp]: "le_val (replicate n 0) = 0"
  by (induction n) simp_all

section \<open>Insertion sort as the source writes it\<close>

text \<open>
  The source sorts small slices in place: element \<open>i\<close> is swapped towards the front
  while it is less than its predecessor. Over the reversed sorted prefix that is
  \<open>sink\<close>: the new element passes every element it is less than.
\<close>

fun sink :: "('a \<Rightarrow> 'a \<Rightarrow> bool) \<Rightarrow> 'a \<Rightarrow> 'a list \<Rightarrow> 'a list" where
  "sink lt x [] = [x]"
| "sink lt x (y # ys) = (if lt x y then y # sink lt x ys else x # y # ys)"

definition insertionSort :: "('a \<Rightarrow> 'a \<Rightarrow> bool) \<Rightarrow> 'a list \<Rightarrow> 'a list" where
  "insertionSort lt xs = rev (foldl (\<lambda>acc x. sink lt x acc) [] xs)"

lemma mset_sink: "mset (sink lt x ys) = add_mset x (mset ys)"
  by (induction ys) auto

lemma mset_sink_fold: "mset (foldl (\<lambda>acc x. sink lt x acc) ys xs) = mset ys + mset xs"
  by (induction xs arbitrary: ys) (auto simp: mset_sink)

lemma mset_insertionSort [simp]: "mset (insertionSort lt xs) = mset xs"
  by (simp add: insertionSort_def mset_sink_fold)

lemma set_insertionSort [simp]: "set (insertionSort lt xs) = set xs"
  by (metis mset_insertionSort set_mset_mset)

lemma length_insertionSort [simp]: "length (insertionSort lt xs) = length xs"
  by (metis mset_insertionSort size_mset)

text \<open>With a key function into a linear order the result is sorted by that key.\<close>

lemma sorted_sink:
  fixes f :: "'a \<Rightarrow> 'b::linorder"
  assumes "sorted_wrt (\<lambda>a b. f b \<le> f a) ys"
  shows "sorted_wrt (\<lambda>a b. f b \<le> f a) (sink (\<lambda>a b. f a < f b) x ys)"
  using assms
proof (induction ys)
  case (Cons y ys)
  have "set (sink (\<lambda>a b. f a < f b) x ys) = insert x (set ys)"
    by (metis mset_sink set_mset_add_mset_insert set_mset_mset)
  with Cons show ?case by auto
qed simp

lemma sorted_insertionSort:
  fixes f :: "'a \<Rightarrow> 'b::linorder"
  shows "sorted_wrt (\<lambda>a b. f a \<le> f b) (insertionSort (\<lambda>a b. f a < f b) xs)"
proof -
  have "sorted_wrt (\<lambda>a b. f b \<le> f a) (foldl (\<lambda>acc x. sink (\<lambda>a b. f a < f b) x acc) ys xs)"
    if "sorted_wrt (\<lambda>a b. f b \<le> f a) ys" for ys
    using that by (induction xs arbitrary: ys) (simp_all add: sorted_sink)
  from this [of "[]"] show ?thesis
    by (simp add: insertionSort_def sorted_wrt_rev)
qed

end
