(* ===== verification/Binary.thy ===== *)
theory Binary
  imports Prelude
begin

text \<open>
  The byte-level foundations every on-disk format rests on: the little-endian
  accessors of \<open>internal/encoding/binary.go\<close>, the constants and identifier checks
  of \<open>internal/storage/format/format.go\<close>, and the CRC32C field of
  \<open>internal/storage/checksum/checksum.go\<close>. An accessor whose slice expression is
  out of range panics, so it returns \<open>None\<close>; the \<open>Read\<close> variants check first
  and return an error value.
\<close>

unbundle bit_operations_syntax

section \<open>Little-endian accessors\<close>

definition PutU16 :: "bytes \<Rightarrow> nat \<Rightarrow> u16 \<Rightarrow> bytes option" where
  "PutU16 b off v = (if off + 2 \<le> length b then Some (blit b off (le_bytes 2 (unat v))) else None)"

definition PutU32 :: "bytes \<Rightarrow> nat \<Rightarrow> u32 \<Rightarrow> bytes option" where
  "PutU32 b off v = (if off + 4 \<le> length b then Some (blit b off (le_bytes 4 (unat v))) else None)"

definition PutU64 :: "bytes \<Rightarrow> nat \<Rightarrow> u64 \<Rightarrow> bytes option" where
  "PutU64 b off v = (if off + 8 \<le> length b then Some (blit b off (le_bytes 8 (unat v))) else None)"

definition U16 :: "bytes \<Rightarrow> nat \<Rightarrow> u16 option" where
  "U16 b off = (if off + 2 \<le> length b then Some (word_of_nat (le_val (slice b off 2))) else None)"

definition U32 :: "bytes \<Rightarrow> nat \<Rightarrow> u32 option" where
  "U32 b off = (if off + 4 \<le> length b then Some (word_of_nat (le_val (slice b off 4))) else None)"

definition U64 :: "bytes \<Rightarrow> nat \<Rightarrow> u64 option" where
  "U64 b off = (if off + 8 \<le> length b then Some (word_of_nat (le_val (slice b off 8))) else None)"

text \<open>\<open>bounds\<close> takes Go \<open>int\<close>s, which may be negative.\<close>

definition bounds :: "bytes \<Rightarrow> int \<Rightarrow> int \<Rightarrow> nerr option" where
  "bounds b off n =
     (if off < 0 \<or> n < 0 \<or> off + n > int (length b)
      then Some (New InvalidFormat ''encoding'' ''truncated field'') else None)"

definition ReadU16 :: "bytes \<Rightarrow> int \<Rightarrow> u16 go" where
  "ReadU16 b off = (case bounds b off 2 of
      Some err \<Rightarrow> Some (Inl err)
    | None \<Rightarrow> map_option Inr (U16 b (nat off)))"

definition ReadU32 :: "bytes \<Rightarrow> int \<Rightarrow> u32 go" where
  "ReadU32 b off = (case bounds b off 4 of
      Some err \<Rightarrow> Some (Inl err)
    | None \<Rightarrow> map_option Inr (U32 b (nat off)))"

definition ReadU64 :: "bytes \<Rightarrow> int \<Rightarrow> u64 go" where
  "ReadU64 b off = (case bounds b off 8 of
      Some err \<Rightarrow> Some (Inl err)
    | None \<Rightarrow> map_option Inr (U64 b (nat off)))"

definition ReadBytes :: "bytes \<Rightarrow> int \<Rightarrow> int \<Rightarrow> bytes go" where
  "ReadBytes b off n = (case bounds b off n of
      Some err \<Rightarrow> Some (Inl err)
    | None \<Rightarrow> map_option Inr (goSlice b (nat off) (nat (off + n))))"

lemmas [go_defs] = PutU16_def PutU32_def PutU64_def U16_def U32_def U64_def
  goSlice_def copyAt_def copyRange_def getB_def putB_def

lemma word_le_roundtrip [simp]:
  fixes v :: "'a::len word"
  assumes "256 ^ n = (2::nat) ^ LENGTH('a)"
  shows "word_of_nat (le_val (le_bytes n (unat v))) = v"
proof -
  have "unat v < 256 ^ n" using assms unsigned_less [of v] by simp
  then show ?thesis by simp
qed

lemma u16_roundtrip [simp]: "word_of_nat (unat (v :: u16) mod 65536) = v"
  using word_le_roundtrip [of 2 v] by simp

lemma u32_roundtrip [simp]: "word_of_nat (unat (v :: u32) mod 4294967296) = v"
  using word_le_roundtrip [of 4 v] by simp

lemma u64_roundtrip [simp]: "word_of_nat (unat (v :: u64) mod 18446744073709551616) = v"
  using word_le_roundtrip [of 8 v] by simp

lemma U16_PutU16: "PutU16 b off v = Some b' \<Longrightarrow> U16 b' off = Some v \<and> length b' = length b"
  by (auto simp: go_defs buf_simps split: if_splits)

lemma U32_PutU32: "PutU32 b off v = Some b' \<Longrightarrow> U32 b' off = Some v \<and> length b' = length b"
  by (auto simp: go_defs buf_simps split: if_splits)

lemma U64_PutU64: "PutU64 b off v = Some b' \<Longrightarrow> U64 b' off = Some v \<and> length b' = length b"
  by (auto simp: go_defs buf_simps split: if_splits)

lemma PutU16_fields [field_steps]:
  assumes "laid 0 (length b) fs" and "off + 2 \<le> length b"
  shows "PutU16 (putFields b fs) off v = Some (putFields b (fs @ [(off, le_bytes 2 (unat v))]))"
  using assms(2) length_putFields [OF assms(1)] by (simp add: PutU16_def putFields_snoc)

lemma PutU16_first [field_steps]:
  "off + 2 \<le> m \<Longrightarrow> PutU16 (replicate m x) off v = Some (putFields (replicate m x) [(off, le_bytes 2 (unat v))])"
  by (simp add: PutU16_def putFields_def)

lemma PutU32_fields [field_steps]:
  assumes "laid 0 (length b) fs" and "off + 4 \<le> length b"
  shows "PutU32 (putFields b fs) off v = Some (putFields b (fs @ [(off, le_bytes 4 (unat v))]))"
  using assms(2) length_putFields [OF assms(1)] by (simp add: PutU32_def putFields_snoc)

lemma PutU32_first [field_steps]:
  "off + 4 \<le> m \<Longrightarrow> PutU32 (replicate m x) off v = Some (putFields (replicate m x) [(off, le_bytes 4 (unat v))])"
  by (simp add: PutU32_def putFields_def)

lemma PutU64_fields [field_steps]:
  assumes "laid 0 (length b) fs" and "off + 8 \<le> length b"
  shows "PutU64 (putFields b fs) off v = Some (putFields b (fs @ [(off, le_bytes 8 (unat v))]))"
  using assms(2) length_putFields [OF assms(1)] by (simp add: PutU64_def putFields_snoc)

lemma PutU64_first [field_steps]:
  "off + 8 \<le> m \<Longrightarrow> PutU64 (replicate m x) off v = Some (putFields (replicate m x) [(off, le_bytes 8 (unat v))])"
  by (simp add: PutU64_def putFields_def)

section \<open>Format constants and identifier checks\<close>

definition MagicBytes :: bytes where
  "MagicBytes = [0x4E, 0x53, 0x51, 0x4C]"

definition PutMagic :: "bytes \<Rightarrow> nat \<Rightarrow> bytes option" where
  "PutMagic b off = copyRange b off (off + 4) MagicBytes"

definition HasMagic :: "bytes \<Rightarrow> nat \<Rightarrow> bool" where
  "HasMagic b off \<longleftrightarrow> off + 4 \<le> length b \<and>
     b ! off = 0x4E \<and> b ! (off + 1) = 0x53 \<and> b ! (off + 2) = 0x51 \<and> b ! (off + 3) = 0x4C"

abbreviation (input) LogicalPageSize :: nat where "LogicalPageSize \<equiv> 16384"
abbreviation (input) PageHeaderSize :: nat where "PageHeaderSize \<equiv> 48"
abbreviation (input) SlotSize :: nat where "SlotSize \<equiv> 4"
abbreviation (input) AuthTagSize :: nat where "AuthTagSize \<equiv> 16"
abbreviation (input) MaxRecordSize :: nat where
  "MaxRecordSize \<equiv> LogicalPageSize - PageHeaderSize - SlotSize"

definition CurrentFormatVersion :: u16 where "CurrentFormatVersion = 1"

text \<open>Page types are 16-bit values; only the six named ones are known.\<close>

definition PageTypeSuperblock :: u16 where "PageTypeSuperblock = 1"
definition PageTypeSlotted :: u16 where "PageTypeSlotted = 2"
definition PageTypeFree :: u16 where "PageTypeFree = 3"
definition PageTypeFreeList :: u16 where "PageTypeFreeList = 4"
definition PageTypeBTreeLeaf :: u16 where "PageTypeBTreeLeaf = 5"
definition PageTypeBTreeInternal :: u16 where "PageTypeBTreeInternal = 6"

lemmas page_type_defs = PageTypeSuperblock_def PageTypeSlotted_def PageTypeFree_def
  PageTypeFreeList_def PageTypeBTreeLeaf_def PageTypeBTreeInternal_def

definition Known :: "u16 \<Rightarrow> bool" where
  "Known t \<longleftrightarrow> t = PageTypeSuperblock \<or> t = PageTypeSlotted \<or> t = PageTypeFree \<or>
     t = PageTypeFreeList \<or> t = PageTypeBTreeLeaf \<or> t = PageTypeBTreeInternal"

definition IsSuperblock :: "PageID \<Rightarrow> bool" where
  "IsSuperblock pid \<longleftrightarrow> pid = 0"

definition UserData :: "PageID \<Rightarrow> nerr option" where
  "UserData pid = (if IsSuperblock pid
     then Some (New InvalidArgument ''format.PageID'' ''page id 0 is reserved for the superblock'')
     else None)"

lemma UserData_None [simp]: "UserData pid = None \<longleftrightarrow> pid \<noteq> 0"
  by (simp add: UserData_def IsSuperblock_def)

record Identity =
  Database :: bytes
  File :: bytes

text \<open>\<open>PhysicalOffset\<close> multiplies in \<open>int64\<close>; the conversion keeps the low 64 bits.\<close>

definition PhysicalOffset :: "PageID \<Rightarrow> int" where
  "PhysicalOffset pid = sint (pid * 16448)"

section \<open>CRC32C\<close>

text \<open>
  The reflected CRC-32 with the Castagnoli polynomial, as \<open>hash/crc32\<close> documents it:
  each byte is folded into the register and shifted out bit by bit; the register is
  complemented before and after.
\<close>

definition castagnoli :: u32 where "castagnoli = 0x82F63B78"

definition crcBit :: "u32 \<Rightarrow> u32" where
  "crcBit c = (if bit c 0 then drop_bit 1 c XOR castagnoli else drop_bit 1 c)"

definition crcByte :: "u32 \<Rightarrow> byte \<Rightarrow> u32" where
  "crcByte c x = (crcBit ^^ 8) (c XOR ucast x)"

definition crcUpdate :: "u32 \<Rightarrow> bytes \<Rightarrow> u32" where
  "crcUpdate c data = NOT (foldl crcByte (NOT c) data)"

definition CRC32C :: "bytes \<Rightarrow> u32" where
  "CRC32C data = crcUpdate 0 data"

lemma crcUpdate_append [simp]: "crcUpdate (crcUpdate c a) b = crcUpdate c (a @ b)"
  by (simp add: crcUpdate_def)

text \<open>\<open>checksum.Write\<close> stores the sum of everything but the field; \<open>Verify\<close>
  recomputes it. \<open>data[:off]\<close> and \<open>data[off+4:]\<close> are the two summed parts.\<close>

definition checksumOf :: "bytes \<Rightarrow> nat \<Rightarrow> u32" where
  "checksumOf data off = crcUpdate (crcUpdate 0 (take off data)) (drop (off + 4) data)"

definition checksumWrite :: "bytes \<Rightarrow> nat \<Rightarrow> bytes option" where
  "checksumWrite data off =
     (if off + 4 \<le> length data then PutU32 data off (checksumOf data off) else None)"

definition checksumVerify :: "bytes \<Rightarrow> int \<Rightarrow> unit go" where
  "checksumVerify data off =
     (if off < 0 \<or> off + 4 > int (length data)
      then Some (Inl (New InvalidFormat ''checksum.Verify'' ''checksum field out of range''))
      else do {
        got \<leftarrow> U32 data (nat off);
        if got \<noteq> checksumOf data (nat off)
        then Some (Inl (New Corruption ''checksum.Verify'' ''checksum mismatch''))
        else Some (Inr ())
      })"

lemma checksumOf_blit:
  "off + 4 \<le> length data \<Longrightarrow> length bs = 4 \<Longrightarrow> checksumOf (blit data off bs) off = checksumOf data off"
  by (simp add: checksumOf_def blit_def)

lemma checksum_write_verify:
  "checksumWrite data off = Some data' \<Longrightarrow> checksumVerify data' (int off) = Some (Inr ())"
  by (auto simp: checksumWrite_def checksumVerify_def go_defs buf_simps checksumOf_blit
      split: if_splits)

end
