(* ===== verification/Page.thy ===== *)
theory Page
  imports Binary
begin

text \<open>
  The slotted page of \<open>internal/storage/page\<close>: a 16384-byte buffer with a 48-byte
  header, a directory of 4-byte slots growing up from the header and records growing
  down from the end. A page is its buffer; every operation is translated with its
  header arithmetic and its guards. An operation that mutates the page returns the
  new page beside its result, also when the result is an error.
\<close>

type_synonym page = bytes

section \<open>Header\<close>

abbreviation (input) offMagic :: nat where "offMagic \<equiv> 0"
abbreviation (input) offVersion :: nat where "offVersion \<equiv> 4"
abbreviation (input) offType :: nat where "offType \<equiv> 6"
abbreviation (input) offPageID :: nat where "offPageID \<equiv> 8"
abbreviation (input) offLSN :: nat where "offLSN \<equiv> 16"
abbreviation (input) offTxn :: nat where "offTxn \<equiv> 24"
abbreviation (input) offSlotCount :: nat where "offSlotCount \<equiv> 32"
abbreviation (input) offLower :: nat where "offLower \<equiv> 34"
abbreviation (input) offUpper :: nat where "offUpper \<equiv> 36"
abbreviation (input) offFlags :: nat where "offFlags \<equiv> 38"
abbreviation (input) offChecksum :: nat where "offChecksum \<equiv> 40"

definition initHeader :: "page \<Rightarrow> PageID \<Rightarrow> u16 \<Rightarrow> page option" where
  "initHeader p pid typ = do {
     let b = replicate (length p) 0;
     b \<leftarrow> PutMagic b offMagic;
     b \<leftarrow> PutU16 b offVersion CurrentFormatVersion;
     b \<leftarrow> PutU16 b offType typ;
     b \<leftarrow> PutU64 b offPageID pid;
     b \<leftarrow> PutU16 b offLower (word_of_nat PageHeaderSize);
     PutU16 b offUpper (word_of_nat LogicalPageSize)
   }"

definition pageNew :: "PageID \<Rightarrow> u16 \<Rightarrow> page option" where
  "pageNew pid typ = initHeader (replicate LogicalPageSize 0) pid typ"

definition pageNewIn :: "bytes \<Rightarrow> PageID \<Rightarrow> u16 \<Rightarrow> page go" where
  "pageNewIn buf pid typ =
     (if length buf \<noteq> LogicalPageSize
      then Some (Inl (New InvalidArgument ''page.NewIn'' ''buffer is not a logical page''))
      else map_option Inr (initHeader buf pid typ))"

definition pageID :: "page \<Rightarrow> PageID option" where
  "pageID p = U64 p offPageID"

definition pageType :: "page \<Rightarrow> u16 option" where
  "pageType p = U16 p offType"

definition pageVersion :: "page \<Rightarrow> u16 option" where
  "pageVersion p = U16 p offVersion"

definition pageLSN :: "page \<Rightarrow> LSN option" where
  "pageLSN p = U64 p offLSN"

definition StampLSN :: "bytes \<Rightarrow> LSN \<Rightarrow> bytes option" where
  "StampLSN buf lsn = (if length buf < offLSN + 8 then Some buf else PutU64 buf offLSN lsn)"

definition LSNOf :: "bytes \<Rightarrow> LSN option" where
  "LSNOf buf = (if length buf < offLSN + 8 then Some 0 else U64 buf offLSN)"

definition IDOf :: "bytes \<Rightarrow> PageID option" where
  "IDOf buf = (if length buf < offPageID + 8 then Some 0 else U64 buf offPageID)"

definition CheckID :: "bytes \<Rightarrow> PageID \<Rightarrow> unit go" where
  "CheckID buf want =
     (if length buf \<noteq> LogicalPageSize
      then Some (Inl (New InvalidFormat ''page.CheckID'' ''logical page has wrong size''))
      else if \<not> HasMagic buf offMagic
      then Some (Inl (New InvalidFormat ''page.CheckID'' ''bad page magic''))
      else do {
        ver \<leftarrow> U16 buf offVersion;
        if ver \<noteq> CurrentFormatVersion
        then Some (Inl (New InvalidFormat ''page.CheckID'' ''unsupported page format version''))
        else do {
          got \<leftarrow> IDOf buf;
          if got \<noteq> want
          then Some (Inl (New Corruption ''page.CheckID'' ''page id mismatch''))
          else Some (Inr ())
        }
      })"

definition TxnMeta :: "page \<Rightarrow> TxnID option" where
  "TxnMeta p = U64 p offTxn"

definition SetTxnMeta :: "page \<Rightarrow> TxnID \<Rightarrow> page option" where
  "SetTxnMeta p t = PutU64 p offTxn t"

definition pageFlags :: "page \<Rightarrow> u16 option" where
  "pageFlags p = U16 p offFlags"

definition SlotCount :: "page \<Rightarrow> nat option" where
  "SlotCount p = map_option unat (U16 p offSlotCount)"

definition Lower :: "page \<Rightarrow> nat option" where
  "Lower p = map_option unat (U16 p offLower)"

definition Upper :: "page \<Rightarrow> nat option" where
  "Upper p = map_option unat (U16 p offUpper)"

definition FreeSpace :: "page \<Rightarrow> int option" where
  "FreeSpace p = do { u \<leftarrow> Upper p; l \<leftarrow> Lower p; Some (int u - int l) }"

definition FinalizeBuf :: "bytes \<Rightarrow> bytes option" where
  "FinalizeBuf buf =
     (if length buf < offChecksum + 4 then Some buf
      else do { b \<leftarrow> PutU32 buf offChecksum 0; checksumWrite b offChecksum })"

definition VerifyChecksum :: "bytes \<Rightarrow> unit go" where
  "VerifyChecksum buf =
     (if length buf \<noteq> LogicalPageSize
      then Some (Inl (New InvalidFormat ''page.VerifyChecksum'' ''logical page has wrong size''))
      else checksumVerify buf (int offChecksum))"

section \<open>Slots\<close>

definition slotOff :: "nat \<Rightarrow> nat" where
  "slotOff i = PageHeaderSize + i * SlotSize"

definition slot :: "page \<Rightarrow> nat \<Rightarrow> (nat \<times> nat) option" where
  "slot p i = do {
     a \<leftarrow> U16 p (slotOff i);
     l \<leftarrow> U16 p (slotOff i + 2);
     Some (unat a, unat l)
   }"

text \<open>The arguments are converted to \<open>uint16\<close> at the call, hence \<open>word_of_nat\<close>.\<close>

definition setSlot :: "page \<Rightarrow> nat \<Rightarrow> nat \<Rightarrow> nat \<Rightarrow> page option" where
  "setSlot p i off len = do {
     b \<leftarrow> PutU16 p (slotOff i) (word_of_nat off);
     PutU16 b (slotOff i + 2) (word_of_nat len)
   }"

definition pageAppend :: "page \<Rightarrow> bytes \<Rightarrow> (page \<times> nat res) option" where
  "pageAppend p rcd =
     (if length rcd > MaxRecordSize
      then Some (p, Inl (New InvalidArgument ''page.Append'' ''record exceeds maximum size''))
      else do {
        n \<leftarrow> SlotCount p;
        fs \<leftarrow> FreeSpace p;
        if fs < int (length rcd + SlotSize)
        then Some (p, Inl (New PageFull ''page.Append'' ''page is full''))
        else do {
          u \<leftarrow> Upper p;
          let upper = u - length rcd;
          p \<leftarrow> copyRange p upper (upper + length rcd) rcd;
          p \<leftarrow> PutU16 p offUpper (word_of_nat upper);
          p \<leftarrow> setSlot p n upper (length rcd);
          p \<leftarrow> PutU16 p offSlotCount (word_of_nat (n + 1));
          p \<leftarrow> PutU16 p offLower (word_of_nat (slotOff (n + 1)));
          Some (p, Inr n)
        }
      })"

text \<open>The loop of \<open>Compact\<close> over the slot indexes, with its \<open>tmp\<close> buffer and its
  \<open>upper\<close> cursor. A negative cursor makes the slice expression panic.\<close>

fun compactLoop :: "nat list \<Rightarrow> page \<Rightarrow> bytes \<Rightarrow> nat \<Rightarrow> (page \<times> bytes \<times> nat) option" where
  "compactLoop [] p tmp upper = Some (p, tmp, upper)"
| "compactLoop (i # is) p tmp upper = do {
     (off, len) \<leftarrow> slot p i;
     if len = 0 \<and> off = 0 then compactLoop is p tmp upper
     else if upper < len then None
     else do {
       src \<leftarrow> goSlice p off (off + len);
       tmp \<leftarrow> copyRange tmp (upper - len) (upper - len + len) src;
       p \<leftarrow> setSlot p i (upper - len) len;
       compactLoop is p tmp (upper - len)
     }
   }"

definition Compact :: "page \<Rightarrow> page option" where
  "Compact p = do {
     n \<leftarrow> SlotCount p;
     (p, tmp, upper) \<leftarrow> compactLoop [0..<n] p (replicate LogicalPageSize 0) LogicalPageSize;
     p \<leftarrow> copyAt p upper (drop upper tmp);
     p \<leftarrow> PutU16 p offUpper (word_of_nat upper);
     PutU16 p offLower (word_of_nat (slotOff n))
   }"

text \<open>The search of \<open>Insert\<close> for the first deleted slot.\<close>

fun findHole :: "page \<Rightarrow> nat list \<Rightarrow> nat option option" where
  "findHole p [] = Some None"
| "findHole p (i # is) = do {
     (off, len) \<leftarrow> slot p i;
     if len = 0 \<and> off = 0 then Some (Some i) else findHole p is
   }"

text \<open>The second half of \<open>Insert\<close>: place the record and point a slot at it.\<close>

definition placeRecord :: "page \<Rightarrow> nat \<Rightarrow> nat option \<Rightarrow> bytes \<Rightarrow> (page \<times> nat res) option" where
  "placeRecord p n reuse rcd = do {
     u \<leftarrow> Upper p;
     let upper = u - length rcd;
     p \<leftarrow> copyRange p upper (upper + length rcd) rcd;
     p \<leftarrow> PutU16 p offUpper (word_of_nat upper);
     case reuse of
       Some idx \<Rightarrow> do { p \<leftarrow> setSlot p idx upper (length rcd); Some (p, Inr idx) }
     | None \<Rightarrow> do {
         p \<leftarrow> setSlot p n upper (length rcd);
         p \<leftarrow> PutU16 p offSlotCount (word_of_nat (n + 1));
         p \<leftarrow> PutU16 p offLower (word_of_nat (slotOff (n + 1)));
         Some (p, Inr n)
       }
   }"

definition pageInsert :: "page \<Rightarrow> bytes \<Rightarrow> (page \<times> nat res) option" where
  "pageInsert p rcd =
     (if length rcd > MaxRecordSize
      then Some (p, Inl (New InvalidArgument ''page.Insert'' ''record exceeds maximum size''))
      else do {
        n \<leftarrow> SlotCount p;
        reuse \<leftarrow> findHole p [0..<n];
        let need = length rcd + (if reuse = None then SlotSize else 0);
        fs \<leftarrow> FreeSpace p;
        if fs < int need then do {
          p \<leftarrow> Compact p;
          fs \<leftarrow> FreeSpace p;
          if fs < int need
          then Some (p, Inl (New PageFull ''page.Insert'' ''page is full''))
          else placeRecord p n reuse rcd
        } else placeRecord p n reuse rcd
      })"

definition GetView :: "page \<Rightarrow> u16 \<Rightarrow> bytes go" where
  "GetView p s = do {
     n \<leftarrow> SlotCount p;
     if unat s \<ge> n
     then Some (Inl (New NotFound ''page.Get'' ''slot out of range''))
     else do {
       (off, len) \<leftarrow> slot p (unat s);
       if len = 0 \<and> off = 0
       then Some (Inl (New NotFound ''page.Get'' ''slot deleted''))
       else do {
         u \<leftarrow> Upper p;
         if off < u \<or> off + len > LogicalPageSize
         then Some (Inl (New Corruption ''page.Get'' ''slot points outside record area''))
         else map_option Inr (goSlice p off (off + len))
       }
     }
   }"

text \<open>\<open>Get\<close> copies the view; values do not alias here, so the two agree.\<close>

definition pageGet :: "page \<Rightarrow> u16 \<Rightarrow> bytes go" where
  "pageGet p s = gbind (GetView p s) (\<lambda>view. Some (Inr view))"

definition pageDelete :: "page \<Rightarrow> u16 \<Rightarrow> (page \<times> unit res) option" where
  "pageDelete p s = do {
     n \<leftarrow> SlotCount p;
     if unat s \<ge> n
     then Some (p, Inl (New NotFound ''page.Delete'' ''slot out of range''))
     else do {
       (off, len) \<leftarrow> slot p (unat s);
       if len = 0 \<and> off = 0
       then Some (p, Inl (New NotFound ''page.Delete'' ''slot deleted''))
       else do { p \<leftarrow> setSlot p (unat s) 0 0; Some (p, Inr ()) }
     }
   }"

text \<open>The loop of \<open>canReplace\<close>: live bytes, and the length of the slot replaced.\<close>

fun replaceLoop :: "page \<Rightarrow> nat \<Rightarrow> nat list \<Rightarrow> nat \<Rightarrow> nat \<Rightarrow> (nat \<times> nat) option" where
  "replaceLoop p s [] live old = Some (live, old)"
| "replaceLoop p s (i # is) live old = do {
     (off, len) \<leftarrow> slot p i;
     if len = 0 \<and> off = 0 then replaceLoop p s is live old
     else replaceLoop p s is (live + len) (if i = s then len else old)
   }"

definition canReplace :: "page \<Rightarrow> nat \<Rightarrow> nat \<Rightarrow> bool option" where
  "canReplace p s newLen = do {
     n \<leftarrow> SlotCount p;
     (live, old) \<leftarrow> replaceLoop p s [0..<n] 0 0;
     Some (int (PageHeaderSize + SlotSize * n + live) - int old + int newLen \<le> int LogicalPageSize)
   }"

definition pageUpdate :: "page \<Rightarrow> u16 \<Rightarrow> bytes \<Rightarrow> (page \<times> unit res) option" where
  "pageUpdate p s rcd = do {
     n \<leftarrow> SlotCount p;
     if unat s \<ge> n
     then Some (p, Inl (New NotFound ''page.Update'' ''slot out of range''))
     else do {
       (off, len) \<leftarrow> slot p (unat s);
       if len = 0 \<and> off = 0
       then Some (p, Inl (New NotFound ''page.Update'' ''slot deleted''))
       else if length rcd \<le> len then do {
         p \<leftarrow> copyRange p off (off + length rcd) rcd;
         p \<leftarrow> setSlot p (unat s) off (length rcd);
         Some (p, Inr ())
       } else do {
         ok \<leftarrow> canReplace p (unat s) (length rcd);
         if \<not> ok then Some (p, Inl (New PageFull ''page.Update'' ''page is full''))
         else do {
           (p, r) \<leftarrow> pageDelete p s;
           case r of
             Inl err \<Rightarrow> Some (p, Inl err)
           | Inr _ \<Rightarrow> do {
               p \<leftarrow> Compact p;
               (p, r) \<leftarrow> pageInsert p rcd;
               case r of
                 Inl err \<Rightarrow> Some (p, Inl err)
               | Inr newSlot \<Rightarrow>
                   if newSlot \<noteq> unat s then do {
                     (noff, nlen) \<leftarrow> slot p newSlot;
                     p \<leftarrow> setSlot p (unat s) noff nlen;
                     p \<leftarrow> setSlot p newSlot 0 0;
                     Some (p, Inr ())
                   } else Some (p, Inr ())
             }
         }
       }
     }
   }"

fun liveLoop :: "page \<Rightarrow> nat list \<Rightarrow> nat \<Rightarrow> nat option" where
  "liveLoop p [] n = Some n"
| "liveLoop p (i # is) n = do {
     (off, len) \<leftarrow> slot p i;
     liveLoop p is (if \<not> (len = 0 \<and> off = 0) then n + 1 else n)
   }"

definition LiveSlots :: "page \<Rightarrow> nat option" where
  "LiveSlots p = do { n \<leftarrow> SlotCount p; liveLoop p [0..<n] 0 }"

section \<open>Validation\<close>

text \<open>The first loop of \<open>Validate\<close> collects the live intervals \<open>(start, end)\<close>.\<close>

fun validateLoop :: "page \<Rightarrow> nat \<Rightarrow> nat list \<Rightarrow> (nat \<times> nat) list \<Rightarrow> (nat \<times> nat) list go" where
  "validateLoop p upper [] live = Some (Inr live)"
| "validateLoop p upper (i # is) live = do {
     (off, len) \<leftarrow> slot p i;
     if len = 0 \<and> off = 0 then validateLoop p upper is live
     else if off < upper \<or> off + len > LogicalPageSize \<or> off > off + len
     then Some (Inl (New Corruption ''page.Validate'' ''slot outside record area''))
     else validateLoop p upper is (live @ [(off, off + len)])
   }"

fun overlapScan :: "(nat \<times> nat) list \<Rightarrow> bool" where
  "overlapScan (a # b # rest) \<longleftrightarrow>
     (fst b < snd a \<and> fst a < snd b) \<or> overlapScan (b # rest)"
| "overlapScan _ \<longleftrightarrow> False"

definition pageValidate :: "page \<Rightarrow> unit go" where
  "pageValidate p =
     (if length p \<noteq> LogicalPageSize
      then Some (Inl (New InvalidFormat ''page.Validate'' ''logical page has wrong size''))
      else if \<not> HasMagic p offMagic
      then Some (Inl (New InvalidFormat ''page.Validate'' ''bad page magic''))
      else do {
        ver \<leftarrow> U16 p offVersion;
        typ \<leftarrow> U16 p offType;
        slotCount \<leftarrow> SlotCount p;
        lower \<leftarrow> Lower p;
        upper \<leftarrow> Upper p;
        if ver \<noteq> CurrentFormatVersion
        then Some (Inl (New InvalidFormat ''page.Validate'' ''unsupported page format version''))
        else if \<not> Known typ
        then Some (Inl (New InvalidFormat ''page.Validate'' ''unknown page type''))
        else if slotCount > (LogicalPageSize - PageHeaderSize) div SlotSize
        then Some (Inl (New Corruption ''page.Validate'' ''invalid slot count''))
        else if lower \<noteq> PageHeaderSize + slotCount * SlotSize
        then Some (Inl (New Corruption ''page.Validate'' ''lower pointer does not match slot directory''))
        else if upper < lower \<or> upper > LogicalPageSize
        then Some (Inl (New Corruption ''page.Validate'' ''invalid upper pointer''))
        else gbind (validateLoop p upper [0..<slotCount] []) (\<lambda>live.
          if overlapScan (insertionSort (\<lambda>a b. fst a < fst b) live)
          then Some (Inl (New Corruption ''page.Validate'' ''overlapping slots''))
          else Some (Inr ()))
      })"

definition pageParse :: "bytes \<Rightarrow> page go" where
  "pageParse buf =
     (if length buf \<noteq> LogicalPageSize
      then Some (Inl (New InvalidFormat ''page.Parse'' ''logical page has wrong size''))
      else gbind (pageValidate buf) (\<lambda>_. Some (Inr buf)))"

definition pageWrap :: "bytes \<Rightarrow> page go" where
  "pageWrap buf =
     (if length buf \<noteq> LogicalPageSize
      then Some (Inl (New InvalidFormat ''page.Wrap'' ''logical page has wrong size''))
      else gbind (pageValidate buf) (\<lambda>_. Some (Inr buf)))"

definition WrapCached :: "bytes \<Rightarrow> page go" where
  "WrapCached buf =
     (if length buf \<noteq> LogicalPageSize
      then Some (Inl (New InvalidFormat ''page.WrapCached'' ''logical page has wrong size''))
      else Some (Inr buf))"

definition ParseID :: "bytes \<Rightarrow> PageID \<Rightarrow> page go" where
  "ParseID buf pid = gbind (pageParse buf) (\<lambda>p. do {
     got \<leftarrow> pageID p;
     if got \<noteq> pid
     then Some (Inl (New Corruption ''page.ParseID'' ''page id mismatch''))
     else Some (Inr p)
   })"

end
