(* ===== verification/PageInv.thy ===== *)
theory PageInv
  imports Page
begin

text \<open>
  The correctness of the slotted page. The invariant \<open>page_inv\<close> says what a page
  promises between operations: the directory ends where \<open>lower\<close> says, records lie
  in the record area and do not overlap. The abstraction \<open>page_map\<close> is the map from
  slot numbers to records; every operation is shown to implement the corresponding map
  operation, to keep the invariant and never to panic.
\<close>

section \<open>Reading a page\<close>

definition rd16 :: "page \<Rightarrow> nat \<Rightarrow> nat" where
  "rd16 p off = le_val (slice p off 2)"

abbreviation scount :: "page \<Rightarrow> nat" where "scount p \<equiv> rd16 p 32"
abbreviation lowern :: "page \<Rightarrow> nat" where "lowern p \<equiv> rd16 p 34"
abbreviation uppern :: "page \<Rightarrow> nat" where "uppern p \<equiv> rd16 p 36"

definition slotn :: "page \<Rightarrow> nat \<Rightarrow> nat \<times> nat" where
  "slotn p i = (rd16 p (48 + 4 * i), rd16 p (50 + 4 * i))"

definition w16 :: "page \<Rightarrow> nat \<Rightarrow> nat \<Rightarrow> page" where
  "w16 p off v = blit p off (le_bytes 2 (v mod 65536))"

definition wslot :: "page \<Rightarrow> nat \<Rightarrow> nat \<Rightarrow> nat \<Rightarrow> page" where
  "wslot p i off len = w16 (w16 p (48 + 4 * i) off) (50 + 4 * i) len"

lemma rd16_bound: "off + 2 \<le> length p \<Longrightarrow> rd16 p off < 65536"
  using le_val_bound [of "slice p off 2"] by (simp add: rd16_def)

lemma unat_u16_rd16 [simp]:
  "off + 2 \<le> length p \<Longrightarrow> unat (word_of_nat (rd16 p off) :: u16) = rd16 p off"
  using rd16_bound [of off p] by (simp add: unat_of_nat)

lemma U16_rd16: "off + 2 \<le> length p \<Longrightarrow> U16 p off = Some (word_of_nat (rd16 p off))"
  by (simp add: U16_def rd16_def)

lemma PutU16_w16: "off + 2 \<le> length p \<Longrightarrow> PutU16 p off (word_of_nat v) = Some (w16 p off v)"
  by (simp add: PutU16_def w16_def unat_of_nat)

lemma length_w16 [simp]: "off + 2 \<le> length p \<Longrightarrow> length (w16 p off v) = length p"
  by (simp add: w16_def)

lemma length_wslot [simp]: "52 + 4 * i \<le> length p \<Longrightarrow> length (wslot p i off len) = length p"
  by (simp add: wslot_def)

lemma slice_w16 [simp]:
  "off + 2 \<le> length p \<Longrightarrow> a + m \<le> off \<or> off + 2 \<le> a \<Longrightarrow> a + m \<le> length p \<Longrightarrow>
   slice (w16 p off v) a m = slice p a m"
  by (auto simp: w16_def buf_simps)

lemma rd16_w16_same [simp]: "off + 2 \<le> length p \<Longrightarrow> rd16 (w16 p off v) off = v mod 65536"
  by (simp add: w16_def rd16_def buf_simps)

lemma rd16_w16_other [simp]:
  "off + 2 \<le> length p \<Longrightarrow> a + 2 \<le> off \<or> off + 2 \<le> a \<Longrightarrow> a + 2 \<le> length p \<Longrightarrow>
   rd16 (w16 p off v) a = rd16 p a"
  by (simp add: rd16_def)

lemma rd16_blit [simp]:
  "off + length bs \<le> length p \<Longrightarrow> a + 2 \<le> off \<or> off + length bs \<le> a \<Longrightarrow> a + 2 \<le> length p \<Longrightarrow>
   rd16 (blit p off bs) a = rd16 p a"
  by (auto simp: rd16_def buf_simps)

lemma slotn_w16 [simp]:
  "off + 2 \<le> 48 \<Longrightarrow> 52 + 4 * i \<le> length p \<Longrightarrow> slotn (w16 p off v) i = slotn p i"
  by (simp add: slotn_def)

lemma slotn_blit [simp]:
  "52 + 4 * i \<le> off \<Longrightarrow> off + length bs \<le> length p \<Longrightarrow> slotn (blit p off bs) i = slotn p i"
  by (simp add: slotn_def)

lemma slotn_wslot [simp]:
  assumes "52 + 4 * i \<le> length p" and "52 + 4 * j \<le> length p"
  shows "slotn (wslot p i off len) j =
    (if j = i then (off mod 65536, len mod 65536) else slotn p j)"
proof (cases "j = i")
  case False
  then have "4 * j + 4 \<le> 4 * i \<or> 4 * i + 4 \<le> 4 * j" by linarith
  with False assms show ?thesis by (auto simp: slotn_def wslot_def)
qed (use assms in \<open>simp add: slotn_def wslot_def\<close>)

lemma rd16_wslot [simp]:
  "52 + 4 * i \<le> length p \<Longrightarrow> a + 2 \<le> 48 \<Longrightarrow> rd16 (wslot p i off len) a = rd16 p a"
  by (simp add: wslot_def)

lemma slice_wslot [simp]:
  "52 + 4 * i \<le> length p \<Longrightarrow> a + m \<le> 48 + 4 * i \<or> 52 + 4 * i \<le> a \<Longrightarrow> a + m \<le> length p \<Longrightarrow>
   slice (wslot p i off len) a m = slice p a m"
  by (auto simp: wslot_def)

lemma slotn_bound: "52 + 4 * i \<le> length p \<Longrightarrow> fst (slotn p i) < 65536 \<and> snd (slotn p i) < 65536"
  by (simp add: slotn_def rd16_bound)

lemma header_read [simp]:
  assumes "length p = 16384"
  shows "SlotCount p = Some (scount p)" and "Lower p = Some (lowern p)"
    and "Upper p = Some (uppern p)" and "FreeSpace p = Some (int (uppern p) - int (lowern p))"
  using assms by (simp_all add: SlotCount_def Lower_def Upper_def FreeSpace_def U16_rd16)

lemma slot_read [simp]: "52 + 4 * i \<le> length p \<Longrightarrow> slot p i = Some (slotn p i)"
  by (simp add: slot_def slotOff_def U16_rd16 slotn_def algebra_simps)

lemma slotOff_eq: "slotOff i = 48 + 4 * i"
  by (simp add: slotOff_def)

lemma setSlot_write [simp]: "52 + 4 * i \<le> length p \<Longrightarrow> setSlot p i off len = Some (wslot p i off len)"
  by (simp add: setSlot_def slotOff_def PutU16_w16 wslot_def algebra_simps)

section \<open>Invariant and abstraction\<close>

definition page_inv :: "page \<Rightarrow> bool" where
  "page_inv p \<longleftrightarrow> length p = 16384 \<and> lowern p = 48 + 4 * scount p \<and>
     lowern p \<le> uppern p \<and> uppern p \<le> 16384 \<and>
     (\<forall>i < scount p. slotn p i \<noteq> (0, 0) \<longrightarrow>
        uppern p \<le> fst (slotn p i) \<and> fst (slotn p i) + snd (slotn p i) \<le> 16384) \<and>
     (\<forall>i < scount p. \<forall>j < scount p. i \<noteq> j \<longrightarrow> slotn p i \<noteq> (0, 0) \<longrightarrow> slotn p j \<noteq> (0, 0) \<longrightarrow>
        fst (slotn p i) + snd (slotn p i) \<le> fst (slotn p j) \<or>
        fst (slotn p j) + snd (slotn p j) \<le> fst (slotn p i))"

definition page_map :: "page \<Rightarrow> nat \<Rightarrow> bytes option" where
  "page_map p i = (if i < scount p \<and> slotn p i \<noteq> (0, 0)
     then Some (slice p (fst (slotn p i)) (snd (slotn p i))) else None)"

text \<open>Bytes taken by the records of the first \<open>i\<close> slots; a deleted slot has length 0.\<close>

definition cum :: "page \<Rightarrow> nat \<Rightarrow> nat" where
  "cum p i = (\<Sum>k<i. snd (slotn p k))"

abbreviation live_bytes :: "page \<Rightarrow> nat" where
  "live_bytes p \<equiv> cum p (scount p)"

lemma page_inv_length: "page_inv p \<Longrightarrow> length p = 16384"
  by (simp add: page_inv_def)

lemma page_inv_lower: "page_inv p \<Longrightarrow> lowern p = 48 + 4 * scount p"
  by (simp add: page_inv_def)

lemma page_inv_bounds: "page_inv p \<Longrightarrow> 48 + 4 * scount p \<le> uppern p \<and> uppern p \<le> 16384"
  by (simp add: page_inv_def)

lemma page_inv_slot:
  "page_inv p \<Longrightarrow> i < scount p \<Longrightarrow> slotn p i \<noteq> (0, 0) \<Longrightarrow>
   uppern p \<le> fst (slotn p i) \<and> fst (slotn p i) + snd (slotn p i) \<le> 16384"
  by (simp add: page_inv_def)

lemma page_inv_disjoint:
  "page_inv p \<Longrightarrow> i < scount p \<Longrightarrow> j < scount p \<Longrightarrow> i \<noteq> j \<Longrightarrow> slotn p i \<noteq> (0, 0) \<Longrightarrow>
   slotn p j \<noteq> (0, 0) \<Longrightarrow> fst (slotn p i) + snd (slotn p i) \<le> fst (slotn p j) \<or>
     fst (slotn p j) + snd (slotn p j) \<le> fst (slotn p i)"
  by (simp add: page_inv_def)

lemma cum_Suc [simp]: "cum p (Suc i) = cum p i + snd (slotn p i)"
  by (simp add: cum_def)

lemma cum_0 [simp]: "cum p 0 = 0"
  by (simp add: cum_def)

lemma cum_mono: "i \<le> j \<Longrightarrow> cum p i \<le> cum p j"
  by (auto simp: cum_def intro: sum_mono2)

lemma live_bytes_bound:
  assumes inv: "page_inv p"
  shows "live_bytes p \<le> 16384 - uppern p"
proof -
  define A where "A i = {fst (slotn p i)..<fst (slotn p i) + snd (slotn p i)}" for i
  have disj: "\<forall>i\<in>{..<scount p}. \<forall>j\<in>{..<scount p}. i \<noteq> j \<longrightarrow> A i \<inter> A j = {}"
    using page_inv_disjoint [OF inv] by (force simp: A_def)
  have sub: "(\<Union>i\<in>{..<scount p}. A i) \<subseteq> {uppern p..<16384}"
    using page_inv_slot [OF inv] by (force simp: A_def)
  have "live_bytes p = (\<Sum>i\<in>{..<scount p}. card (A i))"
    by (simp add: cum_def A_def)
  also have "\<dots> = card (\<Union>i\<in>{..<scount p}. A i)"
    using disj by (subst card_UN_disjoint) (auto simp: A_def)
  also have "\<dots> \<le> card {uppern p..<16384}"
    using sub by (intro card_mono) auto
  finally show ?thesis by simp
qed

section \<open>Compaction\<close>

text \<open>What the loop of \<open>Compact\<close> has established after \<open>i\<close> slots of the page \<open>p0\<close>.\<close>

definition comp_inv :: "page \<Rightarrow> nat \<Rightarrow> page \<Rightarrow> bytes \<Rightarrow> bool" where
  "comp_inv p0 i p tmp \<longleftrightarrow> length p = 16384 \<and> length tmp = 16384 \<and>
     (\<forall>j < scount p0. slotn p j =
        (if j < i \<and> slotn p0 j \<noteq> (0, 0) then (16384 - cum p0 (Suc j), snd (slotn p0 j)) else slotn p0 j)) \<and>
     slice p 0 48 = slice p0 0 48 \<and>
     (\<forall>a m. 48 + 4 * scount p0 \<le> a \<longrightarrow> a + m \<le> 16384 \<longrightarrow> slice p a m = slice p0 a m) \<and>
     (\<forall>j < i. slice tmp (16384 - cum p0 (Suc j)) (snd (slotn p0 j)) =
        slice p0 (fst (slotn p0 j)) (snd (slotn p0 j)))"

lemma cum_le_live:
  assumes "page_inv p" and "i < scount p"
  shows "cum p (Suc i) \<le> 16384 - uppern p"
  using live_bytes_bound [OF assms(1)] cum_mono [of "Suc i" "scount p" p] assms(2) by simp

lemma compact_step:
  assumes inv: "page_inv p0" and i: "i < scount p0" and ci: "comp_inv p0 i p tmp"
    and live: "slotn p0 i \<noteq> (0, 0)"
  shows "comp_inv p0 (Suc i) (wslot p i (16384 - cum p0 (Suc i)) (snd (slotn p0 i)))
    (blit tmp (16384 - cum p0 (Suc i)) (slice p0 (fst (slotn p0 i)) (snd (slotn p0 i))))"
    (is "comp_inv _ _ ?p ?tmp")
proof -
  let ?o = "fst (slotn p0 i)" and ?l = "snd (slotn p0 i)" and ?u = "16384 - cum p0 (Suc i)"
  have lp0: "length p0 = 16384" using inv by (rule page_inv_length)
  have room: "48 + 4 * scount p0 \<le> ?u" and cs: "cum p0 (Suc i) \<le> 16384"
    using page_inv_bounds [OF inv] cum_le_live [OF inv i] by linarith+
  have ol: "?o + ?l \<le> 16384" using page_inv_slot [OF inv i live] by simp
  have lb: "length (slice p0 ?o ?l) = ?l" using ol lp0 by simp
  have fit: "?u + ?l \<le> 16384" using cs by simp
  have len: "length p = 16384" "length tmp = 16384" using ci by (simp_all add: comp_inv_def)
  have i52: "52 + 4 * j \<le> 16384" if "j < scount p0" for j
    using that page_inv_bounds [OF inv] by linarith
  have small: "?u mod 65536 = ?u" "?l mod 65536 = ?l" using fit by simp_all
  have slots: "slotn ?p j = (if j < Suc i \<and> slotn p0 j \<noteq> (0, 0)
      then (16384 - cum p0 (Suc j), snd (slotn p0 j)) else slotn p0 j)" if "j < scount p0" for j
  proof (cases "j = i")
    case True
    then show ?thesis using live len i52 [OF i] small by simp
  next
    case False
    then have "j < Suc i \<longleftrightarrow> j < i" by auto
    moreover have "slotn p j = (if j < i \<and> slotn p0 j \<noteq> (0, 0)
      then (16384 - cum p0 (Suc j), snd (slotn p0 j)) else slotn p0 j)"
      using ci that by (simp add: comp_inv_def)
    ultimately show ?thesis using False len i52 [OF i] i52 [OF that] by simp
  qed
  have copied: "slice ?tmp (16384 - cum p0 (Suc j)) (snd (slotn p0 j)) =
      slice p0 (fst (slotn p0 j)) (snd (slotn p0 j))" if "j < Suc i" for j
  proof (cases "j = i")
    case True
    then show ?thesis using lb fit len by (simp add: slice_blit_same)
  next
    case False
    with that have ji: "j < i" by simp
    have "cum p0 (Suc j) \<le> cum p0 i" using ji by (intro cum_mono) simp
    moreover have "snd (slotn p0 j) \<le> cum p0 (Suc j)" by simp
    moreover have "slice tmp (16384 - cum p0 (Suc j)) (snd (slotn p0 j)) =
        slice p0 (fst (slotn p0 j)) (snd (slotn p0 j))"
      using ci ji by (simp add: comp_inv_def)
    ultimately show ?thesis
      using cs lb len fit by (subst slice_blit_above) auto
  qed
  show ?thesis
    using ci slots copied len i52 [OF i] lb fit i unfolding comp_inv_def by simp
qed

lemma compactLoop_spec:
  assumes inv: "page_inv p0" and "i \<le> scount p0" and "comp_inv p0 i p tmp"
  shows "\<exists>p' tmp'. compactLoop [i..<scount p0] p tmp (16384 - cum p0 i) =
      Some (p', tmp', 16384 - live_bytes p0) \<and> comp_inv p0 (scount p0) p' tmp'"
  using assms(2,3)
proof (induction "scount p0 - i" arbitrary: i p tmp)
  case 0
  then show ?case by simp
next
  case (Suc d)
  then have i: "i < scount p0" by simp
  have lp0: "length p0 = 16384" using inv by (rule page_inv_length)
  have len: "length p = 16384" "length tmp = 16384" using Suc.prems by (simp_all add: comp_inv_def)
  have i52: "52 + 4 * i \<le> 16384" using i page_inv_bounds [OF inv] by linarith
  have sl: "slotn p i = slotn p0 i" using Suc.prems i by (simp add: comp_inv_def)
  have upt: "[i..<scount p0] = i # [Suc i..<scount p0]" using i by (rule upt_conv_Cons)
  obtain off ln where s0: "slotn p0 i = (off, ln)" by fastforce
  show ?case
  proof (cases "slotn p0 i = (0, 0)")
    case True
    have "comp_inv p0 (Suc i) p tmp"
      using Suc.prems(2) True by (auto simp: comp_inv_def less_Suc_eq)
    then have "\<exists>p' tmp'. compactLoop [Suc i..<scount p0] p tmp (16384 - cum p0 (Suc i)) =
      Some (p', tmp', 16384 - live_bytes p0) \<and> comp_inv p0 (scount p0) p' tmp'"
      using i Suc.hyps(2) by (intro Suc.hyps(1)) simp_all
    then show ?thesis using True i52 len sl by (simp add: upt)
  next
    case False
    have cs: "cum p0 (Suc i) \<le> 16384" and room: "48 + 4 * scount p0 \<le> 16384 - cum p0 (Suc i)"
      using page_inv_bounds [OF inv] cum_le_live [OF inv i] by linarith+
    have ol: "off + ln \<le> 16384" "uppern p0 \<le> off" using page_inv_slot [OF inv i False] s0 by simp_all
    have src: "slice p off ln = slice p0 off ln"
      using Suc.prems(2) ol page_inv_bounds [OF inv] by (simp add: comp_inv_def)
    have step: "comp_inv p0 (Suc i) (wslot p i (16384 - cum p0 (Suc i)) ln)
        (blit tmp (16384 - cum p0 (Suc i)) (slice p0 off ln))"
      using compact_step [OF inv i Suc.prems(2) False] s0 by simp
    then have rest: "\<exists>p' tmp'. compactLoop [Suc i..<scount p0] (wslot p i (16384 - cum p0 (Suc i)) ln)
        (blit tmp (16384 - cum p0 (Suc i)) (slice p0 off ln)) (16384 - cum p0 (Suc i)) =
      Some (p', tmp', 16384 - live_bytes p0) \<and> comp_inv p0 (scount p0) p' tmp'"
      using i Suc.hyps(2) by (intro Suc.hyps(1)) simp_all
    have arith: "\<not> 16384 - cum p0 i < ln" "16384 - cum p0 i - ln = 16384 - cum p0 (Suc i)"
      "16384 - cum p0 (Suc i) + ln \<le> 16384"
      using cs s0 by simp_all
    have "\<not> (ln = 0 \<and> off = 0)" using False s0 by auto
    with rest show ?thesis
      using i52 len sl s0 ol src arith lp0
      by (auto simp: upt goSlice_def copyRange_def)
  qed
qed

text \<open>Header bytes the slot operations leave alone: everything but count, lower and upper.\<close>

definition same_header :: "page \<Rightarrow> page \<Rightarrow> bool" where
  "same_header p q \<longleftrightarrow> slice p 0 32 = slice q 0 32 \<and> slice p 38 10 = slice q 38 10"

lemma same_header_trans: "same_header p q \<Longrightarrow> same_header q r \<Longrightarrow> same_header p r"
  by (simp add: same_header_def)

lemma same_header_refl [simp]: "same_header p p"
  by (simp add: same_header_def)

lemma rd16_header:
  assumes "slice p 0 48 = slice q 0 48" and "off + 2 \<le> 48"
  shows "rd16 p off = rd16 q off"
  using assms slice_slice [of off 2 48 p 0] slice_slice [of off 2 48 q 0] by (simp add: rd16_def)

lemma same_headerI: "slice p 0 48 = slice q 0 48 \<Longrightarrow> same_header p q"
  using slice_slice [of 0 32 48 p 0] slice_slice [of 0 32 48 q 0]
    slice_slice [of 38 10 48 p 0] slice_slice [of 38 10 48 q 0]
  by (simp add: same_header_def)

lemma same_header_w16 [simp]:
  "length p = 16384 \<Longrightarrow> 32 \<le> off \<Longrightarrow> off \<le> 36 \<Longrightarrow> same_header (w16 p off v) q = same_header p q"
  by (simp add: same_header_def)

lemma same_header_wslot [simp]:
  "52 + 4 * i \<le> length p \<Longrightarrow> same_header (wslot p i off len) q = same_header p q"
  by (simp add: same_header_def)

lemma same_header_blit [simp]:
  "48 \<le> off \<Longrightarrow> off + length bs \<le> length p \<Longrightarrow> same_header (blit p off bs) q = same_header p q"
  by (simp add: same_header_def slice_blit_below)

lemma slice_drop: "slice (drop u t) a m = slice t (u + a) m"
  by (simp add: slice_def add.commute)

lemma compact_result:
  assumes inv: "page_inv p" and ci: "comp_inv p (scount p) q tmp"
  defines "u \<equiv> 16384 - live_bytes p"
  defines "r \<equiv> w16 (w16 (blit q u (drop u tmp)) 36 u) 34 (48 + 4 * scount p)"
  shows "length r = 16384" and "scount r = scount p" and "lowern r = 48 + 4 * scount p"
    and "uppern r = u" and "same_header r p"
    and "\<And>j. j < scount p \<Longrightarrow> slotn r j =
      (if slotn p j \<noteq> (0, 0) then (16384 - cum p (Suc j), snd (slotn p j)) else (0, 0))"
    and "\<And>j. j < scount p \<Longrightarrow>
      slice r (16384 - cum p (Suc j)) (snd (slotn p j)) = slice p (fst (slotn p j)) (snd (slotn p j))"
proof -
  have len: "length q = 16384" "length tmp = 16384" and hdr: "slice q 0 48 = slice p 0 48"
    using ci by (simp_all add: comp_inv_def)
  have u: "48 + 4 * scount p \<le> u" "u \<le> 16384" "live_bytes p \<le> 16384"
    using page_inv_bounds [OF inv] live_bytes_bound [OF inv] by (auto simp: u_def)
  have b: "u + length (drop u tmp) = 16384" using len u by simp
  show "length r = 16384" using len u b by (simp add: r_def)
  show "scount r = scount p" using len u b rd16_header [OF hdr, of 32] by (simp add: r_def)
  show "lowern r = 48 + 4 * scount p" using len u b by (simp add: r_def)
  show "uppern r = u" using len u b by (simp add: r_def)
  show "same_header r p" using len u b same_headerI [OF hdr] by (simp add: r_def)
  fix j assume j: "j < scount p"
  have q: "slotn q j = (if slotn p j \<noteq> (0, 0) then (16384 - cum p (Suc j), snd (slotn p j)) else (0, 0))"
    using ci j by (simp add: comp_inv_def)
  have "52 + 4 * j \<le> u" using j u(1) by linarith
  with q len u b show "slotn r j =
      (if slotn p j \<noteq> (0, 0) then (16384 - cum p (Suc j), snd (slotn p j)) else (0, 0))"
    by (simp add: r_def)
  have cm: "cum p (Suc j) \<le> live_bytes p" using j by (intro cum_mono) simp
  then have a: "u \<le> 16384 - cum p (Suc j)" "16384 - cum p (Suc j) + snd (slotn p j) \<le> 16384"
    using u(3) by (auto simp: u_def)
  have "slice r (16384 - cum p (Suc j)) (snd (slotn p j)) = slice tmp (16384 - cum p (Suc j)) (snd (slotn p j))"
    using len u b a by (simp add: r_def slice_blit_within slice_drop)
  also have "\<dots> = slice p (fst (slotn p j)) (snd (slotn p j))"
    using ci j by (simp add: comp_inv_def)
  finally show "slice r (16384 - cum p (Suc j)) (snd (slotn p j)) = slice p (fst (slotn p j)) (snd (slotn p j))" .
qed

lemma compacted_page_inv:
  assumes inv: "page_inv p" and len: "length r = 16384" and sc: "scount r = scount p"
    and lo: "lowern r = 48 + 4 * scount p" and up: "uppern r = 16384 - live_bytes p"
    and sl: "\<And>j. j < scount p \<Longrightarrow> slotn r j =
      (if slotn p j \<noteq> (0, 0) then (16384 - cum p (Suc j), snd (slotn p j)) else (0, 0))"
  shows "page_inv r"
proof -
  have u: "48 + 4 * scount p \<le> 16384 - live_bytes p" "live_bytes p \<le> 16384"
    using page_inv_bounds [OF inv] live_bytes_bound [OF inv] by linarith+
  have cm: "cum p (Suc i) \<le> cum p (Suc j)" if "i \<le> j" for i j
    using that by (intro cum_mono) simp
  have cl: "cum p (Suc i) \<le> live_bytes p" if "i < scount p" for i
    using that by (intro cum_mono) simp
  have sep: "16384 - cum p (Suc j) + snd (slotn p j) \<le> 16384 - cum p (Suc i)"
    if "i < j" "j < scount p" for i j
    using cum_mono [of "Suc i" j p] that cl [of j] u(2) by (simp del: cum_Suc add: cum_Suc [of p j])
  show ?thesis
    unfolding page_inv_def sc
  proof (intro conjI allI impI)
    fix i j
    assume "i < scount p" "j < scount p" "i \<noteq> j" "slotn r i \<noteq> (0, 0)" "slotn r j \<noteq> (0, 0)"
    then show "fst (slotn r i) + snd (slotn r i) \<le> fst (slotn r j) \<or>
      fst (slotn r j) + snd (slotn r j) \<le> fst (slotn r i)"
      using sep [of i j] sep [of j i] sl [of i] sl [of j]
      by (cases i j rule: linorder_cases) (auto split: if_splits simp del: cum_Suc)
  next
    fix i
    assume i: "i < scount p" and "slotn r i \<noteq> (0, 0)"
    then have ri: "slotn r i = (16384 - cum p (Suc i), snd (slotn p i))"
      using sl [OF i] by (simp del: cum_Suc split: if_splits)
    show "uppern r \<le> fst (slotn r i)" using ri cl [OF i] up by (simp del: cum_Suc)
    show "fst (slotn r i) + snd (slotn r i) \<le> 16384" using ri cl [OF i] u(2) by simp
  qed (use len lo up u in simp_all)
qed

lemma Compact_spec:
  assumes inv: "page_inv p"
  shows "\<exists>p'. Compact p = Some p' \<and> page_inv p' \<and> page_map p' = page_map p \<and>
    scount p' = scount p \<and> uppern p' = 16384 - live_bytes p \<and>
    (\<forall>j < scount p. snd (slotn p' j) = snd (slotn p j) \<and> (slotn p' j = (0, 0) \<longleftrightarrow> slotn p j = (0, 0))) \<and>
    same_header p' p"
proof -
  have len: "length p = 16384" using inv by (rule page_inv_length)
  have "comp_inv p 0 p (replicate 16384 0)" using len by (simp add: comp_inv_def)
  from compactLoop_spec [OF inv _ this] obtain q tmp where
    loop: "compactLoop [0..<scount p] p (replicate 16384 0) 16384 = Some (q, tmp, 16384 - live_bytes p)"
    and ci: "comp_inv p (scount p) q tmp" by auto
  define u where "u = 16384 - live_bytes p"
  define r where "r = w16 (w16 (blit q u (drop u tmp)) 36 u) 34 (48 + 4 * scount p)"
  note res = compact_result [OF inv ci, folded u_def, folded r_def]
  have lens: "length q = 16384" "length tmp = 16384" using ci by (simp_all add: comp_inv_def)
  have u16: "u \<le> 16384" by (simp add: u_def)
  have "Compact p = Some r"
    using len loop lens u16
    by (simp add: Compact_def u_def [symmetric] copyAt_def PutU16_w16 r_def slotOff_eq
      del: of_nat_add of_nat_mult)
  moreover have "page_inv r"
    using compacted_page_inv [OF inv res(1,2,3)] res(4,6) by (simp add: u_def)
  moreover have live: "slotn r j = (0, 0) \<longleftrightarrow> slotn p j = (0, 0)" if "j < scount p" for j
  proof -
    have "16384 - cum p (Suc j) \<noteq> 0"
      using page_inv_bounds [OF inv] cum_le_live [OF inv that] by linarith
    with res(6) [OF that] show ?thesis by (auto simp del: cum_Suc)
  qed
  moreover have "page_map r j = page_map p j" for j
    using res(6,7) [of j] live [of j] by (auto simp: page_map_def res(2) simp del: cum_Suc)
  moreover have "snd (slotn r j) = snd (slotn p j)" if "j < scount p" for j
    using res(6) [OF that] by (simp del: cum_Suc)
  ultimately show ?thesis using res(2,4,5) by (auto simp: u_def fun_eq_iff)
qed

section \<open>Placing a record\<close>

lemma findHole_eq:
  "(\<forall>i \<in> set is. 52 + 4 * i \<le> length p) \<Longrightarrow>
   findHole p is = Some (List.find (\<lambda>i. slotn p i = (0, 0)) is)"
  by (induction "is") (auto split: prod.splits)

definition first_hole :: "page \<Rightarrow> nat option" where
  "first_hole p = List.find (\<lambda>i. slotn p i = (0, 0)) [0..<scount p]"

lemma slot_in_page: "page_inv p \<Longrightarrow> i < scount p \<Longrightarrow> 52 + 4 * i \<le> 16384"
  using page_inv_bounds [of p] by linarith

lemma findHole_page: "page_inv p \<Longrightarrow> findHole p [0..<scount p] = Some (first_hole p)"
  by (simp add: findHole_eq first_hole_def slot_in_page page_inv_length)

lemma first_hole_Some: "first_hole p = Some i \<Longrightarrow> i < scount p \<and> slotn p i = (0, 0)"
  unfolding first_hole_def find_Some_iff by force

lemma first_hole_None: "first_hole p = None \<Longrightarrow> i < scount p \<Longrightarrow> slotn p i \<noteq> (0, 0)"
  unfolding first_hole_def find_None_iff by force

text \<open>A page \<open>r\<close> that is \<open>p\<close> with one record added below its record area, at slot \<open>idx\<close>.\<close>

definition placed :: "page \<Rightarrow> nat \<Rightarrow> bytes \<Rightarrow> page \<Rightarrow> bool" where
  "placed p idx rcd r \<longleftrightarrow> length r = 16384 \<and> scount r = max (scount p) (Suc idx) \<and>
     lowern r = 48 + 4 * scount r \<and> uppern r + length rcd = uppern p \<and> lowern r \<le> uppern r \<and>
     slotn r idx = (uppern r, length rcd) \<and>
     (\<forall>j < scount p. j \<noteq> idx \<longrightarrow> slotn r j = slotn p j) \<and>
     slice r (uppern r) (length rcd) = rcd \<and>
     (\<forall>a k. uppern p \<le> a \<longrightarrow> a + k \<le> 16384 \<longrightarrow> slice r a k = slice p a k) \<and>
     same_header r p"

definition free_slot :: "page \<Rightarrow> nat \<Rightarrow> bool" where
  "free_slot p idx \<longleftrightarrow> idx = scount p \<or> idx < scount p \<and> slotn p idx = (0, 0)"

lemma placed_inv:
  assumes inv: "page_inv p" and pl: "placed p idx rcd r" and fr: "free_slot p idx"
  shows "page_inv r"
proof -
  have old: "slotn r j = slotn p j \<and> j < scount p" if "j < scount r" "j \<noteq> idx" for j
    using that pl fr by (auto simp: placed_def free_slot_def)
  have up: "uppern r \<le> uppern p" "uppern p \<le> 16384" "uppern r + length rcd = uppern p"
    using pl page_inv_bounds [OF inv] by (auto simp: placed_def)
  have new: "slotn r idx = (uppern r, length rcd)" using pl by (simp add: placed_def)
  have area: "uppern p \<le> fst (slotn r j)" "fst (slotn r j) + snd (slotn r j) \<le> 16384"
    if "j < scount r" "j \<noteq> idx" "slotn r j \<noteq> (0, 0)" for j
    using page_inv_slot [OF inv, of j] old [OF that(1,2)] that(3) by auto
  show ?thesis
    unfolding page_inv_def
  proof (intro conjI allI impI)
    fix i j
    assume ij: "i < scount r" "j < scount r" "i \<noteq> j" "slotn r i \<noteq> (0, 0)" "slotn r j \<noteq> (0, 0)"
    show "fst (slotn r i) + snd (slotn r i) \<le> fst (slotn r j) \<or>
      fst (slotn r j) + snd (slotn r j) \<le> fst (slotn r i)"
    proof (cases "i = idx \<or> j = idx")
      case True
      then show ?thesis using ij area [of i] area [of j] new up by auto
    next
      case False
      then show ?thesis using ij old [of i] old [of j] page_inv_disjoint [OF inv, of i j] by auto
    qed
  next
    fix i
    assume i: "i < scount r" "slotn r i \<noteq> (0, 0)"
    show "uppern r \<le> fst (slotn r i)" using i area [of i] new up by (cases "i = idx") auto
    show "fst (slotn r i) + snd (slotn r i) \<le> 16384" using i area [of i] new up by (cases "i = idx") auto
  qed (use pl up in \<open>auto simp: placed_def\<close>)
qed

lemma placed_map:
  assumes inv: "page_inv p" and pl: "placed p idx rcd r" and fr: "free_slot p idx"
  shows "page_map r = (page_map p)(idx \<mapsto> rcd)"
proof
  fix j
  have up: "48 \<le> uppern r" using pl by (auto simp: placed_def)
  show "page_map r j = ((page_map p)(idx \<mapsto> rcd)) j"
  proof (cases "j = idx")
    case True
    then show ?thesis using pl up by (auto simp: placed_def page_map_def)
  next
    case False
    then have lt: "j < scount r \<longleftrightarrow> j < scount p"
      using pl fr by (auto simp: placed_def free_slot_def)
    have "slice r (fst (slotn p j)) (snd (slotn p j)) = slice p (fst (slotn p j)) (snd (slotn p j))"
      if "j < scount p" "slotn p j \<noteq> (0, 0)"
      using page_inv_slot [OF inv that] pl by (simp add: placed_def)
    with False lt show ?thesis using pl by (auto simp: placed_def page_map_def)
  qed
qed

lemma placed_live_bytes:
  assumes pl: "placed p idx rcd r" and fr: "free_slot p idx"
  shows "live_bytes r = live_bytes p + length rcd"
proof -
  have old: "snd (slotn r j) = snd (slotn p j)" if "j < scount p" "j \<noteq> idx" for j
    using pl that by (simp add: placed_def)
  have new: "snd (slotn r idx) = length rcd" using pl by (simp add: placed_def)
  show ?thesis
  proof (cases "idx = scount p")
    case True
    then have "scount r = Suc (scount p)" using pl by (simp add: placed_def)
    moreover have "cum r (scount p) = cum p (scount p)"
      unfolding cum_def using old True by (intro sum.cong) auto
    ultimately show ?thesis using new True by simp
  next
    case False
    then have idx: "idx < scount p" "snd (slotn p idx) = 0" using fr by (auto simp: free_slot_def)
    then have sc: "scount r = scount p" using pl by (simp add: placed_def max_def)
    have "live_bytes r = snd (slotn r idx) + (\<Sum>k \<in> {..<scount p} - {idx}. snd (slotn r k))"
      unfolding cum_def sc using idx by (subst sum.remove [of _ idx]) auto
    also have "(\<Sum>k \<in> {..<scount p} - {idx}. snd (slotn r k)) = (\<Sum>k \<in> {..<scount p} - {idx}. snd (slotn p k))"
      using old by (intro sum.cong) auto
    also have "\<dots> = live_bytes p"
      unfolding cum_def using idx by (subst (2) sum.remove [of _ idx]) auto
    finally show ?thesis using new by simp
  qed
qed

text \<open>Room for the record and, when the slot is new, for its directory entry.\<close>

definition need :: "page \<Rightarrow> nat \<Rightarrow> bytes \<Rightarrow> nat" where
  "need p idx rcd = length rcd + (if idx = scount p then 4 else 0)"

definition target :: "page \<Rightarrow> nat" where
  "target p = (case first_hole p of None \<Rightarrow> scount p | Some i \<Rightarrow> i)"

lemma free_slot_target: "free_slot p (target p)"
  by (auto simp: free_slot_def target_def first_hole_Some split: option.splits)

lemma placeRecord_spec:
  assumes inv: "page_inv p" and room: "48 + 4 * scount p + need p (target p) rcd \<le> uppern p"
  shows "\<exists>r. placeRecord p (scount p) (first_hole p) rcd = Some (r, Inr (target p)) \<and>
    placed p (target p) rcd r"
proof -
  define u where "u = uppern p - length rcd"
  define q where "q = w16 (blit p u rcd) 36 u"
  have len: "length p = 16384" using inv by (rule page_inv_length)
  have up: "u + length rcd = uppern p" "uppern p \<le> 16384" "48 + 4 * scount p \<le> u"
    using room page_inv_bounds [OF inv] by (auto simp: u_def need_def)
  have q: "length q = 16384" "scount q = scount p" "uppern q = u" "lowern q = 48 + 4 * scount p"
    "slice q u (length rcd) = rcd" "same_header q p"
    using len up page_inv_lower [OF inv] by (simp_all add: q_def slice_blit_same)
  have qs: "slotn q j = slotn p j" if "j < scount p" for j
    using that len up by (simp add: q_def)
  have qa: "slice q a k = slice p a k" if "uppern p \<le> a" "a + k \<le> 16384" for a k
    using that len up by (simp add: q_def slice_blit_above)
  have start: "placeRecord p (scount p) reuse rcd = (case reuse of
       Some idx \<Rightarrow> do { p \<leftarrow> setSlot q idx u (length rcd); Some (p, Inr idx) }
     | None \<Rightarrow> do {
         x \<leftarrow> setSlot q (scount p) u (length rcd);
         y \<leftarrow> PutU16 x offSlotCount (word_of_nat (scount p + 1));
         z \<leftarrow> PutU16 y offLower (word_of_nat (slotOff (scount p + 1)));
         Some (z, Inr (scount p))
       })" for reuse
    using len up
    by (simp add: placeRecord_def copyRange_def u_def [symmetric] PutU16_w16 q_def [symmetric]
        cong: option.case_cong)
  show ?thesis
  proof (cases "first_hole p")
    case None
    have s52: "52 + 4 * scount p \<le> u" using room None up by (simp add: need_def target_def)
    define r where "r = w16 (w16 (wslot q (scount p) u (length rcd)) 32 (scount p + 1)) 34 (48 + 4 * (scount p + 1))"
    have "placeRecord p (scount p) (first_hole p) rcd = Some (r, Inr (scount p))"
      using None start q s52 up
      by (simp add: PutU16_w16 slotOff_eq r_def del: of_nat_add of_nat_mult of_nat_Suc)
    moreover have "placed p (scount p) rcd r"
      unfolding placed_def using q qs qa s52 up by (simp add: r_def)
    ultimately show ?thesis using None by (auto simp: target_def)
  next
    case (Some idx)
    have idx: "idx < scount p" "slotn p idx = (0, 0)" using first_hole_Some [OF Some] by auto
    have i52: "52 + 4 * idx \<le> u" using idx up by linarith
    define r where "r = wslot q idx u (length rcd)"
    have "placeRecord p (scount p) (first_hole p) rcd = Some (r, Inr idx)"
      using Some start q i52 up by (simp add: r_def)
    moreover have "placed p idx rcd r"
      unfolding placed_def using q qs qa i52 up idx by (auto simp: r_def max_def)
    ultimately show ?thesis using Some by (auto simp: target_def)
  qed
qed

end
