(* ===== verification/PageOps.thy ===== *)
theory PageOps
  imports PageInv
begin

text \<open>
  What each page operation does, on every branch: the functional specification of
  \<open>Insert\<close>, \<open>Append\<close>, \<open>Get\<close>, \<open>Delete\<close>, \<open>Update\<close> and
  \<open>Compact\<close> over the abstraction \<open>page_map\<close>, and what \<open>Validate\<close> guarantees.
\<close>

section \<open>A fresh page\<close>

lemma pageNew_spec:
  "\<exists>p. pageNew pid typ = Some p \<and> page_inv p \<and> page_map p = Map.empty \<and> scount p = 0 \<and>
     uppern p = 16384 \<and> pageID p = Some pid \<and> pageType p = Some typ \<and>
     pageVersion p = Some CurrentFormatVersion \<and> HasMagic p 0 \<and>
     TxnMeta p = Some 0 \<and> pageLSN p = Some 0"
proof -
  have m: "length MagicBytes = 4" by (simp add: MagicBytes_def)
  show ?thesis
    unfolding pageNew_def initHeader_def PutMagic_def
    by (simp add: go_defs m buf_simps page_inv_def page_map_def rd16_def fun_eq_iff
        pageID_def pageType_def pageVersion_def TxnMeta_def pageLSN_def HasMagic_def nth_blit)
      (simp add: MagicBytes_def)
qed

section \<open>Get\<close>

lemma GetView_spec:
  assumes inv: "page_inv p"
  shows "GetView p s = Some (case page_map p (unat s) of
      Some rcd \<Rightarrow> Inr rcd
    | None \<Rightarrow> Inl (New NotFound ''page.Get''
        (if unat s \<ge> scount p then ''slot out of range'' else ''slot deleted'')))"
proof (cases "unat s < scount p")
  case True
  have len: "length p = 16384" using inv by (rule page_inv_length)
  have i52: "52 + 4 * unat s \<le> 16384" using slot_in_page [OF inv True] .
  obtain off ln where sl: "slotn p (unat s) = (off, ln)" by fastforce
  show ?thesis
  proof (cases "slotn p (unat s) = (0, 0)")
    case del: False
    then show ?thesis
      using True len i52 page_inv_slot [OF inv True] sl
      by (auto simp: GetView_def page_map_def goSlice_def)
  qed (use True len i52 in \<open>simp add: GetView_def page_map_def\<close>)
next
  case False
  then show ?thesis using page_inv_length [OF inv] by (simp add: GetView_def page_map_def)
qed

lemma pageGet_eq_GetView [simp]: "pageGet p s = GetView p s"
  by (auto simp: pageGet_def gbind_def split: option.splits sum.splits)

section \<open>Insert and Append\<close>

lemma first_hole_cong:
  assumes "scount q = scount p" and "\<And>j. j < scount p \<Longrightarrow> slotn q j = (0, 0) \<longleftrightarrow> slotn p j = (0, 0)"
  shows "first_hole q = first_hole p"
  unfolding first_hole_def assms(1) using assms(2) by (intro find_cong) auto

definition fits :: "page \<Rightarrow> bytes \<Rightarrow> bool" where
  "fits p rcd \<longleftrightarrow> 48 + 4 * scount p + need p (target p) rcd + live_bytes p \<le> 16384"

definition inserted :: "page \<Rightarrow> nat \<Rightarrow> bytes \<Rightarrow> page \<Rightarrow> bool" where
  "inserted p idx rcd r \<longleftrightarrow> page_inv r \<and> page_map r = (page_map p)(idx \<mapsto> rcd) \<and>
     scount r = max (scount p) (Suc idx) \<and> live_bytes r = live_bytes p + length rcd \<and> same_header r p"

lemma placed_inserted:
  "page_inv p \<Longrightarrow> placed p idx rcd r \<Longrightarrow> free_slot p idx \<Longrightarrow> inserted p idx rcd r"
  by (simp add: inserted_def placed_inv placed_map placed_live_bytes) (simp add: placed_def)

text \<open>Two pages with the same contents, as after a compaction.\<close>

definition same_contents :: "page \<Rightarrow> page \<Rightarrow> bool" where
  "same_contents q p \<longleftrightarrow> page_inv q \<and> page_map q = page_map p \<and> scount q = scount p \<and>
     live_bytes q = live_bytes p \<and> first_hole q = first_hole p \<and> same_header q p"

lemma Compact_same:
  assumes inv: "page_inv p"
  shows "\<exists>q. Compact p = Some q \<and> same_contents q p \<and> uppern q = 16384 - live_bytes p"
proof -
  from Compact_spec [OF inv] obtain q where q: "Compact p = Some q" "page_inv q"
    "page_map q = page_map p" "scount q = scount p" "uppern q = 16384 - live_bytes p" "same_header q p"
    and sl: "\<And>j. j < scount p \<Longrightarrow> snd (slotn q j) = snd (slotn p j) \<and> (slotn q j = (0, 0) \<longleftrightarrow> slotn p j = (0, 0))"
    by blast
  have "live_bytes q = live_bytes p"
    unfolding cum_def q(4) using sl by (intro sum.cong) auto
  moreover have "first_hole q = first_hole p"
    using first_hole_cong [OF q(4)] sl by blast
  ultimately show ?thesis using q by (auto simp: same_contents_def)
qed

lemma same_contents_target: "same_contents q p \<Longrightarrow> target q = target p \<and> need q = need p \<and> free_slot q (target q)"
  using free_slot_target [of q]
  by (auto simp: same_contents_def target_def need_def fun_eq_iff split: option.splits)

lemma same_contents_inserted: "same_contents q p \<Longrightarrow> inserted q idx rcd r \<Longrightarrow> inserted p idx rcd r"
  by (auto simp: same_contents_def inserted_def intro: same_header_trans)

lemma need_eq: "page_inv p \<Longrightarrow> length rcd + (if first_hole p = None then 4 else 0) = need p (target p) rcd"
  using first_hole_Some [of p] by (auto simp: need_def target_def split: option.splits)

lemma pageInsert_spec:
  assumes inv: "page_inv p" and size: "length rcd \<le> 16332"
  shows "\<exists>r. if fits p rcd
      then pageInsert p rcd = Some (r, Inr (target p)) \<and> inserted p (target p) rcd r
      else pageInsert p rcd = Some (r, Inl (New PageFull ''page.Insert'' ''page is full'')) \<and> same_contents r p"
proof -
  have len: "length p = 16384" using inv by (rule page_inv_length)
  note lo = page_inv_lower [OF inv]
  have bound: "live_bytes p \<le> 16384 - uppern p" "48 + 4 * scount p \<le> uppern p" "uppern p \<le> 16384"
    using live_bytes_bound [OF inv] page_inv_bounds [OF inv] by auto
  let ?n = "need p (target p) rcd"
  have ins: "pageInsert p rcd = (if uppern p < 48 + 4 * scount p + ?n then do {
          q \<leftarrow> Compact p;
          fs \<leftarrow> FreeSpace q;
          if fs < int ?n
          then Some (q, Inl (New PageFull ''page.Insert'' ''page is full''))
          else placeRecord q (scount p) (first_hole p) rcd
        } else placeRecord p (scount p) (first_hole p) rcd)"
    using size len lo bound(2) need_eq [OF inv, of rcd]
    by (simp add: pageInsert_def findHole_page [OF inv] Let_def)
  show ?thesis
  proof (cases "uppern p < 48 + 4 * scount p + ?n")
    case False
    then obtain r where "placeRecord p (scount p) (first_hole p) rcd = Some (r, Inr (target p))"
      "placed p (target p) rcd r"
      using placeRecord_spec [OF inv, of rcd] by auto
    moreover have "fits p rcd" using False bound by (simp add: fits_def)
    ultimately show ?thesis
      using ins False placed_inserted [OF inv _ free_slot_target] by auto
  next
    case True
    from Compact_same [OF inv] obtain q where q: "Compact p = Some q" "same_contents q p"
      "uppern q = 16384 - live_bytes p" by blast
    have qi: "page_inv q" "scount q = scount p" "first_hole q = first_hole p" "length q = 16384"
      using q(2) page_inv_length by (auto simp: same_contents_def)
    have tq: "target q = target p" "need q = need p" "free_slot q (target p)"
      using same_contents_target [OF q(2)] by auto
    have lq: "lowern q = 48 + 4 * scount p" using page_inv_lower [OF qi(1)] qi(2) by simp
    have fs: "int (uppern q) - int (lowern q) < int ?n \<longleftrightarrow> \<not> fits p rcd"
      using bound q(3) lq by (auto simp: fits_def)
    show ?thesis
    proof (cases "fits p rcd")
      case fit: True
      then have "48 + 4 * scount q + need q (target q) rcd \<le> uppern q"
        using bound q(3) tq qi(2) by (simp add: fits_def)
      from placeRecord_spec [OF qi(1) this] obtain r where
        "placeRecord q (scount p) (first_hole p) rcd = Some (r, Inr (target p))" "placed q (target p) rcd r"
        using tq qi by auto
      moreover from this(2) have "inserted p (target p) rcd r"
        using placed_inserted [OF qi(1) _ tq(3)] same_contents_inserted [OF q(2)] by blast
      ultimately show ?thesis using ins True q(1) qi(4) fs fit by simp
    next
      case False
      then show ?thesis using ins True q(1,2) qi(4) fs by simp
    qed
  qed
qed

lemma pageInsert_too_large:
  "length rcd > 16332 \<Longrightarrow>
   pageInsert p rcd = Some (p, Inl (New InvalidArgument ''page.Insert'' ''record exceeds maximum size''))"
  by (simp add: pageInsert_def)

text \<open>\<open>Append\<close> never looks for a hole and never compacts; it always takes a new slot.\<close>

lemma pageAppend_spec:
  assumes inv: "page_inv p" and size: "length rcd \<le> 16332"
  shows "\<exists>r. if 52 + 4 * scount p + length rcd \<le> uppern p
      then pageAppend p rcd = Some (r, Inr (scount p)) \<and> inserted p (scount p) rcd r
      else pageAppend p rcd = Some (r, Inl (New PageFull ''page.Append'' ''page is full'')) \<and> r = p"
proof (cases "52 + 4 * scount p + length rcd \<le> uppern p")
  case True
  define u where "u = uppern p - length rcd"
  define q where "q = w16 (blit p u rcd) 36 u"
  define r where "r = w16 (w16 (wslot q (scount p) u (length rcd)) 32 (scount p + 1)) 34 (48 + 4 * (scount p + 1))"
  have len: "length p = 16384" using inv by (rule page_inv_length)
  have up: "u + length rcd = uppern p" "uppern p \<le> 16384" "52 + 4 * scount p \<le> u"
    using True page_inv_bounds [OF inv] by (auto simp: u_def)
  have q: "length q = 16384" "scount q = scount p" "uppern q = u" "slice q u (length rcd) = rcd" "same_header q p"
    using len up by (simp_all add: q_def slice_blit_same)
  have qs: "slotn q j = slotn p j" if "j < scount p" for j
    using that len up by (simp add: q_def)
  have qa: "slice q a k = slice p a k" if "uppern p \<le> a" "a + k \<le> 16384" for a k
    using that len up by (simp add: q_def slice_blit_above)
  have "pageAppend p rcd = Some (r, Inr (scount p))"
    using len size True up q page_inv_lower [OF inv]
    by (simp add: pageAppend_def copyRange_def u_def [symmetric] PutU16_w16 q_def [symmetric] slotOff_eq r_def
        del: of_nat_add of_nat_mult of_nat_Suc)
  moreover have "placed p (scount p) rcd r"
    unfolding placed_def using q qs qa up by (simp add: r_def)
  then have "inserted p (scount p) rcd r"
    by (rule placed_inserted [OF inv]) (simp add: free_slot_def)
  ultimately show ?thesis using True by simp
next
  case False
  then show ?thesis
    using size page_inv_length [OF inv] page_inv_lower [OF inv] by (simp add: pageAppend_def)
qed

section \<open>Delete\<close>

lemma wslot_delete:
  assumes inv: "page_inv p" and i: "i < scount p"
  defines "r \<equiv> wslot p i 0 0"
  shows "page_inv r" and "page_map r = (page_map p)(i := None)" and "scount r = scount p"
    and "live_bytes r = live_bytes p - snd (slotn p i)" and "same_header r p" and "uppern r = uppern p"
    and "\<And>j. j < scount p \<Longrightarrow> slotn r j = (if j = i then (0, 0) else slotn p j)"
proof -
  have len: "length p = 16384" using inv by (rule page_inv_length)
  note i52 = slot_in_page [OF inv i]
  note up = page_inv_bounds [OF inv]
  show sc: "scount r = scount p" and "same_header r p" and upr: "uppern r = uppern p"
    using len i52 by (simp_all add: r_def)
  show sl: "slotn r j = (if j = i then (0, 0) else slotn p j)" if "j < scount p" for j
    using len i52 slot_in_page [OF inv that] by (simp add: r_def)
  have rec: "slice r a k = slice p a k" if "uppern p \<le> a" "a + k \<le> 16384" for a k
    using that len i52 up i by (simp add: r_def)
  show "page_inv r"
    using inv len i52 sl unfolding page_inv_def sc upr by (simp add: r_def)
  show "page_map r = (page_map p)(i := None)"
  proof
    fix j
    show "page_map r j = ((page_map p)(i := None)) j"
      using sl [of j] rec page_inv_slot [OF inv, of j] i by (auto simp: page_map_def sc)
  qed
  have "live_bytes r = (\<Sum>k \<in> {..<scount p} - {i}. snd (slotn r k)) + snd (slotn r i)"
    unfolding cum_def sc using i by (subst sum.remove [of _ i]) auto
  also have "(\<Sum>k \<in> {..<scount p} - {i}. snd (slotn r k)) = (\<Sum>k \<in> {..<scount p} - {i}. snd (slotn p k))"
    using sl by (intro sum.cong) auto
  also have "\<dots> = live_bytes p - snd (slotn p i)"
    unfolding cum_def using i by (subst (2) sum.remove [of _ i]) auto
  finally show "live_bytes r = live_bytes p - snd (slotn p i)" using sl [OF i] by simp
qed

lemma page_map_Some_slot: "page_map p i = Some x \<Longrightarrow> i < scount p \<and> slotn p i \<noteq> (0, 0)"
  by (auto simp: page_map_def split: if_splits)

lemma page_map_None_slot: "page_map p i = None \<Longrightarrow> i < scount p \<Longrightarrow> slotn p i = (0, 0)"
  by (auto simp: page_map_def split: if_splits)

lemma pageDelete_spec:
  assumes inv: "page_inv p"
  shows "pageDelete p s = Some (case page_map p (unat s) of
      Some rcd \<Rightarrow> (wslot p (unat s) 0 0, Inr ())
    | None \<Rightarrow> (p, Inl (New NotFound ''page.Delete''
        (if unat s \<ge> scount p then ''slot out of range'' else ''slot deleted''))))"
proof (cases "unat s < scount p")
  case True
  have i52: "52 + 4 * unat s \<le> length p" using slot_in_page [OF inv True] page_inv_length [OF inv] by simp
  obtain off ln where sl: "slotn p (unat s) = (off, ln)" by fastforce
  show ?thesis
    using True i52 sl page_inv_length [OF inv] by (auto simp: pageDelete_def page_map_def)
next
  case False
  then show ?thesis using page_inv_length [OF inv] by (simp add: pageDelete_def page_map_def)
qed

section \<open>Update\<close>

lemma replaceLoop_eq:
  "(\<forall>i \<in> set is. 52 + 4 * i \<le> length p) \<Longrightarrow>
   replaceLoop p s is live old = Some (live + sum_list (map (\<lambda>i. snd (slotn p i)) is),
     if s \<in> set is \<and> slotn p s \<noteq> (0, 0) then snd (slotn p s) else old)"
  by (induction "is" arbitrary: live old) (auto split: prod.splits)

lemma snd_slot_le_live: "i < scount p \<Longrightarrow> snd (slotn p i) \<le> live_bytes p"
  unfolding cum_def by (rule member_le_sum) auto

lemma canReplace_eq:
  assumes inv: "page_inv p" and s: "s < scount p"
  shows "canReplace p s newLen =
    Some (48 + 4 * scount p + (live_bytes p - snd (slotn p s)) + newLen \<le> 16384)"
proof -
  have "sum_list (map (\<lambda>i. snd (slotn p i)) [0..<scount p]) = live_bytes p"
    by (simp add: cum_def interv_sum_list_conv_sum_set_nat atLeast0LessThan)
  then have "replaceLoop p s [0..<scount p] 0 0 = Some (live_bytes p, snd (slotn p s))"
    using s slot_in_page [OF inv] page_inv_length [OF inv] by (auto simp: replaceLoop_eq)
  then show ?thesis
    using page_inv_length [OF inv] snd_slot_le_live [OF s] by (auto simp: canReplace_def)
qed

text \<open>A record overwritten in place by one that is not longer.\<close>

lemma overwrite_in_place:
  assumes inv: "page_inv p" and i: "i < scount p" and sl: "slotn p i = (off, ln)"
    and live: "slotn p i \<noteq> (0, 0)" and short: "length rcd \<le> ln"
  defines "r \<equiv> wslot (blit p off rcd) i off (length rcd)"
  shows "page_inv r" and "page_map r = (page_map p)(i \<mapsto> rcd)" and "same_header r p"
    and "scount r = scount p"
proof -
  have len: "length p = 16384" using inv by (rule page_inv_length)
  note i52 = slot_in_page [OF inv i]
  have up: "48 + 4 * scount p \<le> uppern p" using page_inv_bounds [OF inv] by simp
  have area: "uppern p \<le> off" "off + ln \<le> 16384" using page_inv_slot [OF inv i live] sl by simp_all
  have j52: "52 + 4 * j \<le> off" if "j < scount p" for j using that up area by linarith
  show sc: "scount r = scount p" and hd: "same_header r p"
    using len i52 area short up by (simp_all add: r_def)
  have upr: "uppern r = uppern p" "lowern r = lowern p" "length r = 16384"
    using len i52 area short up by (simp_all add: r_def)
  have rs: "slotn r j = (if j = i then (off, length rcd) else slotn p j)" if "j < scount p" for j
    using len i52 area short j52 [OF that] j52 [OF i] by (auto simp: r_def)
  have others: "slice r (fst (slotn p j)) (snd (slotn p j)) = slice p (fst (slotn p j)) (snd (slotn p j))"
    if j: "j < scount p" "j \<noteq> i" "slotn p j \<noteq> (0, 0)" for j
  proof -
    have "fst (slotn p j) + snd (slotn p j) \<le> off \<or> off + ln \<le> fst (slotn p j)"
      using page_inv_disjoint [OF inv j(1) i j(2,3) live] sl by simp
    moreover have "52 + 4 * i \<le> fst (slotn p j)" "fst (slotn p j) + snd (slotn p j) \<le> 16384"
      using page_inv_slot [OF inv j(1,3)] up i by auto
    ultimately show ?thesis
      using len i52 area short by (auto simp: r_def slice_blit_below slice_blit_above)
  qed
  have new: "slice r off (length rcd) = rcd"
    using len i52 area short j52 [OF i] by (simp add: r_def slice_blit_same)
  have shrink: "fst (slotn r j) = fst (slotn p j)" "snd (slotn r j) \<le> snd (slotn p j)"
    "slotn r j \<noteq> (0, 0) \<Longrightarrow> slotn p j \<noteq> (0, 0)" if "j < scount p" for j
    using rs [OF that] sl short live by (auto split: if_splits)
  show "page_inv r"
    unfolding page_inv_def sc upr
  proof (intro conjI allI impI)
    fix j k
    assume jk: "j < scount p" "k < scount p" "j \<noteq> k" "slotn r j \<noteq> (0, 0)" "slotn r k \<noteq> (0, 0)"
    show "fst (slotn r j) + snd (slotn r j) \<le> fst (slotn r k) \<or> fst (slotn r k) + snd (slotn r k) \<le> fst (slotn r j)"
      using page_inv_disjoint [OF inv jk(1,2,3)] shrink [OF jk(1)] shrink [OF jk(2)] jk(4,5) by linarith
  next
    fix j
    assume j: "j < scount p" "slotn r j \<noteq> (0, 0)"
    show "uppern p \<le> fst (slotn r j)" and "fst (slotn r j) + snd (slotn r j) \<le> 16384"
      using page_inv_slot [OF inv j(1)] shrink [OF j(1)] j(2) by linarith+
  qed (use inv in \<open>simp_all add: page_inv_def\<close>)
  show "page_map r = (page_map p)(i \<mapsto> rcd)"
  proof
    fix j
    have "off \<noteq> 0" using area up by linarith
    then show "page_map r j = ((page_map p)(i \<mapsto> rcd)) j"
      using rs [of j] others [of j] new i by (auto simp: page_map_def sc)
  qed
qed

text \<open>Moving a record from the slot it was inserted in to the slot being updated.\<close>

lemma move_slot:
  assumes inv: "page_inv p" and t: "page_map p t = Some rcd" and s: "page_map p s = None"
    and sn: "s < scount p"
  defines "r \<equiv> wslot (wslot p s (fst (slotn p t)) (snd (slotn p t))) t 0 0"
  shows "page_inv r" and "page_map r = (page_map p)(t := None, s \<mapsto> rcd)" and "same_header r p"
    and "scount r = scount p"
proof -
  have len: "length p = 16384" using inv by (rule page_inv_length)
  have tn: "t < scount p" "slotn p t \<noteq> (0, 0)" and ne: "s \<noteq> t" using page_map_Some_slot [OF t] t s by auto
  note t52 = slot_in_page [OF inv tn(1)] and s52 = slot_in_page [OF inv sn]
  note up = page_inv_bounds [OF inv]
  have tb: "fst (slotn p t) mod 65536 = fst (slotn p t)" "snd (slotn p t) mod 65536 = snd (slotn p t)"
    using slotn_bound [of t p] t52 len by simp_all
  show sc: "scount r = scount p" and "same_header r p" using len t52 s52 by (simp_all add: r_def)
  have upr: "uppern r = uppern p" "lowern r = lowern p" "length r = 16384"
    using len t52 s52 by (simp_all add: r_def)
  have rs: "slotn r j = (if j = t then (0, 0) else if j = s then slotn p t else slotn p j)"
    if "j < scount p" for j
    using len t52 s52 slot_in_page [OF inv that] tb by (simp add: r_def)
  have recs: "slice r a k = slice p a k" if "uppern p \<le> a" "a + k \<le> 16384" for a k
    using that len t52 s52 up tn(1) sn by (simp add: r_def)
  show "page_inv r"
    unfolding page_inv_def sc upr
  proof (intro conjI allI impI)
    fix i j
    assume "i < scount p" "j < scount p" "i \<noteq> j" "slotn r i \<noteq> (0, 0)" "slotn r j \<noteq> (0, 0)"
    then show "fst (slotn r i) + snd (slotn r i) \<le> fst (slotn r j) \<or> fst (slotn r j) + snd (slotn r j) \<le> fst (slotn r i)"
      using rs [of i] rs [of j] page_inv_disjoint [OF inv, of i j] page_inv_disjoint [OF inv, of t j]
        page_inv_disjoint [OF inv, of i t] tn by (auto split: if_splits)
  next
    fix i
    assume i: "i < scount p" "slotn r i \<noteq> (0, 0)"
    show "uppern p \<le> fst (slotn r i)" and "fst (slotn r i) + snd (slotn r i) \<le> 16384"
      using i rs [of i] page_inv_slot [OF inv, of i] page_inv_slot [OF inv tn] by (auto split: if_splits)
  qed (use inv in \<open>simp_all add: page_inv_def\<close>)
  show "page_map r = (page_map p)(t := None, s \<mapsto> rcd)"
  proof
    fix j
    have tr: "rcd = slice p (fst (slotn p t)) (snd (slotn p t))" using t tn by (simp add: page_map_def)
    have same: "slice r (fst (slotn p i)) (snd (slotn p i)) = slice p (fst (slotn p i)) (snd (slotn p i))"
      if "i < scount p" "slotn p i \<noteq> (0, 0)" for i
      using page_inv_slot [OF inv that] recs by simp
    show "page_map r j = ((page_map p)(t := None, s \<mapsto> rcd)) j"
      using rs [of j] same [of j] same [OF tn] tr tn sn ne by (auto simp: page_map_def sc)
  qed
qed

lemma grow_by_reinsert:
  assumes inv: "page_inv p" and old: "page_map p i = Some old" and i: "i < scount p"
    and room: "48 + 4 * scount p + (live_bytes p - length old) + length rcd \<le> 16384"
  shows "\<exists>q r. Compact (wslot p i 0 0) = Some q \<and>
    pageInsert q rcd = Some (r, Inr (target q)) \<and> page_inv r \<and> scount r = scount p \<and> same_header r p \<and>
    page_map r = (page_map p)(i := None, target q \<mapsto> rcd) \<and> target q < scount p \<and>
    (target q \<noteq> i \<longrightarrow> page_map p (target q) = None)"
proof -
  have live: "slotn p i \<noteq> (0, 0)" using page_map_Some_slot [OF old] by simp
  have lo: "length old = snd (slotn p i)"
    using old i live page_inv_slot [OF inv i live] page_inv_length [OF inv] by (auto simp: page_map_def)
  note d = wslot_delete [OF inv i]
  from Compact_same [OF d(1)] obtain q where q: "Compact (wslot p i 0 0) = Some q" "same_contents q (wslot p i 0 0)"
    by blast
  have qi: "page_inv q" "scount q = scount p" "page_map q = (page_map p)(i := None)" "same_header q p"
    "live_bytes q = live_bytes p - length old" "first_hole q = first_hole (wslot p i 0 0)"
    using q(2) d lo by (auto simp: same_contents_def intro: same_header_trans)
  have hole: "first_hole q \<noteq> None"
    using first_hole_None [of "wslot p i 0 0" i] d(3,7) i qi(6) by auto
  then obtain t where t: "first_hole q = Some t" by blast
  then have tq: "target q = t" "t < scount p" "page_map q t = None"
    using first_hole_Some [OF t] qi(2) by (auto simp: target_def page_map_def)
  have nd: "need q (target q) rcd = length rcd" using tq qi(2) by (simp add: need_def)
  have fit: "fits q rcd" using room nd qi by (simp add: fits_def)
  have "length rcd \<le> 16332" using room i by linarith
  from pageInsert_spec [OF qi(1) this] fit obtain r where
    r: "pageInsert q rcd = Some (r, Inr (target q))" "inserted q (target q) rcd r" by auto
  have "page_inv r" "scount r = scount p" "same_header r p" "page_map r = (page_map p)(i := None, target q \<mapsto> rcd)"
    using r(2) qi tq by (auto simp: inserted_def intro: same_header_trans)
  moreover have "target q \<noteq> i \<longrightarrow> page_map p (target q) = None" using tq qi(3) by auto
  ultimately show ?thesis using q(1) r(1) tq by auto
qed

lemma pageUpdate_spec:
  assumes inv: "page_inv p" and old: "page_map p (unat s) = Some old"
  shows "\<exists>r. if 48 + 4 * scount p + (live_bytes p - length old) + length rcd \<le> 16384
    then pageUpdate p s rcd = Some (r, Inr ()) \<and> page_inv r \<and> page_map r = (page_map p)(unat s \<mapsto> rcd) \<and>
      scount r = scount p \<and> same_header r p
    else pageUpdate p s rcd = Some (r, Inl (New PageFull ''page.Update'' ''page is full'')) \<and> r = p"
proof -
  define i where "i = unat s"
  have len: "length p = 16384" using inv by (rule page_inv_length)
  have i: "i < scount p" and live: "slotn p i \<noteq> (0, 0)" using page_map_Some_slot [OF old] by (simp_all add: i_def)
  obtain off ln where sl: "slotn p i = (off, ln)" by fastforce
  have lo: "length old = ln"
    using old page_inv_slot [OF inv i live] len sl i live by (auto simp: page_map_def i_def)
  have i52: "52 + 4 * i \<le> length p" using slot_in_page [OF inv i] len by simp
  have nz: "\<not> (ln = 0 \<and> off = 0)" using sl live by auto
  have area: "off + ln \<le> 16384" "52 + 4 * i \<le> off" using page_inv_slot [OF inv i live] sl page_inv_bounds [OF inv] i by auto
  have total: "48 + 4 * scount p + live_bytes p \<le> 16384" "ln \<le> live_bytes p"
    using live_bytes_bound [OF inv] page_inv_bounds [OF inv] snd_slot_le_live [OF i] sl by auto
  let ?room = "48 + 4 * scount p + (live_bytes p - length old) + length rcd \<le> 16384"
  show ?thesis
  proof (cases "length rcd \<le> ln")
    case True
    have "pageUpdate p s rcd = Some (wslot (blit p off rcd) i off (length rcd), Inr ())"
      using True len i i52 sl nz area
      by (simp add: pageUpdate_def i_def [symmetric] copyRange_def del: One_nat_def)
    moreover have ?room using True total lo by linarith
    ultimately show ?thesis using overwrite_in_place [OF inv i sl live True] by (auto simp: i_def)
  next
    case False
    have can: "canReplace p i (length rcd) = Some ?room" using canReplace_eq [OF inv i] sl lo by simp
    have del: "pageDelete p s = Some (wslot p i 0 0, Inr ())" using pageDelete_spec [OF inv, of s] old by (simp add: i_def)
    show ?thesis
    proof (cases ?room)
      case room: True
      from grow_by_reinsert [OF inv _ i room] old obtain q r where
        q: "Compact (wslot p i 0 0) = Some q" and ins: "pageInsert q rcd = Some (r, Inr (target q))"
        and r: "page_inv r" "scount r = scount p" "same_header r p" "page_map r = (page_map p)(i := None, target q \<mapsto> rcd)"
        and t: "target q < scount p" "target q \<noteq> i \<longrightarrow> page_map p (target q) = None"
        by (auto simp: i_def)
      have lr: "length r = 16384" using r(1) by (rule page_inv_length)
      have upd: "pageUpdate p s rcd = (if target q \<noteq> i then do {
           (noff, nlen) \<leftarrow> slot r (target q);
           x \<leftarrow> setSlot r i noff nlen;
           y \<leftarrow> setSlot x (target q) 0 0;
           Some (y, Inr ())
         } else Some (r, Inr ()))"
        using False len i i52 sl nz can room del q ins by (auto simp: pageUpdate_def i_def [symmetric])
      show ?thesis
      proof (cases "target q = i")
        case True
        then show ?thesis using upd r room by (auto simp: i_def)
      next
        case ne: False
        have mt: "page_map r (target q) = Some rcd" "page_map r i = None" using r(4) ne by auto
        have in_r: "i < scount r" "target q < scount r" using i t r(2) by simp_all
        note m = move_slot [OF r(1) mt in_r(1)]
        have "pageUpdate p s rcd = Some (wslot (wslot r i (fst (slotn r (target q))) (snd (slotn r (target q)))) (target q) 0 0, Inr ())"
          using upd ne slot_in_page [OF r(1) in_r(1)] slot_in_page [OF r(1) in_r(2)] lr
          by (simp add: case_prod_beta)
        moreover have "(page_map r)(target q := None, i \<mapsto> rcd) = (page_map p)(i \<mapsto> rcd)"
          using r(4) ne t(2) by (auto simp: fun_eq_iff)
        ultimately show ?thesis using m r room by (auto simp: i_def intro: same_header_trans)
      qed
    next
      case False
      then show ?thesis
        using \<open>\<not> length rcd \<le> ln\<close> len i i52 sl nz can by (simp add: pageUpdate_def i_def [symmetric])
    qed
  qed
qed

lemma pageUpdate_missing:
  assumes inv: "page_inv p" and old: "page_map p (unat s) = None"
  shows "pageUpdate p s rcd = Some (p, Inl (New NotFound ''page.Update''
    (if unat s \<ge> scount p then ''slot out of range'' else ''slot deleted'')))"
proof (cases "unat s < scount p")
  case True
  then show ?thesis
    using page_map_None_slot [OF old True] slot_in_page [OF inv True] page_inv_length [OF inv]
    by (simp add: pageUpdate_def)
qed (use page_inv_length [OF inv] in \<open>simp add: pageUpdate_def\<close>)

end
