(* ===== verification/PageValid.thy ===== *)
theory PageValid
  imports PageOps
begin

text \<open>
  What \<open>Validate\<close> guarantees about a page read from disk. It accepts every page the
  operations produce, and a page it accepts satisfies the invariant as long as no live
  record is empty. The adjacent-pair scan after the sort compares neighbours only, so an
  empty record that shares its offset with a longer one can hide an overlap.
\<close>

section \<open>Pairwise relations and permutations\<close>

lemma sorted_wrt_mset_iff:
  assumes "symp R"
  shows "sorted_wrt R xs \<longleftrightarrow> (\<forall>x \<in># mset xs. \<forall>y \<in># mset xs - {#x#}. R x y)"
proof (induction xs)
  case (Cons a xs)
  have sym: "R x y \<longleftrightarrow> R y x" for x y using assms by (auto dest: sympD)
  show ?case
  proof
    assume s: "sorted_wrt R (a # xs)"
    then have IH: "\<forall>x \<in># mset xs. \<forall>y \<in># mset xs - {#x#}. R x y" using Cons.IH by simp
    show "\<forall>x \<in># mset (a # xs). \<forall>y \<in># mset (a # xs) - {#x#}. R x y"
    proof (intro ballI)
      fix x y
      assume x: "x \<in># mset (a # xs)" and y: "y \<in># mset (a # xs) - {#x#}"
      show "R x y"
      proof (cases "x = a")
        case True
        then show ?thesis using s y by simp
      next
        case False
        then have "x \<in># mset xs" "y = a \<or> y \<in># mset xs - {#x#}"
          using x y diff_union_single_conv [of x "mset xs" "{#a#}"] by auto
        then show ?thesis using s IH sym by auto
      qed
    qed
  next
    assume r: "\<forall>x \<in># mset (a # xs). \<forall>y \<in># mset (a # xs) - {#x#}. R x y"
    have "\<forall>x \<in># mset xs. \<forall>y \<in># mset xs - {#x#}. R x y"
    proof (intro ballI)
      fix x y
      assume "x \<in># mset xs" "y \<in># mset xs - {#x#}"
      then have "y \<in># mset (a # xs) - {#x#}"
        using diff_union_single_conv [of x "mset xs" "{#a#}"] by simp
      moreover have "x \<in># mset (a # xs)" using \<open>x \<in># mset xs\<close> by simp
      ultimately show "R x y" using r by blast
    qed
    then show "sorted_wrt R (a # xs)" using r Cons.IH by simp
  qed
qed simp

lemma sorted_wrt_perm: "symp R \<Longrightarrow> mset xs = mset ys \<Longrightarrow> sorted_wrt R xs \<longleftrightarrow> sorted_wrt R ys"
  by (simp add: sorted_wrt_mset_iff)

lemma sorted_wrt_map_filter:
  "sorted_wrt R (map f (filter P xs)) \<longleftrightarrow> sorted_wrt (\<lambda>i j. P i \<longrightarrow> P j \<longrightarrow> R (f i) (f j)) xs"
  by (induction xs) auto

section \<open>The overlap scan\<close>

definition apart :: "nat \<times> nat \<Rightarrow> nat \<times> nat \<Rightarrow> bool" where
  "apart a b \<longleftrightarrow> snd a \<le> fst b \<or> snd b \<le> fst a"

lemma symp_apart: "symp apart"
  by (auto simp: apart_def intro: sympI)

lemma apart_commute: "apart a b \<Longrightarrow> apart b a"
  by (auto simp: apart_def)

lemma overlapScan_complete: "sorted_wrt apart xs \<Longrightarrow> \<not> overlapScan xs"
  by (induction xs rule: overlapScan.induct) (auto simp: apart_def)

lemma overlapScan_sound:
  "sorted_wrt (\<lambda>a b. fst a \<le> fst b) xs \<Longrightarrow> \<forall>x \<in> set xs. fst x < snd x \<Longrightarrow> \<not> overlapScan xs \<Longrightarrow>
   sorted_wrt (\<lambda>a b. snd a \<le> fst b) xs"
proof (induction xs rule: overlapScan.induct)
  case (1 a b rest)
  then have ab: "snd a \<le> fst b" and s: "sorted_wrt (\<lambda>a b. snd a \<le> fst b) (b # rest)"
    by (auto simp: not_less)
  have "fst b < snd b" using "1.prems" by simp
  with ab s show ?case by fastforce
qed simp_all

lemma overlapScan_sort:
  assumes "\<forall>x \<in> set xs. fst x < snd x" and "\<not> overlapScan (insertionSort (\<lambda>a b. fst a < fst b) xs)"
  shows "sorted_wrt apart xs"
proof -
  let ?s = "insertionSort (\<lambda>a b. fst a < fst b) xs"
  have "sorted_wrt (\<lambda>a b. snd a \<le> fst b) ?s"
    using overlapScan_sound [OF sorted_insertionSort _ assms(2)] assms(1) by simp
  then have "sorted_wrt apart ?s" by (rule sorted_wrt_mono_rel [rotated]) (auto simp: apart_def)
  then show ?thesis using sorted_wrt_perm [OF symp_apart, of ?s xs] by simp
qed

section \<open>The interval loop\<close>

definition interval :: "page \<Rightarrow> nat \<Rightarrow> nat \<times> nat" where
  "interval p i = (fst (slotn p i), fst (slotn p i) + snd (slotn p i))"

definition liveIntervals :: "page \<Rightarrow> (nat \<times> nat) list" where
  "liveIntervals p = map (interval p) (filter (\<lambda>i. slotn p i \<noteq> (0, 0)) [0..<scount p])"

lemma validateLoop_eq:
  assumes "\<forall>i \<in> set is. 52 + 4 * i \<le> length p"
  shows "validateLoop p upper is live = Some
    (if \<forall>i \<in> set is. slotn p i \<noteq> (0, 0) \<longrightarrow> upper \<le> fst (interval p i) \<and> snd (interval p i) \<le> 16384
     then Inr (live @ map (interval p) (filter (\<lambda>i. slotn p i \<noteq> (0, 0)) is))
     else Inl (New Corruption ''page.Validate'' ''slot outside record area''))"
  using assms
proof (induction "is" arbitrary: live)
  case (Cons i "is")
  obtain off ln where "slotn p i = (off, ln)" by fastforce
  with Cons show ?case by (auto simp: interval_def not_less)
qed simp

lemma page_inv_iff:
  "page_inv p \<longleftrightarrow> length p = 16384 \<and> lowern p = 48 + 4 * scount p \<and> lowern p \<le> uppern p \<and> uppern p \<le> 16384 \<and>
     (\<forall>i \<in> set [0..<scount p]. slotn p i \<noteq> (0, 0) \<longrightarrow> uppern p \<le> fst (interval p i) \<and> snd (interval p i) \<le> 16384) \<and>
     sorted_wrt apart (liveIntervals p)"
proof -
  have "sorted_wrt apart (liveIntervals p) \<longleftrightarrow> (\<forall>i < scount p. \<forall>j < scount p. i \<noteq> j \<longrightarrow> slotn p i \<noteq> (0, 0) \<longrightarrow>
      slotn p j \<noteq> (0, 0) \<longrightarrow> apart (interval p i) (interval p j))"
    unfolding liveIntervals_def sorted_wrt_map_filter
    by (subst sorted_wrt_iff_nth_less) (auto simp: linorder_neq_iff intro: apart_commute)
  then show ?thesis by (auto simp: page_inv_def interval_def apart_def)
qed

definition page_header_ok :: "page \<Rightarrow> bool" where
  "page_header_ok p \<longleftrightarrow> HasMagic p 0 \<and> U16 p 4 = Some CurrentFormatVersion \<and>
     (\<exists>t. U16 p 6 = Some t \<and> Known t)"

lemma pageValidate_ok_iff:
  "pageValidate p = Some (Inr ()) \<longleftrightarrow> page_header_ok p \<and> length p = 16384 \<and>
     lowern p = 48 + 4 * scount p \<and> lowern p \<le> uppern p \<and> uppern p \<le> 16384 \<and>
     (\<forall>i \<in> set [0..<scount p]. slotn p i \<noteq> (0, 0) \<longrightarrow> uppern p \<le> fst (interval p i) \<and> snd (interval p i) \<le> 16384) \<and>
     \<not> overlapScan (insertionSort (\<lambda>a b. fst a < fst b) (liveIntervals p))"
proof (cases "length p = 16384 \<and> 4 * scount p \<le> 16336")
  case True
  then have "\<forall>i \<in> set [0..<scount p]. 52 + 4 * i \<le> length p" by auto
  from validateLoop_eq [OF this] True show ?thesis
    by (auto simp: pageValidate_def page_header_ok_def liveIntervals_def U16_rd16 not_less split: if_splits)
next
  case False
  then show ?thesis by (auto simp: pageValidate_def U16_rd16 split: if_splits)
qed

section \<open>Pages the operations can produce\<close>

text \<open>One rule per operation that writes the buffer, whatever it returns.\<close>

inductive page_step :: "page \<Rightarrow> page \<Rightarrow> bool" where
  insert: "pageInsert p rcd = Some (q, res) \<Longrightarrow> page_step p q"
| append: "pageAppend p rcd = Some (q, res) \<Longrightarrow> page_step p q"
| delete: "pageDelete p s = Some (q, res') \<Longrightarrow> page_step p q"
| update: "pageUpdate p s rcd = Some (q, res') \<Longrightarrow> page_step p q"
| compact: "Compact p = Some q \<Longrightarrow> page_step p q"
| setTxn: "SetTxnMeta p t = Some q \<Longrightarrow> page_step p q"
| stamp: "StampLSN p lsn = Some q \<Longrightarrow> page_step p q"
| finalize: "FinalizeBuf p = Some q \<Longrightarrow> page_step p q"

inductive page_reach :: "PageID \<Rightarrow> u16 \<Rightarrow> page \<Rightarrow> bool" for pid ty where
  new: "pageNew pid ty = Some p \<Longrightarrow> page_reach pid ty p"
| step: "page_reach pid ty p \<Longrightarrow> page_step p q \<Longrightarrow> page_reach pid ty q"

lemma HasMagic_slice: "HasMagic b 0 \<longleftrightarrow> 4 \<le> length b \<and> slice b 0 4 = MagicBytes"
proof (cases "4 \<le> length b")
  case True
  then have "slice b 0 4 = [b ! 0, b ! 1, b ! 2, b ! 3]"
    by (intro nth_equalityI) (auto simp: nth_slice less_Suc_eq numeral_eq_Suc)
  with True show ?thesis by (auto simp: HasMagic_def MagicBytes_def numeral_2_eq_2)
qed (simp add: HasMagic_def)

text \<open>The identity part of the header: magic, version, type and page id.\<close>

definition same_identity :: "page \<Rightarrow> page \<Rightarrow> bool" where
  "same_identity q p \<longleftrightarrow> length q = length p \<and> slice q 0 16 = slice p 0 16"

lemma same_identity_slice:
  "same_identity q p \<Longrightarrow> a + m \<le> 16 \<Longrightarrow> slice q a m = slice p a m"
  using slice_slice [of a m 16 q 0] slice_slice [of a m 16 p 0] by (simp add: same_identity_def)

lemma same_identity_fields:
  assumes "same_identity q p"
  shows "page_header_ok q = page_header_ok p" and "pageID q = pageID p" and "pageType q = pageType p"
  using assms same_identity_slice [OF assms]
  by (simp_all add: page_header_ok_def HasMagic_slice U16_def U64_def pageID_def pageType_def same_identity_def)

lemma same_header_identity:
  "same_header q p \<Longrightarrow> length q = 16384 \<Longrightarrow> length p = 16384 \<Longrightarrow> same_identity q p"
  using slice_slice [of 0 16 32 q 0] slice_slice [of 0 16 32 p 0]
  by (simp add: same_header_def same_identity_def)

text \<open>Writes inside the header that touch neither the identity nor the directory fields.\<close>

lemma header_write:
  assumes inv: "page_inv p" and q: "q = blit p off bs" "16 \<le> off" "off + length bs \<le> 48"
    "off + length bs \<le> 32 \<or> 38 \<le> off"
  shows "page_inv q \<and> same_identity q p \<and> page_map q = page_map p"
proof -
  have len: "length p = 16384" using inv by (rule page_inv_length)
  have rd: "rd16 q a = rd16 p a" if "a \<in> {32, 34, 36} \<or> 48 \<le> a" "a + 2 \<le> 16384" for a
    using that q len by auto
  have sl: "slotn q i = slotn p i" if "i < scount p" for i
    using rd slot_in_page [OF inv that] by (simp add: slotn_def)
  have "slice q (fst (slotn p i)) (snd (slotn p i)) = slice p (fst (slotn p i)) (snd (slotn p i))"
    if "i < scount p" "slotn p i \<noteq> (0, 0)" for i
    using page_inv_slot [OF inv that] page_inv_bounds [OF inv] q len by (simp add: slice_blit_above)
  moreover have "page_inv q"
    using inv sl rd q len unfolding page_inv_def by simp
  ultimately show ?thesis
    using sl rd q len by (auto simp: same_identity_def slice_blit_below page_map_def fun_eq_iff)
qed

lemma page_step_keeps:
  assumes inv: "page_inv p" and st: "page_step p q"
  shows "page_inv q \<and> same_identity q p"
proof -
  have len: "length p = 16384" using inv by (rule page_inv_length)
  have H: "page_inv q \<and> same_identity q p" if "page_inv q" "same_header q p"
    using that page_inv_length [OF that(1)] len same_header_identity by blast
  have self: "same_identity p p" by (simp add: same_identity_def)
  from st show ?thesis
  proof cases
    case (insert rcd res)
    then show ?thesis
      using pageInsert_spec [OF inv, of rcd] pageInsert_too_large [of rcd p] H inv self
      by (cases "length rcd \<le> 16332") (auto simp: inserted_def same_contents_def split: if_splits)
  next
    case (append rcd res)
    then show ?thesis
      using pageAppend_spec [OF inv, of rcd] H inv self
      by (cases "length rcd \<le> 16332") (auto simp: inserted_def pageAppend_def split: if_splits)
  next
    case (delete s res)
    then show ?thesis
      using pageDelete_spec [OF inv, of s] wslot_delete [OF inv, of "unat s"] page_map_Some_slot [of p "unat s"] H inv self
      by (auto split: option.splits)
  next
    case (update s rcd res)
    then show ?thesis
      using pageUpdate_spec [OF inv, of s _ rcd] pageUpdate_missing [OF inv, of s rcd] H inv self
      by (cases "page_map p (unat s)") (auto split: if_splits)
  next
    case compact
    then show ?thesis using Compact_same [OF inv] H by (auto simp: same_contents_def)
  next
    case (setTxn t)
    then show ?thesis using header_write [OF inv, of q 24] len by (auto simp: SetTxnMeta_def PutU64_def)
  next
    case (stamp lsn)
    then show ?thesis using header_write [OF inv, of q 16] len by (auto simp: StampLSN_def PutU64_def)
  next
    case finalize
    let ?b = "blit p 40 (le_bytes 4 0)"
    have "page_inv ?b \<and> same_identity ?b p" using header_write [OF inv, of ?b 40] by simp
    moreover have "\<exists>v. q = blit ?b 40 (le_bytes 4 v)"
      using finalize len by (auto simp: FinalizeBuf_def checksumWrite_def PutU32_def)
    ultimately show ?thesis
      using header_write [of ?b q 40] by (auto simp: same_identity_def)
  qed
qed

lemma page_reach_inv:
  "page_reach pid ty p \<Longrightarrow> page_inv p \<and> HasMagic p 0 \<and> U16 p 4 = Some CurrentFormatVersion \<and>
     pageID p = Some pid \<and> pageType p = Some ty"
proof (induction rule: page_reach.induct)
  case (new p)
  then show ?case using pageNew_spec [of pid ty] by (auto simp: pageVersion_def)
next
  case (step p q)
  then have k: "page_inv q" "same_identity q p" using page_step_keeps by auto
  have "HasMagic q 0 = HasMagic p 0" "U16 q 4 = U16 p 4"
    using k(2) same_identity_slice [OF k(2)] by (simp_all add: HasMagic_slice U16_def same_identity_def)
  then show ?case using step.IH k same_identity_fields [OF k(2)] by simp
qed

lemma page_inv_validates: "page_inv p \<Longrightarrow> page_header_ok p \<Longrightarrow> pageValidate p = Some (Inr ())"
  using sorted_wrt_perm [OF symp_apart, of "insertionSort (\<lambda>a b. fst a < fst b) (liveIntervals p)" "liveIntervals p"]
  by (simp add: pageValidate_ok_iff page_inv_iff overlapScan_complete)

section \<open>Properties\<close>

lemma target_free: "page_map p (target p) = None"
  using free_slot_target [of p] by (auto simp: free_slot_def page_map_def)

text \<open>C5: \<open>Insert\<close> on a well-formed page never panics and keeps the page well formed.
  It succeeds exactly when the record, its directory entry if no deleted slot can be
  reused, and the live records fit in the page; then the first free slot holds the record
  and every other slot is unchanged. Otherwise it reports \<open>PageFull\<close> and no record is
  lost. No other header field changes.\<close>

theorem page_insert_correct:
  assumes "page_inv p" and "length rcd \<le> MaxRecordSize"
  shows "\<exists>q. page_inv q \<and> same_header q p \<and>
    (if 48 + 4 * scount p + need p (target p) rcd + live_bytes p \<le> 16384
     then pageInsert p rcd = Some (q, Inr (target p)) \<and> page_map p (target p) = None \<and>
       page_map q = (page_map p)(target p \<mapsto> rcd)
     else pageInsert p rcd = Some (q, Inl (New PageFull ''page.Insert'' ''page is full'')) \<and>
       page_map q = page_map p)"
  using pageInsert_spec [OF assms(1), of rcd] assms(2) target_free [of p]
  by (auto simp: fits_def inserted_def same_contents_def split: if_splits)

theorem page_insert_correct_witness:
  "\<exists>p q. pageNew 1 2 = Some p \<and> page_inv p \<and>
     pageInsert p [7, 8, 9] = Some (q, Inr 0) \<and> page_map q = [0 \<mapsto> [7, 8, 9]]"
proof -
  from pageNew_spec [of 1 2] obtain p where p: "pageNew 1 2 = Some p" "page_inv p"
    "page_map p = Map.empty" "scount p = 0" by blast
  have t: "target p = 0" using p(4) by (simp add: target_def first_hole_def)
  from page_insert_correct [OF p(2), of "[7, 8, 9]"] show ?thesis
    using p t by (auto simp: need_def)
qed

text \<open>C16: \<open>Update\<close> of a live slot replaces exactly that record, whether the new record
  fits in place or the old one is deleted, the page compacted and the new one inserted and
  moved back to its slot. It fails only with \<open>PageFull\<close>, exactly when the records
  would not fit, and then the page is unchanged.\<close>

theorem page_update_correct:
  assumes "page_inv p" and "page_map p (unat s) = Some old"
  shows "\<exists>q. page_inv q \<and> same_header q p \<and>
    (if 48 + 4 * scount p + (live_bytes p - length old) + length rcd \<le> 16384
     then pageUpdate p s rcd = Some (q, Inr ()) \<and> page_map q = (page_map p)(unat s \<mapsto> rcd)
     else pageUpdate p s rcd = Some (q, Inl (New PageFull ''page.Update'' ''page is full'')) \<and> q = p)"
  using pageUpdate_spec [OF assms, of rcd] assms(1) by (auto split: if_splits)

theorem page_update_correct_witness:
  "\<exists>p q r. pageNew 1 2 = Some p \<and> pageInsert p [7, 8] = Some (q, Inr 0) \<and>
     pageUpdate q 0 [1, 2, 3] = Some (r, Inr ()) \<and> page_map r = [0 \<mapsto> [1, 2, 3]]"
proof -
  from pageNew_spec [of 1 2] obtain p where p: "pageNew 1 2 = Some p" "page_inv p"
    "page_map p = Map.empty" "scount p = 0" by blast
  have t: "target p = 0" using p(4) by (simp add: target_def first_hole_def)
  have "fits p [7, 8]" using p t by (simp add: fits_def need_def)
  with pageInsert_spec [OF p(2), of "[7, 8]"] t obtain q where
    q: "pageInsert p [7, 8] = Some (q, Inr 0)" "inserted p 0 [7, 8] q" by auto
  then have qi: "page_inv q" "page_map q = [0 \<mapsto> [7, 8]]" "scount q = 1" "live_bytes q = 2"
    using p by (auto simp: inserted_def)
  then have "page_map q (unat (0 :: u16)) = Some [7, 8]" by simp
  from page_update_correct [OF qi(1) this, of "[1, 2, 3]"] show ?thesis
    using p q qi by auto
qed

text \<open>C23: \<open>Compact\<close> loses nothing and leaves nothing to reclaim: every slot keeps its
  record, and the free space afterwards is the whole page less the header, the slot
  directory and the live records.\<close>

theorem page_compact_lossless:
  assumes "page_inv p"
  shows "\<exists>q. Compact p = Some q \<and> page_inv q \<and> page_map q = page_map p \<and> same_header q p \<and>
    FreeSpace q = Some (16384 - 48 - 4 * int (scount p) - int (live_bytes p))"
proof -
  from Compact_same [OF assms] obtain q where q: "Compact p = Some q" "same_contents q p"
    "uppern q = 16384 - live_bytes p" by blast
  then have "page_inv q" "scount q = scount p" by (auto simp: same_contents_def)
  then have "FreeSpace q = Some (16384 - 48 - 4 * int (scount p) - int (live_bytes p))"
    using page_inv_length [of q] page_inv_lower [of q] q(3) live_bytes_bound [OF assms] page_inv_bounds [OF assms]
    by auto
  with q show ?thesis by (auto simp: same_contents_def)
qed

theorem page_compact_lossless_witness:
  "\<exists>p q. pageNew 1 2 = Some p \<and> Compact p = Some q \<and> page_map q = Map.empty \<and> FreeSpace q = Some 16336"
proof -
  from pageNew_spec [of 1 2] obtain p where p: "pageNew 1 2 = Some p" "page_inv p"
    "page_map p = Map.empty" "scount p = 0" by blast
  from page_compact_lossless [OF p(2)] show ?thesis using p by auto
qed

text \<open>C28: \<open>Get\<close> returns what the slot holds and \<open>Delete\<close> removes exactly one
  record: reading the deleted slot afterwards reports \<open>NotFound\<close>, every other slot
  reads as before.\<close>

theorem page_delete_get:
  assumes "page_inv p" and "page_map p (unat s) = Some rcd"
  shows "pageGet p s = Some (Inr rcd) \<and>
    (\<exists>q. pageDelete p s = Some (q, Inr ()) \<and> page_inv q \<and>
       pageGet q s = Some (Inl (New NotFound ''page.Get'' ''slot deleted'')) \<and>
       (\<forall>s'. s' \<noteq> s \<longrightarrow> pageGet q s' = pageGet p s'))"
proof -
  have i: "unat s < scount p" using page_map_Some_slot [OF assms(2)] by simp
  note d = wslot_delete [OF assms(1) i]
  have "pageGet (wslot p (unat s) 0 0) s' = pageGet p s'" if "s' \<noteq> s" for s'
    using that d(2,3) GetView_spec [OF d(1)] GetView_spec [OF assms(1)]
    by (simp add: word_unat_eq_iff split: option.splits)
  then show ?thesis
    using pageDelete_spec [OF assms(1), of s] GetView_spec [OF assms(1), of s] GetView_spec [OF d(1), of s] assms(2) d i
    by auto
qed

theorem page_delete_get_witness:
  "\<exists>p q r. pageNew 1 2 = Some p \<and> pageInsert p [7] = Some (q, Inr 0) \<and> pageGet q 0 = Some (Inr [7]) \<and>
     pageDelete q 0 = Some (r, Inr ()) \<and> pageGet r 0 = Some (Inl (New NotFound ''page.Get'' ''slot deleted''))"
proof -
  from pageNew_spec [of 1 2] obtain p where p: "pageNew 1 2 = Some p" "page_inv p"
    "page_map p = Map.empty" "scount p = 0" by blast
  have t: "target p = 0" using p(4) by (simp add: target_def first_hole_def)
  have "fits p [7]" using p t by (simp add: fits_def need_def)
  with pageInsert_spec [OF p(2), of "[7]"] t obtain q where
    q: "pageInsert p [7] = Some (q, Inr 0)" "inserted p 0 [7] q" by auto
  then have "page_inv q" "page_map q (unat (0 :: u16)) = Some [7]" by (auto simp: inserted_def)
  from page_delete_get [OF this] show ?thesis using p q by auto
qed

text \<open>C17: a page built by \<open>New\<close> with a known type and changed by any sequence of
  page operations (inserts, appends, deletes, updates, compactions, LSN and metadata
  stamps, checksumming, successful or not) is accepted by \<open>ParseID\<close> under its own id.\<close>

theorem page_reachable_parses:
  assumes "page_reach pid ty p" and "Known ty"
  shows "ParseID p pid = Some (Inr p)"
proof -
  from page_reach_inv [OF assms(1)] have r: "page_inv p" "HasMagic p 0" "U16 p 4 = Some CurrentFormatVersion"
    "pageID p = Some pid" "pageType p = Some ty" by auto
  then have "pageValidate p = Some (Inr ())"
    using assms(2) by (intro page_inv_validates) (auto simp: page_header_ok_def pageType_def)
  with r show ?thesis using page_inv_length [OF r(1)] by (simp add: ParseID_def pageParse_def)
qed

theorem page_reachable_parses_witness:
  "Known 2 \<and> (\<exists>p. pageNew 1 2 = Some p \<and> page_reach 1 2 p \<and> ParseID p 1 = Some (Inr p))"
proof -
  from pageNew_spec [of 1 2] obtain p where p: "pageNew 1 2 = Some p" by blast
  have k: "Known 2" by (simp add: Known_def page_type_defs)
  have "page_reach 1 2 p" using p by (rule page_reach.new)
  with k p page_reachable_parses [OF this k] show ?thesis by blast
qed

text \<open>C26: a page \<open>Validate\<close> accepts is well formed (directory bounds, every record
  inside the record area, no two records overlapping) provided no live record is empty.\<close>

theorem page_validate_sound:
  assumes "pageValidate p = Some (Inr ())"
    and "\<forall>i < scount p. slotn p i \<noteq> (0, 0) \<longrightarrow> 0 < snd (slotn p i)"
  shows "page_inv p"
proof -
  have "\<forall>x \<in> set (liveIntervals p). fst x < snd x"
    using assms(2) by (auto simp: liveIntervals_def interval_def)
  with assms(1) show ?thesis
    unfolding page_inv_iff pageValidate_ok_iff using overlapScan_sort by blast
qed

theorem page_validate_sound_witness:
  "\<exists>p. pageNew 1 2 = Some p \<and> pageValidate p = Some (Inr ()) \<and> page_inv p"
proof -
  from pageNew_spec [of 1 2] obtain p where p: "pageNew 1 2 = Some p" "page_inv p" "scount p = 0"
    "pageVersion p = Some CurrentFormatVersion" "HasMagic p 0" "pageType p = Some 2" by blast
  then have v: "pageValidate p = Some (Inr ())"
    by (intro page_inv_validates) (auto simp: page_header_ok_def pageVersion_def pageType_def Known_def page_type_defs)
  have "\<forall>i < scount p. slotn p i \<noteq> (0, 0) \<longrightarrow> 0 < snd (slotn p i)" using p(3) by simp
  from page_validate_sound [OF v this] show ?thesis using p v by blast
qed

text \<open>A page with three live slots at (16000, 10), (16000, 0) and (16005, 10).\<close>

definition hidden_overlap :: "page \<Rightarrow> page" where
  "hidden_overlap p = wslot (wslot (wslot (w16 (w16 (w16 p 32 3) 34 60) 36 16000) 0 16000 10) 1 16000 0) 2 16005 10"

lemma hidden_overlap_fields:
  assumes "length p = 16384"
  shows "length (hidden_overlap p) = 16384" and "scount (hidden_overlap p) = 3"
    and "lowern (hidden_overlap p) = 60" and "uppern (hidden_overlap p) = 16000"
    and "slotn (hidden_overlap p) 0 = (16000, 10)" and "slotn (hidden_overlap p) (Suc 0) = (16000, 0)"
    and "slotn (hidden_overlap p) 2 = (16005, 10)" and "same_identity (hidden_overlap p) p"
  using assms by (simp_all add: hidden_overlap_def same_identity_def)

text \<open>C29: without that proviso the guarantee fails: there is a page \<open>Validate\<close> accepts
  in which two live, non-empty records overlap, because an empty record at the same offset
  sorts between them and the scan compares neighbours only.\<close>

theorem page_validate_misses_overlap:
  "\<exists>p i j. pageValidate p = Some (Inr ()) \<and> i < j \<and> j < scount p \<and>
     0 < snd (slotn p i) \<and> 0 < snd (slotn p j) \<and>
     fst (slotn p i) \<le> fst (slotn p j) \<and> fst (slotn p j) < fst (slotn p i) + snd (slotn p i)"
proof -
  from pageNew_spec [of 1 2] obtain p where p: "page_inv p"
    "pageVersion p = Some CurrentFormatVersion" "HasMagic p 0" "pageType p = Some 2" by blast
  note f = hidden_overlap_fields [OF page_inv_length [OF p(1)]]
  have "page_header_ok p"
    using p by (auto simp: page_header_ok_def pageVersion_def pageType_def Known_def page_type_defs)
  then have hdr: "page_header_ok (hidden_overlap p)" using same_identity_fields(1) [OF f(8)] by simp
  have live: "liveIntervals (hidden_overlap p) = [(16000, 16010), (16000, 16000), (16005, 16015)]"
    using f by (simp add: liveIntervals_def interval_def upt_rec numeral_2_eq_2)
  have area: "\<forall>i \<in> set [0..<3]. slotn (hidden_overlap p) i \<noteq> (0, 0) \<longrightarrow>
      16000 \<le> fst (interval (hidden_overlap p) i) \<and> snd (interval (hidden_overlap p) i) \<le> 16384"
    using f by (auto simp: interval_def less_Suc_eq numeral_3_eq_3 numeral_2_eq_2)
  have "pageValidate (hidden_overlap p) = Some (Inr ())"
    unfolding pageValidate_ok_iff using hdr f area live by (simp add: insertionSort_def)
  then show ?thesis
    using f by (intro exI [of _ "hidden_overlap p"] exI [of _ 0] exI [of _ 2]) simp
qed

end
