(* ===== verification/RowVersion.thy ===== *)
theory RowVersion
  imports Binary
begin

text \<open>
  The MVCC header of a leaf value, \<open>internal/storage/row/version.go\<close>: a 30-byte prefix
  with the magic \<open>NSRV\<close>, a version byte, a reserved byte and the three 64-bit fields,
  then the payload. A value without the prefix is a legacy row; \<open>Inspect\<close> reports it
  with \<open>ok = false\<close>, here \<open>Inr None\<close>.
\<close>

record Version =
  vXmin :: TxnID
  vXmax :: TxnID
  vUndo :: UndoID
  vPayload :: bytes

definition rowMagic :: bytes where
  "rowMagic = [0x4E, 0x53, 0x52, 0x56]"

abbreviation (input) rowHeaderSize :: nat where "rowHeaderSize \<equiv> 30"

definition rowCurVersion :: byte where "rowCurVersion = 1"

text \<open>\<open>buf\<close> is the backing array handed in; it is reused when it is large enough.\<close>

definition EncodeInto :: "bytes \<Rightarrow> Version \<Rightarrow> bytes option" where
  "EncodeInto buf v = do {
     let n = rowHeaderSize + length (vPayload v);
     let b = (if length buf < n then replicate n 0 else take n buf);
     b \<leftarrow> copyRange b 0 4 rowMagic;
     b \<leftarrow> putB b 4 rowCurVersion;
     b \<leftarrow> putB b 5 0;
     b \<leftarrow> PutU64 b 6 (vXmin v);
     b \<leftarrow> PutU64 b 14 (vXmax v);
     b \<leftarrow> PutU64 b 22 (vUndo v);
     copyAt b rowHeaderSize (vPayload v)
   }"

definition rowEncode :: "Version \<Rightarrow> bytes option" where
  "rowEncode v = EncodeInto [] v"

definition Inspect :: "bytes \<Rightarrow> Version option go" where
  "Inspect b =
     (if length b < rowHeaderSize \<or> take 4 b \<noteq> rowMagic then Some (Inr None)
      else do {
        ver \<leftarrow> getB b 4;
        if ver \<noteq> rowCurVersion
        then Some (Inl (New InvalidFormat ''row.Decode'' ''unsupported row version''))
        else do {
          xmin \<leftarrow> U64 b 6;
          xmax \<leftarrow> U64 b 14;
          un \<leftarrow> U64 b 22;
          Some (Inr (Some \<lparr>vXmin = xmin, vXmax = xmax, vUndo = un, vPayload = drop rowHeaderSize b\<rparr>))
        }
      })"

text \<open>\<open>Decode\<close> copies the payload out of the buffer.\<close>

definition rowDecode :: "bytes \<Rightarrow> Version option go" where
  "rowDecode b = gbind (Inspect b) (\<lambda>v. Some (Inr v))"

definition PayloadOf :: "bytes \<Rightarrow> bytes go" where
  "PayloadOf b = gbind (rowDecode b) (\<lambda>r. Some (Inr (case r of None \<Rightarrow> b | Some v \<Rightarrow> vPayload v)))"

lemma length_rowMagic [simp]: "length rowMagic = 4"
  by (simp add: rowMagic_def)

text \<open>The encoding as a concatenation; it does not depend on the reused buffer.\<close>

definition rowBytes :: "Version \<Rightarrow> bytes" where
  "rowBytes v = rowMagic @ [rowCurVersion, 0] @ le_bytes 8 (unat (vXmin v)) @
     le_bytes 8 (unat (vXmax v)) @ le_bytes 8 (unat (vUndo v)) @ vPayload v"

lemma length_rowBytes [simp]: "length (rowBytes v) = 30 + length (vPayload v)"
  by (simp add: rowBytes_def)

lemma blit_append_prefix:
  "length pre = off \<Longrightarrow> off + length bs \<le> length b \<Longrightarrow> take off b = pre \<Longrightarrow>
   take (off + length bs) (blit b off bs) = pre @ bs"
  by (simp add: blit_def)

lemma EncodeInto_eq: "EncodeInto buf v = Some (rowBytes v)"
proof -
  define n where "n = 30 + length (vPayload v)"
  define b where "b = (if length buf < n then replicate n 0 else take n buf)"
  have len: "length b = n" by (simp add: b_def)
  have n: "30 \<le> n" by (simp add: n_def)
  let ?b1 = "blit b 0 rowMagic"
  let ?b2 = "blit ?b1 4 [rowCurVersion]"
  let ?b3 = "blit ?b2 5 [0]"
  let ?b4 = "blit ?b3 6 (le_bytes 8 (unat (vXmin v)))"
  let ?b5 = "blit ?b4 14 (le_bytes 8 (unat (vXmax v)))"
  let ?b6 = "blit ?b5 22 (le_bytes 8 (unat (vUndo v)))"
  have "EncodeInto buf v = Some (blit ?b6 30 (vPayload v))"
    using len n by (simp add: EncodeInto_def go_defs n_def [symmetric] b_def [symmetric] Let_def)
      (simp add: n_def)
  also have "blit ?b6 30 (vPayload v) = rowBytes v"
  proof -
    have "take 30 ?b6 = rowMagic @ [rowCurVersion, 0] @ le_bytes 8 (unat (vXmin v)) @
     le_bytes 8 (unat (vXmax v)) @ le_bytes 8 (unat (vUndo v))"
      using len n by (simp add: blit_def min_def)
    then show ?thesis using len n by (simp add: blit_def [of ?b6] rowBytes_def n_def)
  qed
  finally show ?thesis .
qed

lemma Inspect_rowBytes: "Inspect (rowBytes v) = Some (Inr (Some v))"
proof -
  have parts: "slice (rowBytes v) 6 8 = le_bytes 8 (unat (vXmin v))"
    "slice (rowBytes v) 14 8 = le_bytes 8 (unat (vXmax v))"
    "slice (rowBytes v) 22 8 = le_bytes 8 (unat (vUndo v))"
    "drop 30 (rowBytes v) = vPayload v" "take 4 (rowBytes v) = rowMagic" "rowBytes v ! 4 = rowCurVersion"
    by (simp_all add: rowBytes_def slice_def rowMagic_def)
  then show ?thesis by (simp add: Inspect_def getB_def U64_def)
qed

text \<open>C30: an MVCC row version survives encoding and decoding unchanged, whatever buffer
  the encoder reuses.\<close>

theorem row_version_roundtrip:
  "\<exists>b. EncodeInto buf v = Some b \<and> rowDecode b = Some (Inr (Some v)) \<and>
     PayloadOf b = Some (Inr (vPayload v)) \<and> length b = 30 + length (vPayload v)"
  by (simp add: EncodeInto_eq rowDecode_def Inspect_rowBytes PayloadOf_def)

end
