(* ===== verification/Locks.thy ===== *)
theory Locks
  imports Prelude "HOL-Library.AList" "HOL-Library.List_Lexorder"
begin

text \<open>
  The key and range lock table of \<open>internal/txn/lock.go\<close>. The maps of the source are
  association lists here, so the loops over them are list functions; the order of a Go map
  iteration is unspecified and no result depends on it. A byte slice that may be nil is a
  \<open>bytes option\<close>. \<open>bytes.Compare\<close> is the lexicographic order on lists of
  unsigned bytes. Every section between \<open>mu.Lock\<close> and \<open>mu.Unlock\<close> is one
  function on the state, so concurrent callers are interleavings of these functions. A
  waiter is identified by its pointer in the source, here by \<open>wId\<close>; \<open>lmSent\<close>
  records the waiters whose channel received the grant.
\<close>

datatype Mode = Shared | Exclusive

record keyState =
  ksHolders :: "(TxnID \<times> Mode) list"
  ksTag :: string

record heldRange =
  hrTxn :: TxnID
  hrMode :: Mode
  hrStart :: "bytes option"
  hrEnd :: "bytes option"
  hrTag :: string

record waiter =
  wId :: nat
  wTxn :: TxnID
  wMode :: Mode
  wKey :: bytes
  wRng :: "(bytes option \<times> bytes option) option"
  wTag :: string

record LockManager =
  lmKeys :: "(bytes \<times> keyState) list"
  lmRanges :: "heldRange list"
  lmWaiters :: "waiter list"
  lmWaitFor :: "(TxnID \<times> TxnID list) list"
  lmWaitTimeout :: int
  lmNextW :: nat
  lmSent :: "nat list"

record LockInfo =
  liTxn :: TxnID
  liMode :: Mode
  liTag :: string
  liRange :: bool

definition NewLockManager :: LockManager where
  "NewLockManager = \<lparr>lmKeys = [], lmRanges = [], lmWaiters = [], lmWaitFor = [],
     lmWaitTimeout = 0, lmNextW = 0, lmSent = []\<rparr>"

section \<open>Ranges\<close>

text \<open>\<open>append([]byte(nil), b...)\<close>: an empty slice comes back nil.\<close>

definition cloneBytes :: "bytes option \<Rightarrow> bytes option" where
  "cloneBytes b = (case b of None \<Rightarrow> None | Some bs \<Rightarrow> if bs = [] then None else Some bs)"

definition inRange :: "bytes \<Rightarrow> bytes option \<Rightarrow> bytes option \<Rightarrow> bool" where
  "inRange key start end =
     (if (case start of None \<Rightarrow> False | Some s \<Rightarrow> key < s) then False
      else if (case end of None \<Rightarrow> False | Some e \<Rightarrow> key \<ge> e) then False
      else True)"

definition rangeOverlap :: "bytes option \<Rightarrow> bytes option \<Rightarrow> bytes option \<Rightarrow> bytes option \<Rightarrow> bool" where
  "rangeOverlap a0 a1 b0 b1 =
     (if (case (a1, b0) of (Some e, Some s) \<Rightarrow> e \<le> s | _ \<Rightarrow> False) then False
      else if (case (b1, a0) of (Some e, Some s) \<Rightarrow> e \<le> s | _ \<Rightarrow> False) then False
      else True)"

section \<open>Granting\<close>

definition conflictM :: "Mode \<Rightarrow> Mode \<Rightarrow> bool" where
  "conflictM a b \<longleftrightarrow> a = Exclusive \<or> b = Exclusive"

definition holdersOf :: "LockManager \<Rightarrow> bytes \<Rightarrow> (TxnID \<times> Mode) list" where
  "holdersOf lm k = (case map_of (lmKeys lm) k of None \<Rightarrow> [] | Some st \<Rightarrow> ksHolders st)"

definition canGrantKey :: "LockManager \<Rightarrow> TxnID \<Rightarrow> bytes \<Rightarrow> Mode \<Rightarrow> bool" where
  "canGrantKey lm t key mode =
     (list_all (\<lambda>(id, have). id = t \<or> \<not> conflictM have mode) (holdersOf lm key) \<and>
      list_all (\<lambda>r. hrTxn r = t \<or> \<not> inRange key (hrStart r) (hrEnd r) \<or> \<not> conflictM (hrMode r) mode)
        (lmRanges lm))"

definition canGrantRange :: "LockManager \<Rightarrow> TxnID \<Rightarrow> bytes option \<Rightarrow> bytes option \<Rightarrow> Mode \<Rightarrow> bool" where
  "canGrantRange lm t start end mode =
     (list_all (\<lambda>(k, st). \<not> inRange k start end \<or>
        list_all (\<lambda>(id, have). id = t \<or> \<not> conflictM have mode) (ksHolders st)) (lmKeys lm) \<and>
      list_all (\<lambda>r. hrTxn r = t \<or> \<not> rangeOverlap start end (hrStart r) (hrEnd r) \<or> \<not> conflictM (hrMode r) mode)
        (lmRanges lm))"

definition grantKey :: "LockManager \<Rightarrow> TxnID \<Rightarrow> bytes \<Rightarrow> Mode \<Rightarrow> string \<Rightarrow> LockManager" where
  "grantKey lm t k mode tag =
     (let st = (case map_of (lmKeys lm) k of None \<Rightarrow> \<lparr>ksHolders = [], ksTag = ''''\<rparr> | Some st \<Rightarrow> st);
          st = (if ksTag st = '''' \<and> tag \<noteq> '''' then st\<lparr>ksTag := tag\<rparr> else st);
          st = (case map_of (ksHolders st) t of
                  None \<Rightarrow> st\<lparr>ksHolders := AList.update t mode (ksHolders st)\<rparr>
                | Some have \<Rightarrow>
                    if mode = Exclusive \<or> have = Exclusive
                    then st\<lparr>ksHolders := AList.update t mode (ksHolders st)\<rparr> else st)
      in lm\<lparr>lmKeys := AList.update k st (lmKeys lm)\<rparr>)"

definition grantRange :: "LockManager \<Rightarrow> TxnID \<Rightarrow> bytes option \<Rightarrow> bytes option \<Rightarrow> Mode \<Rightarrow> string \<Rightarrow> LockManager" where
  "grantRange lm t start end mode tag =
     lm\<lparr>lmRanges := lmRanges lm @
        [\<lparr>hrTxn = t, hrMode = mode, hrStart = cloneBytes start, hrEnd = cloneBytes end, hrTag = tag\<rparr>]\<rparr>"

section \<open>The wait-for graph\<close>

text \<open>The local \<open>add\<close> closure of the blocker functions.\<close>

definition addBlocker :: "TxnID \<Rightarrow> TxnID list \<Rightarrow> TxnID \<Rightarrow> TxnID list" where
  "addBlocker self out t = (if t = self \<or> t \<in> set out then out else out @ [t])"

definition blockersKey :: "LockManager \<Rightarrow> TxnID \<Rightarrow> bytes \<Rightarrow> Mode \<Rightarrow> TxnID list" where
  "blockersKey lm self key mode =
     foldl (addBlocker self)
       (foldl (addBlocker self) [] (map fst (filter (\<lambda>(id, have). conflictM have mode) (holdersOf lm key))))
       (map hrTxn (filter (\<lambda>r. inRange key (hrStart r) (hrEnd r) \<and> conflictM (hrMode r) mode) (lmRanges lm)))"

definition blockersRange :: "LockManager \<Rightarrow> TxnID \<Rightarrow> bytes option \<Rightarrow> bytes option \<Rightarrow> Mode \<Rightarrow> TxnID list" where
  "blockersRange lm self start end mode =
     foldl (addBlocker self)
       (foldl (addBlocker self) []
          (concat (map (\<lambda>(k, st). if \<not> inRange k start end then []
             else map fst (filter (\<lambda>(id, have). conflictM have mode) (ksHolders st))) (lmKeys lm))))
       (map hrTxn (filter (\<lambda>r. rangeOverlap start end (hrStart r) (hrEnd r) \<and> conflictM (hrMode r) mode) (lmRanges lm)))"

definition setWait :: "LockManager \<Rightarrow> TxnID \<Rightarrow> TxnID list \<Rightarrow> LockManager" where
  "setWait lm t blockers = lm\<lparr>lmWaitFor := AList.update t blockers (lmWaitFor lm)\<rparr>"

definition clearWait :: "LockManager \<Rightarrow> TxnID \<Rightarrow> LockManager" where
  "clearWait lm t = lm\<lparr>lmWaitFor := AList.delete t (lmWaitFor lm)\<rparr>"

definition blockersW :: "LockManager \<Rightarrow> waiter \<Rightarrow> TxnID list" where
  "blockersW lm w = (case wRng w of
      Some (s, e) \<Rightarrow> blockersRange lm (wTxn w) s e (wMode w)
    | None \<Rightarrow> blockersKey lm (wTxn w) (wKey w) (wMode w))"

fun refreshWaitsForKeyLoop :: "waiter list \<Rightarrow> bytes \<Rightarrow> LockManager \<Rightarrow> LockManager" where
  "refreshWaitsForKeyLoop [] key lm = lm"
| "refreshWaitsForKeyLoop (w # ws) key lm =
     refreshWaitsForKeyLoop ws key
       (case wRng w of
          None \<Rightarrow> if wKey w = key then setWait lm (wTxn w) (blockersW lm w) else lm
        | Some (s, e) \<Rightarrow> if inRange key s e then setWait lm (wTxn w) (blockersW lm w) else lm)"

definition refreshWaitsForKey :: "LockManager \<Rightarrow> bytes \<Rightarrow> LockManager" where
  "refreshWaitsForKey lm key = refreshWaitsForKeyLoop (lmWaiters lm) key lm"

fun refreshWaitsForRangeLoop :: "waiter list \<Rightarrow> bytes option \<Rightarrow> bytes option \<Rightarrow> LockManager \<Rightarrow> LockManager" where
  "refreshWaitsForRangeLoop [] start end lm = lm"
| "refreshWaitsForRangeLoop (w # ws) start end lm =
     refreshWaitsForRangeLoop ws start end
       (case wRng w of
          None \<Rightarrow> if inRange (wKey w) start end then setWait lm (wTxn w) (blockersW lm w) else lm
        | Some (s, e) \<Rightarrow> if rangeOverlap start end s e then setWait lm (wTxn w) (blockersW lm w) else lm)"

definition refreshWaitsForRange :: "LockManager \<Rightarrow> bytes option \<Rightarrow> bytes option \<Rightarrow> LockManager" where
  "refreshWaitsForRange lm start end = refreshWaitsForRangeLoop (lmWaiters lm) start end lm"

section \<open>Cycle detection\<close>

definition succs :: "(TxnID \<times> TxnID list) list \<Rightarrow> TxnID \<Rightarrow> TxnID list" where
  "succs g x = (case map_of g x of None \<Rightarrow> [] | Some ys \<Rightarrow> ys)"

definition nodes :: "(TxnID \<times> TxnID list) list \<Rightarrow> TxnID set" where
  "nodes g = fst ` set g"

text \<open>The three values of the source's \<open>seen\<close> map: absent, 1 and 2. The list is what
  is left of the loop over the successors of a node; the call on the successors of \<open>x\<close>
  is the recursive call \<open>dfs(x)\<close>.\<close>

datatype colour = Unseen | Visiting | Done

function dfs :: "(TxnID \<times> TxnID list) list \<Rightarrow> TxnID list \<Rightarrow> (TxnID \<Rightarrow> colour) \<Rightarrow> bool \<times> (TxnID \<Rightarrow> colour)" where
  "dfs g [] seen = (False, seen)"
| "dfs g (x # xs) seen =
     (case seen x of
        Visiting \<Rightarrow> (True, seen)
      | Done \<Rightarrow> dfs g xs seen
      | Unseen \<Rightarrow>
          (case dfs g (succs g x) (seen(x := Visiting)) of
             (True, seen') \<Rightarrow> (True, seen')
           | (False, seen') \<Rightarrow> dfs g xs (seen'(x := Done))))"
  by pat_completeness auto

lemma dfs_seen_grows:
  "dfs_dom (g, xs, seen) \<Longrightarrow> seen y \<noteq> Unseen \<Longrightarrow> snd (dfs g xs seen) y \<noteq> Unseen"
proof (induction rule: dfs.pinduct)
  case (1 g seen)
  then show ?case by (simp add: dfs.psimps)
next
  case (2 g x xs seen)
  obtain b1 s1 where r1: "dfs g (succs g x) (seen(x := Visiting)) = (b1, s1)" by fastforce
  show ?case
  proof (cases "seen x")
    case Unseen
    then have s1: "s1 y \<noteq> Unseen" using "2.IH"(1) "2.prems" r1 by (metis fun_upd_apply snd_conv colour.distinct(1))
    show ?thesis
    proof (cases b1)
      case True
      then show ?thesis using 2 r1 Unseen s1 by (simp add: dfs.psimps)
    next
      case False
      then have "snd (dfs g xs (s1(x := Done))) y \<noteq> Unseen"
        using "2.IH"(2) [OF Unseen r1 [symmetric]] s1 by (auto simp: fun_upd_def)
      then show ?thesis using "2.hyps" r1 Unseen False by (simp add: dfs.psimps)
    qed
  qed (use 2 in \<open>auto simp: dfs.psimps\<close>)
qed

definition dfs_measure :: "((TxnID \<times> TxnID list) list \<times> TxnID list \<times> (TxnID \<Rightarrow> colour)) rel" where
  "dfs_measure = inv_image (finite_psubset <*lex*> less_than)
     (\<lambda>(g, xs, seen). ({n \<in> nodes g. seen n = Unseen}, length xs))"

lemma dfs_measure_mono:
  assumes "\<And>y. seen y \<noteq> Unseen \<Longrightarrow> seen' y \<noteq> Unseen"
    and "(seen x = Unseen \<and> seen' x \<noteq> Unseen \<and> x \<in> nodes g) \<or> length ys < length xs"
  shows "((g, ys, seen'), (g, xs, seen)) \<in> dfs_measure"
proof -
  have fin: "finite {n \<in> nodes g. seen n = Unseen}" by (simp add: nodes_def)
  have "{n \<in> nodes g. seen' n = Unseen} \<subseteq> {n \<in> nodes g. seen n = Unseen}" using assms(1) by auto
  moreover have "x \<in> nodes g \<Longrightarrow> seen x = Unseen \<Longrightarrow> seen' x \<noteq> Unseen \<Longrightarrow>
      {n \<in> nodes g. seen' n = Unseen} \<noteq> {n \<in> nodes g. seen n = Unseen}" by auto
  ultimately show ?thesis using assms(2) fin by (auto simp: dfs_measure_def)
qed

lemma succs_outside: "x \<notin> nodes g \<Longrightarrow> succs g x = []"
  by (auto simp: succs_def nodes_def split: option.splits dest: map_of_SomeD intro: rev_image_eqI)

termination dfs
proof (relation dfs_measure)
  show "wf dfs_measure" by (simp add: dfs_measure_def wf_lex_prod)
next
  fix g x xs and seen :: "TxnID \<Rightarrow> colour"
  show "((g, xs, seen), (g, x # xs, seen)) \<in> dfs_measure" by (rule dfs_measure_mono [where x = x]) auto
next
  fix g x xs and seen :: "TxnID \<Rightarrow> colour"
  assume "seen x = Unseen"
  then show "((g, succs g x, seen(x := Visiting)), (g, x # xs, seen)) \<in> dfs_measure"
    using succs_outside [of x g] by (cases "x \<in> nodes g") (auto intro: dfs_measure_mono [where x = x] split: if_splits)
next
  fix g x xs and seen s1 :: "TxnID \<Rightarrow> colour" and b
  assume "(b, s1) = dfs g (succs g x) (seen(x := Visiting))"
    and "dfs_dom (g, succs g x, seen(x := Visiting))"
  then have "seen y \<noteq> Unseen \<Longrightarrow> s1 y \<noteq> Unseen" for y
    using dfs_seen_grows [of g "succs g x" "seen(x := Visiting)" y] by (metis fun_upd_apply snd_conv colour.distinct(1))
  then show "((g, xs, s1(x := Done)), (g, x # xs, seen)) \<in> dfs_measure"
    by (intro dfs_measure_mono [where x = x]) auto
qed

definition hasCycle :: "LockManager \<Rightarrow> TxnID \<Rightarrow> bool" where
  "hasCycle lm start = fst (dfs (lmWaitFor lm) [start] (\<lambda>_. Unseen))"

section \<open>The operations\<close>

definition removeWaiter :: "LockManager \<Rightarrow> waiter \<Rightarrow> LockManager" where
  "removeWaiter lm w = lm\<lparr>lmWaiters := filter (\<lambda>x. wId x \<noteq> wId w) (lmWaiters lm)\<rparr>"

definition canGrantW :: "LockManager \<Rightarrow> waiter \<Rightarrow> bool" where
  "canGrantW lm w = (case wRng w of
      Some (s, e) \<Rightarrow> canGrantRange lm (wTxn w) s e (wMode w)
    | None \<Rightarrow> canGrantKey lm (wTxn w) (wKey w) (wMode w))"

definition grantW :: "LockManager \<Rightarrow> waiter \<Rightarrow> LockManager" where
  "grantW lm w = (case wRng w of
      Some (s, e) \<Rightarrow> grantRange lm (wTxn w) s e (wMode w) (wTag w)
    | None \<Rightarrow> grantKey lm (wTxn w) (wKey w) (wMode w) (wTag w))"

definition sendGrant :: "LockManager \<Rightarrow> waiter \<Rightarrow> LockManager" where
  "sendGrant lm w = lm\<lparr>lmSent := wId w # lmSent lm\<rparr>"

text \<open>One round of the loop of \<open>wake\<close>: the state, the kept waiters and \<open>again\<close>.\<close>

fun wakePass :: "waiter list \<Rightarrow> LockManager \<Rightarrow> LockManager \<times> waiter list \<times> bool" where
  "wakePass [] lm = (lm, [], False)"
| "wakePass (w # ws) lm =
     (if \<not> canGrantW lm w
      then (case wakePass ws lm of (lm', kept, again) \<Rightarrow> (lm', w # kept, again))
      else (case wakePass ws (sendGrant (clearWait (grantW lm w) (wTxn w)) w) of
              (lm', kept, again) \<Rightarrow> (lm', kept, True)))"

lemma wakePass_kept:
  "wakePass ws lm = (lm', kept, again) \<Longrightarrow> length kept \<le> length ws \<and> (again \<longrightarrow> length kept < length ws)"
proof (induction ws lm arbitrary: lm' kept again rule: wakePass.induct)
  case (2 w ws lm)
  show ?case
  proof (cases "canGrantW lm w")
    case True
    obtain a b c where "wakePass ws (sendGrant (clearWait (grantW lm w) (wTxn w)) w) = (a, b, c)"
      by (metis prod_cases3)
    then show ?thesis using "2.IH"(2) "2.prems" True by fastforce
  next
    case False
    obtain a b c where "wakePass ws lm = (a, b, c)" by (metis prod_cases3)
    then show ?thesis using "2.IH"(1) "2.prems" False by fastforce
  qed
qed simp

function wakeLoop :: "LockManager \<Rightarrow> LockManager" where
  "wakeLoop lm =
     (case wakePass (lmWaiters lm) lm of
        (lm', kept, again) \<Rightarrow>
          (if again then wakeLoop (lm'\<lparr>lmWaiters := kept\<rparr>) else lm'\<lparr>lmWaiters := kept\<rparr>))"
  by pat_completeness auto
termination
  by (relation "measure (\<lambda>lm. length (lmWaiters lm))") (auto dest!: sym [THEN wakePass_kept])

declare wakeLoop.simps [simp del]

definition refreshAll :: "LockManager \<Rightarrow> LockManager" where
  "refreshAll lm = foldl (\<lambda>lm w. setWait lm (wTxn w) (blockersW lm w)) lm (lmWaiters lm)"

definition wake :: "LockManager \<Rightarrow> LockManager" where
  "wake lm = refreshAll (wakeLoop lm)"

text \<open>What a caller of \<open>AcquireContext\<close> sees before it blocks: the lock, an error, or the
  waiter it hands to \<open>await\<close> with the timeout read under the mutex.\<close>

datatype outcome = Granted | Failed nerr | Waiting waiter int

definition deadlockErr :: nerr where
  "deadlockErr = New Deadlock ''txn.Lock'' ''deadlock detected''"

definition enqueue :: "LockManager \<Rightarrow> waiter \<Rightarrow> TxnID list \<Rightarrow> LockManager \<times> outcome" where
  "enqueue lm w blockers =
     (let lm = lm\<lparr>lmWaiters := lmWaiters lm @ [w], lmNextW := Suc (lmNextW lm)\<rparr>;
          lm = setWait lm (wTxn w) blockers
      in if hasCycle lm (wTxn w)
         then (clearWait (removeWaiter lm w) (wTxn w), Failed deadlockErr)
         else (lm, Waiting w (lmWaitTimeout lm)))"

definition AcquireContext ::
  "nerr option \<Rightarrow> LockManager \<Rightarrow> TxnID \<Rightarrow> bytes \<Rightarrow> Mode \<Rightarrow> string \<Rightarrow> LockManager \<times> outcome" where
  "AcquireContext ctxErr lm t key mode tag =
     (case ctxErr of
        Some err \<Rightarrow> (lm, Failed (Wrap Canceled ''txn.Lock'' ''lock wait canceled'' err))
      | None \<Rightarrow>
          if canGrantKey lm t key mode
          then (refreshWaitsForKey (grantKey lm t key mode tag) key, Granted)
          else enqueue lm \<lparr>wId = lmNextW lm, wTxn = t, wMode = mode, wKey = key, wRng = None, wTag = tag\<rparr>
                 (blockersKey lm t key mode))"

definition AcquireRangeContext ::
  "nerr option \<Rightarrow> LockManager \<Rightarrow> TxnID \<Rightarrow> bytes option \<Rightarrow> bytes option \<Rightarrow> Mode \<Rightarrow> string \<Rightarrow> LockManager \<times> outcome" where
  "AcquireRangeContext ctxErr lm t start end mode tag =
     (case ctxErr of
        Some err \<Rightarrow> (lm, Failed (Wrap Canceled ''txn.Lock'' ''lock wait canceled'' err))
      | None \<Rightarrow>
          if canGrantRange lm t start end mode
          then (refreshWaitsForRange (grantRange lm t start end mode tag) start end, Granted)
          else enqueue lm \<lparr>wId = lmNextW lm, wTxn = t, wMode = mode, wKey = [],
                   wRng = Some (cloneBytes start, cloneBytes end), wTag = tag\<rparr>
                 (blockersRange lm t start end mode))"

definition Acquire :: "LockManager \<Rightarrow> TxnID \<Rightarrow> bytes \<Rightarrow> Mode \<Rightarrow> string \<Rightarrow> LockManager \<times> outcome" where
  "Acquire lm t key mode tag = AcquireContext None lm t key mode tag"

definition AcquireRange ::
  "LockManager \<Rightarrow> TxnID \<Rightarrow> bytes option \<Rightarrow> bytes option \<Rightarrow> Mode \<Rightarrow> string \<Rightarrow> LockManager \<times> outcome" where
  "AcquireRange lm t start end mode tag = AcquireRangeContext None lm t start end mode tag"

definition removeCanceledWaiter :: "LockManager \<Rightarrow> waiter \<Rightarrow> TxnID \<Rightarrow> LockManager \<times> bool" where
  "removeCanceledWaiter lm w t =
     (if list_ex (\<lambda>x. wId x = wId w) (lmWaiters lm)
      then (clearWait (removeWaiter lm w) t, True) else (lm, False))"

text \<open>The event the \<open>select\<close> of \<open>await\<close> takes. Receiving from the channel
  returns what \<open>wake\<close> sent, which is always nil; it blocks (\<open>None\<close>) while nothing
  was sent. The timer case exists only for a positive wait.\<close>

datatype awaitEvent = FromChan | CtxDone nerr | TimerC

definition recvGrant :: "LockManager \<Rightarrow> waiter \<Rightarrow> (LockManager \<times> (nerr + unit)) option" where
  "recvGrant lm w = (if wId w \<in> set (lmSent lm) then Some (lm, Inr ()) else None)"

definition await :: "LockManager \<Rightarrow> awaitEvent \<Rightarrow> waiter \<Rightarrow> TxnID \<Rightarrow> int \<Rightarrow> (LockManager \<times> (nerr + unit)) option" where
  "await lm ev w t wait =
     (case ev of
        FromChan \<Rightarrow> recvGrant lm w
      | CtxDone err \<Rightarrow>
          (case removeCanceledWaiter lm w t of
             (lm', False) \<Rightarrow> recvGrant lm' w
           | (lm', True) \<Rightarrow> Some (lm', Inl (Wrap Canceled ''txn.Lock'' ''lock wait canceled'' err)))
      | TimerC \<Rightarrow>
          if wait \<le> 0 then None
          else (case removeCanceledWaiter lm w t of
             (lm', False) \<Rightarrow> recvGrant lm' w
           | (lm', True) \<Rightarrow> Some (lm', Inl (New Exhausted ''txn.Lock'' ''lock wait timeout exceeded''))))"

definition SetWaitTimeout :: "LockManager \<Rightarrow> int \<Rightarrow> LockManager" where
  "SetWaitTimeout lm d = lm\<lparr>lmWaitTimeout := (if d < 0 then 0 else d)\<rparr>"

definition lockSnapshot :: "LockManager \<Rightarrow> LockInfo list" where
  "lockSnapshot lm =
     concat (map (\<lambda>(k, st). map (\<lambda>(id, mode).
        \<lparr>liTxn = id, liMode = mode, liTag = ksTag st, liRange = False\<rparr>) (ksHolders st)) (lmKeys lm)) @
     map (\<lambda>r. \<lparr>liTxn = hrTxn r, liMode = hrMode r, liTag = hrTag r, liRange = True\<rparr>) (lmRanges lm)"

definition dropTxn :: "LockManager \<Rightarrow> TxnID \<Rightarrow> LockManager" where
  "dropTxn lm t = clearWait
     (lm\<lparr>lmKeys := filter (\<lambda>(k, st). ksHolders st \<noteq> [])
              (map (\<lambda>(k, st). (k, st\<lparr>ksHolders := AList.delete t (ksHolders st)\<rparr>)) (lmKeys lm)),
          lmRanges := filter (\<lambda>r. hrTxn r \<noteq> t) (lmRanges lm)\<rparr>) t"

definition ReleaseAll :: "LockManager \<Rightarrow> TxnID \<Rightarrow> LockManager" where
  "ReleaseAll lm t = wake (dropTxn lm t)"

end
