(* ===== verification/LockGraph.thy ===== *)
theory LockGraph
  imports Locks
begin

text \<open>
  The depth-first search of \<open>hasCycle\<close> decides whether a cycle can be reached in the
  wait-for graph, and the facts on graphs the lock table's deadlock argument uses.
\<close>

definition edges :: "(TxnID \<times> TxnID list) list \<Rightarrow> TxnID rel" where
  "edges g = {(a, b). b \<in> set (succs g a)}"

definition cycle_from :: "(TxnID \<times> TxnID list) list \<Rightarrow> TxnID \<Rightarrow> bool" where
  "cycle_from g x \<longleftrightarrow> (\<exists>c. (x, c) \<in> (edges g)\<^sup>* \<and> (c, c) \<in> (edges g)\<^sup>+)"

definition done_closed :: "(TxnID \<times> TxnID list) list \<Rightarrow> (TxnID \<Rightarrow> colour) \<Rightarrow> bool" where
  "done_closed g s \<longleftrightarrow>
     (\<forall>d. s d = Done \<longrightarrow> (\<forall>y. (d, y) \<in> edges g \<longrightarrow> s y = Done) \<and> (d, d) \<notin> (edges g)\<^sup>+)"

lemma cycle_from_step: "(x, y) \<in> edges g \<Longrightarrow> cycle_from g y \<Longrightarrow> cycle_from g x"
  unfolding cycle_from_def by (meson converse_rtrancl_into_rtrancl)

lemma done_closed_reach:
  assumes "done_closed g s" and "(d, y) \<in> (edges g)\<^sup>*" and "s d = Done"
  shows "s y = Done"
  using assms(2) by (induction rule: rtrancl_induct) (use assms in \<open>auto simp: done_closed_def\<close>)

lemma done_closed_finish:
  assumes dc: "done_closed g s" and x: "s x = Visiting" and succ: "\<forall>y \<in> set (succs g x). s y = Done"
  shows "done_closed g (s(x := Done))"
proof -
  have "(x, x) \<notin> (edges g)\<^sup>+"
  proof
    assume "(x, x) \<in> (edges g)\<^sup>+"
    then obtain y where "(x, y) \<in> edges g" "(y, x) \<in> (edges g)\<^sup>*" by (meson tranclD)
    then have "s x = Done" using done_closed_reach [OF dc] succ by (auto simp: edges_def)
    with x show False by simp
  qed
  then show ?thesis using dc succ by (auto simp: done_closed_def edges_def)
qed

lemma dfs_visiting:
  "dfs g xs seen = (False, s') \<Longrightarrow> s' v = Visiting \<longleftrightarrow> seen v = Visiting"
proof (induction g xs seen arbitrary: s' rule: dfs.induct)
  case (2 g x xs seen)
  obtain b1 s1 where r1: "dfs g (succs g x) (seen(x := Visiting)) = (b1, s1)" by fastforce
  show ?case
  proof (cases "seen x")
    case Unseen
    then have nb: "\<not> b1" and r2: "dfs g xs (s1(x := Done)) = (False, s')"
      using "2.prems" r1 by (auto split: bool.splits)
    then have r1': "dfs g (succs g x) (seen(x := Visiting)) = (False, s1)" using r1 by simp
    have "s1 v = Visiting \<longleftrightarrow> (seen(x := Visiting)) v = Visiting"
      using r1' by (rule "2.IH"(1) [OF Unseen])
    moreover have "s' v = Visiting \<longleftrightarrow> (s1(x := Done)) v = Visiting"
      by (rule "2.IH"(2) [OF Unseen r1 [symmetric] _ r2]) (use nb in simp)
    ultimately show ?thesis using Unseen by auto
  next
    case Done
    then show ?thesis using "2.IH"(3) [of s'] "2.prems" by simp
  next
    case Visiting
    then show ?thesis using "2.prems" by simp
  qed
qed simp

lemma dfs_finds:
  "dfs g xs seen = (True, s') \<Longrightarrow>
   (\<And>v x. seen v = Visiting \<Longrightarrow> x \<in> set xs \<Longrightarrow> (v, x) \<in> (edges g)\<^sup>+) \<Longrightarrow>
   \<exists>x \<in> set xs. cycle_from g x"
proof (induction g xs seen arbitrary: s' rule: dfs.induct)
  case (2 g x xs seen)
  obtain b1 s1 where r1: "dfs g (succs g x) (seen(x := Visiting)) = (b1, s1)" by fastforce
  show ?case
  proof (cases "seen x")
    case Visiting
    then show ?thesis using "2.prems"(2) by (auto simp: cycle_from_def)
  next
    case Done
    then show ?thesis using "2.IH"(3) [OF Done, of s'] "2.prems" by auto
  next
    case Unseen
    show ?thesis
    proof (cases b1)
      case True
      have "(v, y) \<in> (edges g)\<^sup>+" if "(seen(x := Visiting)) v = Visiting" "y \<in> set (succs g x)" for v y
      proof (cases "v = x")
        case True
        then show ?thesis using that by (auto simp: edges_def)
      next
        case False
        then have "(v, x) \<in> (edges g)\<^sup>+" using that "2.prems"(2) [of v x] by simp
        moreover have "(x, y) \<in> edges g" using that by (simp add: edges_def)
        ultimately show ?thesis by (rule trancl_into_trancl)
      qed
      moreover have "dfs g (succs g x) (seen(x := Visiting)) = (True, s1)" using r1 True by simp
      ultimately have "\<exists>y \<in> set (succs g x). cycle_from g y" by (intro "2.IH"(1) [OF Unseen])
      then show ?thesis using cycle_from_step by (auto simp: edges_def)
    next
      case False
      then have "(s1(x := Done)) v = Visiting \<Longrightarrow> seen v = Visiting" for v
        using dfs_visiting [of g "succs g x" "seen(x := Visiting)" s1 v] r1 by (auto split: if_splits)
      moreover have "dfs g xs (s1(x := Done)) = (True, s')" using "2.prems"(1) r1 False Unseen by simp
      ultimately have "\<exists>y \<in> set xs. cycle_from g y"
        using "2.IH"(2) [OF Unseen r1 [symmetric] _ , of s'] "2.prems"(2) False by (meson list.set_intros(2))
      then show ?thesis by auto
    qed
  qed
qed simp

lemma dfs_exhausts:
  "dfs g xs seen = (False, s') \<Longrightarrow> done_closed g seen \<Longrightarrow>
   done_closed g s' \<and> (\<forall>x \<in> set xs. s' x = Done) \<and> (\<forall>d. seen d = Done \<longrightarrow> s' d = Done)"
proof (induction g xs seen arbitrary: s' rule: dfs.induct)
  case (2 g x xs seen)
  obtain b1 s1 where r1: "dfs g (succs g x) (seen(x := Visiting)) = (b1, s1)" by fastforce
  show ?case
  proof (cases "seen x")
    case Unseen
    then have nb: "\<not> b1" and r2: "dfs g xs (s1(x := Done)) = (False, s')"
      using "2.prems" r1 by (auto split: bool.splits)
    then have r1': "dfs g (succs g x) (seen(x := Visiting)) = (False, s1)" using r1 by simp
    have "done_closed g (seen(x := Visiting))"
      using "2.prems"(2) Unseen by (auto simp: done_closed_def)
    then have s1: "done_closed g s1" "\<forall>y \<in> set (succs g x). s1 y = Done"
        "\<forall>d. (seen(x := Visiting)) d = Done \<longrightarrow> s1 d = Done"
      using "2.IH"(1) [OF Unseen r1'] by (simp_all del: fun_upd_apply)
    have "s1 x = Visiting" using dfs_visiting [of g "succs g x" "seen(x := Visiting)" s1 x] r1 nb by simp
    then have "done_closed g (s1(x := Done))" using done_closed_finish s1 by blast
    then have *: "done_closed g s'" "\<forall>y \<in> set xs. s' y = Done" "\<forall>d. (s1(x := Done)) d = Done \<longrightarrow> s' d = Done"
      using "2.IH"(2) [OF Unseen r1 [symmetric] _ r2] nb by (simp_all del: fun_upd_apply)
    then have "s' x = Done" by simp
    moreover have "s' d = Done" if "seen d = Done" for d
    proof -
      have "d \<noteq> x" using that Unseen by auto
      then show ?thesis using that s1(3) *(3) by simp
    qed
    ultimately show ?thesis using * by simp
  next
    case Done
    then have "dfs g xs seen = (False, s')" using "2.prems"(1) by simp
    then show ?thesis using "2.IH"(3) [OF Done, of s'] "2.prems"(2) Done by (metis set_ConsD)
  next
    case Visiting
    then show ?thesis using "2.prems" by simp
  qed
qed simp

lemma dfs_decides: "fst (dfs g [x] (\<lambda>_. Unseen)) \<longleftrightarrow> cycle_from g x"
proof -
  obtain b s where r: "dfs g [x] (\<lambda>_. Unseen) = (b, s)" by fastforce
  show ?thesis
  proof (cases b)
    case True
    then have "dfs g [x] (\<lambda>_. Unseen) = (True, s)" using r by simp
    from dfs_finds [OF this] have "cycle_from g x" by simp
    then show ?thesis using r True by (simp del: dfs.simps)
  next
    case False
    then have "dfs g [x] (\<lambda>_. Unseen) = (False, s)" using r by simp
    from dfs_exhausts [OF this] have "done_closed g s" "s x = Done" by (simp_all add: done_closed_def)
    then have "\<not> cycle_from g x"
      using done_closed_reach [of g s x] unfolding cycle_from_def done_closed_def by blast
    then show ?thesis using r False by (simp del: dfs.simps)
  qed
qed

section \<open>Keeping the graph acyclic\<close>

text \<open>New edges that end in nodes without outgoing edges cannot close a cycle.\<close>

lemma acyclic_sinks:
  assumes "acyclic E" and new: "\<And>a b. (a, b) \<in> E' \<Longrightarrow> (a, b) \<in> E \<or> b \<notin> Domain E'"
  shows "acyclic E'"
proof (rule ccontr)
  assume "\<not> acyclic E'"
  then obtain x where x: "(x, x) \<in> E'\<^sup>+" by (auto simp: acyclic_def)
  then have "x \<in> Domain E'" by (meson DomainI tranclD)
  have "(a, b) \<in> E'\<^sup>+ \<Longrightarrow> b \<in> Domain E' \<Longrightarrow> (a, b) \<in> E\<^sup>+" for a b
  proof (induction rule: trancl_induct)
    case (step y z)
    then have "(a, y) \<in> E\<^sup>+" by blast
    then show ?case using step new by (meson trancl_into_trancl)
  qed (use new in blast)
  with x \<open>x \<in> Domain E'\<close> assms(1) show False by (auto simp: acyclic_def)
qed

text \<open>Edges added from one node: every cycle passes through that node.\<close>

lemma cycle_through:
  assumes "acyclic E" and "\<not> acyclic (E \<union> {t} \<times> B)"
  shows "(t, t) \<in> (E \<union> {t} \<times> B)\<^sup>+"
proof -
  let ?E = "E \<union> {t} \<times> B"
  obtain x where x: "(x, x) \<in> ?E\<^sup>+" using assms(2) by (auto simp: acyclic_def)
  have "(a, b) \<in> ?E\<^sup>+ \<Longrightarrow> (a, b) \<in> E\<^sup>+ \<or> (a, t) \<in> ?E\<^sup>* \<and> (t, b) \<in> ?E\<^sup>+" for a b
  proof (induction rule: trancl_induct)
    case (base y)
    then show ?case by auto
  next
    case (step y z)
    from step.IH show ?case
    proof
      assume y: "(a, y) \<in> E\<^sup>+"
      show ?thesis
      proof (cases "(y, z) \<in> E")
        case True
        then show ?thesis using y by (blast intro: trancl_into_trancl)
      next
        case False
        then have "y = t" and "(t, z) \<in> ?E\<^sup>+" using step.hyps(2) by auto
        then show ?thesis using step.hyps(1) by (blast intro: trancl_into_rtrancl)
      qed
    qed (use step.hyps(2) in \<open>blast intro: trancl_into_trancl\<close>)
  qed
  then have "(x, t) \<in> ?E\<^sup>* \<and> (t, x) \<in> ?E\<^sup>+" using x assms(1) by (auto simp: acyclic_def)
  then show ?thesis by (meson trancl_rtrancl_trancl)
qed

lemma acyclic_from_node:
  assumes "acyclic E" and "E' = E \<union> {t} \<times> B"
    and "\<not> (\<exists>c. (t, c) \<in> E'\<^sup>* \<and> (c, c) \<in> E'\<^sup>+)"
  shows "acyclic E'"
  using cycle_through [OF assms(1), of t B] assms(2,3) by blast

text \<open>In a finite acyclic graph some node with successors points only at nodes without.\<close>

lemma acyclic_has_last:
  assumes "finite E" and "acyclic E" and "E \<noteq> {}"
  shows "\<exists>a \<in> Domain E. \<forall>b. (a, b) \<in> E \<longrightarrow> b \<notin> Domain E"
proof -
  have "wf (E\<inverse>)" using assms(1,2) by (rule finite_acyclic_wf_converse)
  moreover obtain x where "x \<in> Domain E" using assms(3) by auto
  ultimately obtain a where "a \<in> Domain E" "\<And>b. (b, a) \<in> E\<inverse> \<Longrightarrow> b \<notin> Domain E"
    using wfE_min by metis
  then show ?thesis by blast
qed

section \<open>Rows of the wait-for map\<close>

lemma edges_setWait [simp]:
  "edges (lmWaitFor (setWait lm t bs)) = {e \<in> edges (lmWaitFor lm). fst e \<noteq> t} \<union> {t} \<times> set bs"
  by (auto simp: setWait_def edges_def succs_def update_conv' split: if_splits)

lemma edges_clearWait [simp]:
  "edges (lmWaitFor (clearWait lm t)) = {e \<in> edges (lmWaitFor lm). fst e \<noteq> t}"
  by (auto simp: clearWait_def edges_def succs_def delete_conv' restrict_map_def split: if_splits option.splits)

lemma finite_edges: "finite (edges g)"
proof -
  have "edges g \<subseteq> fst ` set g \<times> (\<Union>(k, ys) \<in> set g. set ys)"
  proof clarify
    fix a b
    assume "(a, b) \<in> edges g"
    then obtain ys where "map_of g a = Some ys" "b \<in> set ys"
      by (cases "map_of g a") (auto simp: edges_def succs_def)
    then show "a \<in> fst ` set g \<and> b \<in> (\<Union>(k, ys) \<in> set g. set ys)"
      by (auto dest!: map_of_SomeD intro: rev_image_eqI)
  qed
  then show ?thesis by (rule finite_subset) auto
qed

end
