(* ===== verification/LockInv.thy ===== *)
theory LockInv
  imports LockGraph
begin

text \<open>
  The abstract view of the lock table: a set of held locks, each a transaction, a mode and
  the span of keys it covers. Key requests and range requests answer to one contract, the
  locale \<open>lock_request\<close>, in which granting is shown to keep exclusion and the wait-for
  graph; both kinds of request interpret it.
\<close>

datatype span = KeySpan bytes | RangeSpan "bytes option" "bytes option"

type_synonym lock = "TxnID \<times> Mode \<times> span"

fun meets :: "span \<Rightarrow> span \<Rightarrow> bool" where
  "meets (KeySpan k) (KeySpan k') \<longleftrightarrow> k = k'"
| "meets (KeySpan k) (RangeSpan s e) \<longleftrightarrow> inRange k s e"
| "meets (RangeSpan s e) (KeySpan k) \<longleftrightarrow> inRange k s e"
| "meets (RangeSpan s e) (RangeSpan s' e') \<longleftrightarrow> rangeOverlap s e s' e'"

fun covers :: "span \<Rightarrow> bytes \<Rightarrow> bool" where
  "covers (KeySpan k') k \<longleftrightarrow> k = k'"
| "covers (RangeSpan s e) k \<longleftrightarrow> inRange k s e"

fun normal :: "span \<Rightarrow> bool" where
  "normal (KeySpan k) \<longleftrightarrow> True"
| "normal (RangeSpan s e) \<longleftrightarrow> s \<noteq> Some [] \<and> e \<noteq> Some []"

definition held :: "LockManager \<Rightarrow> lock set" where
  "held lm = {(t, m, KeySpan k) | t m k. (t, m) \<in> set (holdersOf lm k)} \<union>
     (\<lambda>r. (hrTxn r, hrMode r, RangeSpan (hrStart r) (hrEnd r))) ` set (lmRanges lm)"

definition spanW :: "waiter \<Rightarrow> span" where
  "spanW w = (case wRng w of None \<Rightarrow> KeySpan (wKey w) | Some (s, e) \<Rightarrow> RangeSpan s e)"

definition lockW :: "waiter \<Rightarrow> lock" where
  "lockW w = (wTxn w, wMode w, spanW w)"

definition blocking :: "lock set \<Rightarrow> TxnID \<Rightarrow> span \<Rightarrow> Mode \<Rightarrow> TxnID set" where
  "blocking H t sp m = {t'. t' \<noteq> t \<and> (\<exists>m' sp'. (t', m', sp') \<in> H \<and> meets sp sp' \<and> conflictM m' m)}"

definition exclusion :: "lock set \<Rightarrow> bool" where
  "exclusion H \<longleftrightarrow> (\<forall>t m sp t' m' sp'. (t, m, sp) \<in> H \<longrightarrow> (t', m', sp') \<in> H \<longrightarrow> t \<noteq> t' \<longrightarrow>
     meets sp sp' \<longrightarrow> \<not> conflictM m m')"

fun held_after :: "lock set \<Rightarrow> TxnID \<Rightarrow> span \<Rightarrow> Mode \<Rightarrow> lock set" where
  "held_after H t (KeySpan k) m = insert (t, m, KeySpan k) (H - {t} \<times> UNIV \<times> {KeySpan k})"
| "held_after H t (RangeSpan s e) m = insert (t, m, RangeSpan s e) H"

definition wgraph :: "lock set \<Rightarrow> waiter list \<Rightarrow> TxnID rel" where
  "wgraph H ws = {(wTxn w, b) | w b. w \<in> set ws \<and> b \<in> blocking H (wTxn w) (spanW w) (wMode w)}"

definition lm_wf :: "LockManager \<Rightarrow> bool" where
  "lm_wf lm \<longleftrightarrow> distinct (map fst (lmKeys lm)) \<and>
     (\<forall>(k, st) \<in> set (lmKeys lm). distinct (map fst (ksHolders st))) \<and>
     (\<forall>r \<in> set (lmRanges lm). normal (RangeSpan (hrStart r) (hrEnd r)))"

definition waiters_ok :: "LockManager \<Rightarrow> waiter list \<Rightarrow> bool" where
  "waiters_ok lm ws \<longleftrightarrow> distinct (map wId ws) \<and> distinct (map wTxn ws) \<and>
     (\<forall>w \<in> set ws. normal (spanW w) \<and> wId w < lmNextW lm \<and> wId w \<notin> set (lmSent lm)) \<and>
     (\<forall>i \<in> set (lmSent lm). i < lmNextW lm)"

definition lm_inv :: "LockManager \<Rightarrow> bool" where
  "lm_inv lm \<longleftrightarrow> lm_wf lm \<and> exclusion (held lm) \<and> waiters_ok lm (lmWaiters lm) \<and>
     edges (lmWaitFor lm) = wgraph (held lm) (lmWaiters lm) \<and> acyclic (edges (lmWaitFor lm))"

definition waitingTxn :: "LockManager \<Rightarrow> TxnID \<Rightarrow> bool" where
  "waitingTxn lm t \<longleftrightarrow> t \<in> wTxn ` set (lmWaiters lm)"

section \<open>Spans\<close>

lemma not_Exclusive [simp]: "m \<noteq> Exclusive \<longleftrightarrow> m = Shared"
  by (cases m) auto

lemma conflictM_sym: "conflictM a b = conflictM b a"
  by (auto simp: conflictM_def)

lemma meets_sym: "meets a b = meets b a"
  by (cases a; cases b) (auto simp: rangeOverlap_def split: option.splits if_splits)

lemma covers_meets: "covers a k \<Longrightarrow> covers b k \<Longrightarrow> meets a b"
  by (cases a; cases b) (auto simp: rangeOverlap_def inRange_def split: option.splits if_splits)

lemma cloneBytes_normal [simp]: "cloneBytes b \<noteq> Some []"
  by (auto simp: cloneBytes_def split: option.splits)

lemma cloneBytes_id [simp]: "b \<noteq> Some [] \<Longrightarrow> cloneBytes b = b"
  by (auto simp: cloneBytes_def split: option.splits)

lemma inRange_clone: "e \<noteq> Some [] \<Longrightarrow> inRange k (cloneBytes s) (cloneBytes e) = inRange k s e"
  by (auto simp: cloneBytes_def inRange_def split: option.splits)

lemma rangeOverlap_clone:
  "e \<noteq> Some [] \<Longrightarrow> e' \<noteq> Some [] \<Longrightarrow> rangeOverlap (cloneBytes s) (cloneBytes e) s' e' = rangeOverlap s e s' e'"
  by (auto simp: cloneBytes_def rangeOverlap_def split: option.splits)

section \<open>Held locks\<close>

lemma exclusion_mono: "exclusion H \<Longrightarrow> H' \<subseteq> H \<Longrightarrow> exclusion H'"
  unfolding exclusion_def by blast

lemma held_after_subset: "held_after H t sp m \<subseteq> insert (t, m, sp) H"
  by (cases sp) auto

lemma exclusion_held_after:
  assumes ex: "exclusion H" and free: "blocking H t sp m = {}"
  shows "exclusion (held_after H t sp m)"
proof -
  have new: "\<not> conflictM m' m" if "(t', m', sp') \<in> H" "t' \<noteq> t" "meets sp sp'" for t' m' sp'
    using that free unfolding blocking_def by blast
  have "exclusion (insert (t, m, sp) H)"
    unfolding exclusion_def
  proof (intro allI impI)
    fix t1 m1 s1 t2 m2 s2
    assume l: "(t1, m1, s1) \<in> insert (t, m, sp) H" "(t2, m2, s2) \<in> insert (t, m, sp) H"
      and ne: "t1 \<noteq> t2" and me: "meets s1 s2"
    then consider "(t1, m1, s1) \<in> H" "(t2, m2, s2) \<in> H" | "(t1, m1, s1) = (t, m, sp)" "(t2, m2, s2) \<in> H"
      | "(t2, m2, s2) = (t, m, sp)" "(t1, m1, s1) \<in> H" by blast
    then show "\<not> conflictM m1 m2"
    proof cases
      case 1
      then show ?thesis using ex ne me unfolding exclusion_def by blast
    next
      case 2
      then show ?thesis using new [of t2 m2 s2] ne me conflictM_sym [of m1 m2] by simp
    next
      case 3
      then show ?thesis using new [of t1 m1 s1] ne me meets_sym [of s1 s2] by simp
    qed
  qed
  then show ?thesis using held_after_subset by (rule exclusion_mono)
qed

lemma held_after_new: "(t, m, sp) \<in> held_after H t sp m"
  by (cases sp) auto

lemma held_after_keeps: "(t', m', sp') \<in> H \<Longrightarrow> t' \<noteq> t \<Longrightarrow> (t', m', sp') \<in> held_after H t sp m"
  by (cases sp) auto

lemma blocking_held_after:
  "\<not> meets sp' sp \<Longrightarrow> blocking (held_after H t sp m) t' sp' m' = blocking H t' sp' m'"
  by (cases sp) (auto simp: blocking_def)

lemma blocking_held_after_subset:
  "blocking (held_after H t sp m) t' sp' m' \<subseteq> insert t (blocking H t' sp' m')"
  using held_after_subset by (fastforce simp: blocking_def)

lemma holders_in_keys:
  "lm_wf lm \<Longrightarrow> (\<exists>k st. (k, st) \<in> set (lmKeys lm) \<and> (t, m) \<in> set (ksHolders st) \<and> P k) \<longleftrightarrow>
     (\<exists>k. (t, m) \<in> set (holdersOf lm k) \<and> P k)"
  by (auto simp: lm_wf_def holdersOf_def split: option.splits)

lemma set_foldl_addBlocker: "set (foldl (addBlocker self) out ts) = set out \<union> (set ts - {self})"
  by (induction ts arbitrary: out) (auto simp: addBlocker_def)

lemma held_update_simps [simp]:
  "held (lmWaitFor_update f lm) = held lm" "held (lmWaiters_update h lm) = held lm"
  "held (lmNextW_update i lm) = held lm" "held (lmSent_update j lm) = held lm"
  "held (lmWaitTimeout_update k lm) = held lm"
  "lm_wf (lmWaitFor_update f lm) = lm_wf lm" "lm_wf (lmWaiters_update h lm) = lm_wf lm"
  "lm_wf (lmNextW_update i lm) = lm_wf lm" "lm_wf (lmSent_update j lm) = lm_wf lm"
  "lm_wf (lmWaitTimeout_update k lm) = lm_wf lm"
  by (simp_all add: held_def holdersOf_def lm_wf_def)

lemma held_setWait [simp]: "held (setWait lm t bs) = held lm" "lm_wf (setWait lm t bs) = lm_wf lm"
  "held (clearWait lm t) = held lm" "lm_wf (clearWait lm t) = lm_wf lm"
  "held (sendGrant lm w) = held lm" "lm_wf (sendGrant lm w) = lm_wf lm"
  by (simp_all add: setWait_def clearWait_def sendGrant_def)

lemma held_lock:
  "(t, m, sp) \<in> held lm \<longleftrightarrow> (\<exists>k. sp = KeySpan k \<and> (t, m) \<in> set (holdersOf lm k)) \<or>
     (\<exists>r \<in> set (lmRanges lm). t = hrTxn r \<and> m = hrMode r \<and> sp = RangeSpan (hrStart r) (hrEnd r))"
  by (auto simp: held_def)

lemma blocking_held:
  "blocking (held lm) t sp m = {t'. t' \<noteq> t \<and>
     ((\<exists>k m'. (t', m') \<in> set (holdersOf lm k) \<and> meets sp (KeySpan k) \<and> conflictM m' m) \<or>
      (\<exists>r \<in> set (lmRanges lm). t' = hrTxn r \<and> meets sp (RangeSpan (hrStart r) (hrEnd r)) \<and> conflictM (hrMode r) m))}"
  unfolding blocking_def held_lock by blast

lemma blockersKey_set: "set (blockersKey lm t k m) = blocking (held lm) t (KeySpan k) m"
proof -
  have "t' \<in> set (blockersKey lm t k m) \<longleftrightarrow> t' \<noteq> t \<and> ((\<exists>m'. (t', m') \<in> set (holdersOf lm k) \<and> conflictM m' m) \<or>
      (\<exists>r \<in> set (lmRanges lm). t' = hrTxn r \<and> inRange k (hrStart r) (hrEnd r) \<and> conflictM (hrMode r) m))" for t'
    by (auto simp: blockersKey_def set_foldl_addBlocker image_iff)
  then show ?thesis unfolding blocking_held by auto
qed

lemma canGrantKey_iff: "canGrantKey lm t k m \<longleftrightarrow> blocking (held lm) t (KeySpan k) m = {}"
proof -
  have "canGrantKey lm t k m \<longleftrightarrow> (\<forall>t' m'. (t', m') \<in> set (holdersOf lm k) \<longrightarrow> t' = t \<or> \<not> conflictM m' m) \<and>
      (\<forall>r \<in> set (lmRanges lm). hrTxn r = t \<or> \<not> inRange k (hrStart r) (hrEnd r) \<or> \<not> conflictM (hrMode r) m)"
    unfolding canGrantKey_def list_all_iff by blast
  then show ?thesis unfolding blocking_held by auto
qed

lemma wf_ranges: "lm_wf lm \<Longrightarrow> r \<in> set (lmRanges lm) \<Longrightarrow> hrStart r \<noteq> Some [] \<and> hrEnd r \<noteq> Some []"
  by (auto simp: lm_wf_def)

lemma blocking_range:
  assumes "lm_wf lm" and "e \<noteq> Some []"
  shows "blocking (held lm) t (RangeSpan (cloneBytes s) (cloneBytes e)) m =
    {t'. t' \<noteq> t \<and> ((\<exists>m' k st. (k, st) \<in> set (lmKeys lm) \<and> (t', m') \<in> set (ksHolders st) \<and> inRange k s e \<and> conflictM m' m) \<or>
       (\<exists>r \<in> set (lmRanges lm). t' = hrTxn r \<and> rangeOverlap s e (hrStart r) (hrEnd r) \<and> conflictM (hrMode r) m))}"
proof -
  have k: "(\<exists>m' k st. (k, st) \<in> set (lmKeys lm) \<and> (t', m') \<in> set (ksHolders st) \<and> inRange k s e \<and> conflictM m' m) \<longleftrightarrow>
      (\<exists>k m'. (t', m') \<in> set (holdersOf lm k) \<and> inRange k s e \<and> conflictM m' m)" for t'
    using holders_in_keys [OF assms(1), of t' _ "\<lambda>k. inRange k s e \<and> conflictM _ m"] by blast
  show ?thesis unfolding blocking_held k using wf_ranges [OF assms(1)] assms(2)
    by (simp add: inRange_clone rangeOverlap_clone del: cloneBytes_id cong: bex_cong)
qed

lemma blockersRange_set:
  assumes "lm_wf lm" and "e \<noteq> Some []"
  shows "set (blockersRange lm t s e m) = blocking (held lm) t (RangeSpan (cloneBytes s) (cloneBytes e)) m"
proof -
  have "t' \<in> set (blockersRange lm t s e m) \<longleftrightarrow> t' \<noteq> t \<and>
     ((\<exists>x \<in> set (lmKeys lm). inRange (fst x) s e \<and> (\<exists>m'. (t', m') \<in> set (ksHolders (snd x)) \<and> conflictM m' m)) \<or>
      (\<exists>r \<in> set (lmRanges lm). t' = hrTxn r \<and> rangeOverlap s e (hrStart r) (hrEnd r) \<and> conflictM (hrMode r) m))" for t'
    by (auto simp: blockersRange_def set_foldl_addBlocker image_iff split_beta split: if_splits)
  then have "set (blockersRange lm t s e m) = {t'. t' \<noteq> t \<and>
     ((\<exists>x \<in> set (lmKeys lm). inRange (fst x) s e \<and> (\<exists>m'. (t', m') \<in> set (ksHolders (snd x)) \<and> conflictM m' m)) \<or>
      (\<exists>r \<in> set (lmRanges lm). t' = hrTxn r \<and> rangeOverlap s e (hrStart r) (hrEnd r) \<and> conflictM (hrMode r) m))}"
    by blast
  then show ?thesis unfolding blocking_range [OF assms] Bex_def split_paired_Ex fst_conv snd_conv by blast
qed

lemma canGrantRange_iff:
  assumes "lm_wf lm" and "e \<noteq> Some []"
  shows "canGrantRange lm t s e m \<longleftrightarrow> blocking (held lm) t (RangeSpan (cloneBytes s) (cloneBytes e)) m = {}"
proof -
  have "canGrantRange lm t s e m \<longleftrightarrow>
     (\<forall>k st t' m'. (k, st) \<in> set (lmKeys lm) \<longrightarrow> (t', m') \<in> set (ksHolders st) \<longrightarrow> \<not> inRange k s e \<or> t' = t \<or> \<not> conflictM m' m) \<and>
     (\<forall>r \<in> set (lmRanges lm). hrTxn r = t \<or> \<not> rangeOverlap s e (hrStart r) (hrEnd r) \<or> \<not> conflictM (hrMode r) m)"
    unfolding canGrantRange_def list_all_iff by blast
  then show ?thesis unfolding blocking_range [OF assms] by blast
qed

section \<open>Granting and releasing\<close>

lemma holdersOf_grantKey:
  "holdersOf (grantKey lm t k m tag) k' =
     (if k' = k then (if map_of (holdersOf lm k) t = Some Shared \<and> m = Shared then holdersOf lm k
        else AList.update t m (holdersOf lm k)) else holdersOf lm k')"
  by (cases m; cases "map_of (lmKeys lm) k")
     (auto simp: grantKey_def holdersOf_def Let_def update_conv' split: option.splits Mode.splits)

lemma wf_holders: "lm_wf lm \<Longrightarrow> distinct (map fst (holdersOf lm k))"
  by (auto simp: lm_wf_def holdersOf_def split: option.splits dest: map_of_SomeD)

lemma set_AList_update: "x \<in> set (AList.update k v kvs) \<Longrightarrow> x = (k, v) \<or> x \<in> set kvs"
  by (induction kvs) (auto split: if_splits)

lemma lm_wf_update:
  "lm_wf lm \<Longrightarrow> distinct (map fst (ksHolders st)) \<Longrightarrow> lm_wf (lm\<lparr>lmKeys := AList.update k st (lmKeys lm)\<rparr>)"
  by (auto simp: lm_wf_def distinct_update dest!: set_AList_update)

lemma lm_wf_grantKey:
  assumes "lm_wf lm"
  shows "lm_wf (grantKey lm t k m tag)"
proof -
  obtain st where g: "grantKey lm t k m tag = lm\<lparr>lmKeys := AList.update k st (lmKeys lm)\<rparr>"
    by (simp add: grantKey_def Let_def)
  then have "ksHolders st = holdersOf (grantKey lm t k m tag) k" by (simp add: holdersOf_def update_conv')
  then have "distinct (map fst (ksHolders st))"
    using wf_holders [OF assms, of k] by (simp add: holdersOf_grantKey distinct_update)
  then show ?thesis unfolding g by (rule lm_wf_update [OF assms])
qed

lemma held_grantKey:
  assumes "lm_wf lm"
  shows "held (grantKey lm t k m tag) = held_after (held lm) t (KeySpan k) m"
proof -
  have u: "distinct (map fst al) \<Longrightarrow> (t', m') \<in> set (AList.update t m al) \<longleftrightarrow>
      (if t' = t then m' = m else (t', m') \<in> set al)" for al :: "(TxnID \<times> Mode) list" and t' m'
    using distinct_update [of al t m] by (metis map_of_eq_Some_iff update_conv' fun_upd_apply option.inject)
  have h: "(t', m') \<in> set (holdersOf (grantKey lm t k m tag) k') \<longleftrightarrow>
      (if k' = k \<and> t' = t then m' = m else (t', m') \<in> set (holdersOf lm k'))" for t' m' k'
    using u [OF wf_holders [OF assms]] wf_holders [OF assms, of k]
    by (auto simp: holdersOf_grantKey map_of_eq_Some_iff eq_key_imp_eq_value)
  have r: "lmRanges (grantKey lm t k m tag) = lmRanges lm" by (simp add: grantKey_def Let_def)
  have "(t', m', sp) \<in> held (grantKey lm t k m tag) \<longleftrightarrow> (t', m', sp) \<in> held_after (held lm) t (KeySpan k) m" for t' m' sp
    by (cases sp) (auto simp: held_lock h r)
  then show ?thesis by auto
qed

lemma held_grantRange:
  "held (grantRange lm t s e m tag) = held_after (held lm) t (RangeSpan (cloneBytes s) (cloneBytes e)) m"
  by (auto simp: held_def grantRange_def holdersOf_def)

lemma lm_wf_grantRange: "lm_wf lm \<Longrightarrow> lm_wf (grantRange lm t s e m tag)"
  by (auto simp: lm_wf_def grantRange_def)

lemma map_of_filter_map:
  assumes "distinct (map fst al)"
  shows "map_of (filter (\<lambda>(k, v). P v) (map (\<lambda>(k, v). (k, f v)) al)) k =
    (case map_of al k of None \<Rightarrow> None | Some v \<Rightarrow> if P (f v) then Some (f v) else None)"
  using assms by (induction al) (auto split: option.splits simp: image_iff map_of_eq_None_iff)

lemma holdersOf_dropTxn:
  assumes "lm_wf lm"
  shows "holdersOf (dropTxn lm t) k = AList.delete t (holdersOf lm k)"
proof -
  have "distinct (map fst (lmKeys lm))" using assms by (simp add: lm_wf_def)
  from map_of_filter_map [OF this, of "\<lambda>st. ksHolders st \<noteq> []"
      "\<lambda>st. st\<lparr>ksHolders := AList.delete t (ksHolders st)\<rparr>" k]
  show ?thesis by (auto simp: holdersOf_def dropTxn_def clearWait_def split: option.splits)
qed

lemma held_dropTxn: "lm_wf lm \<Longrightarrow> held (dropTxn lm t) = {l \<in> held lm. fst l \<noteq> t}"
proof -
  assume wf: "lm_wf lm"
  have r: "lmRanges (dropTxn lm t) = filter (\<lambda>r. hrTxn r \<noteq> t) (lmRanges lm)"
    by (simp add: dropTxn_def clearWait_def)
  show ?thesis unfolding held_def holdersOf_dropTxn [OF wf] r by (auto simp: AList.delete_eq)
qed

lemma lm_wf_dropTxn:
  assumes "lm_wf lm"
  shows "lm_wf (dropTxn lm t)"
proof -
  let ?f = "\<lambda>(k, st). (k, st\<lparr>ksHolders := AList.delete t (ksHolders st)\<rparr>)"
  have "map fst (map ?f (lmKeys lm)) = map fst (lmKeys lm)" by auto
  then have "distinct (map fst (map ?f (lmKeys lm)))" using assms unfolding lm_wf_def by presburger
  then have "distinct (map fst (filter (\<lambda>(k, st). ksHolders st \<noteq> []) (map ?f (lmKeys lm))))"
    by (rule distinct_map_filter)
  then show ?thesis
    using assms unfolding lm_wf_def dropTxn_def clearWait_def by (fastforce simp: distinct_delete)
qed

end
