(* ===== verification/LockSteps.thy ===== *)
theory LockSteps
  imports LockInv
begin

text \<open>
  Every atomic section of the lock table keeps its invariant: exclusion of conflicting
  holders, a wait-for map that equals the true waits-for relation, and no cycle in it. The
  step relation interleaves the sections of any number of transactions.
\<close>

section \<open>Refreshing the wait-for map\<close>

definition refreshP :: "(waiter \<Rightarrow> bool) \<Rightarrow> LockManager \<Rightarrow> waiter list \<Rightarrow> LockManager" where
  "refreshP P lm ws = foldl (\<lambda>lm w. if P w then setWait lm (wTxn w) (blockersW lm w) else lm) lm ws"

lemma refreshAll_P: "refreshAll lm = refreshP (\<lambda>_. True) lm (lmWaiters lm)"
  by (simp add: refreshAll_def refreshP_def)

lemma refreshWaitsForKey_P: "refreshWaitsForKey lm k = refreshP (\<lambda>w. meets (spanW w) (KeySpan k)) lm (lmWaiters lm)"
proof -
  have "refreshWaitsForKeyLoop ws k lm = refreshP (\<lambda>w. meets (spanW w) (KeySpan k)) lm ws" for ws
    by (induction ws arbitrary: lm) (auto simp: refreshP_def spanW_def split: option.splits)
  then show ?thesis by (simp add: refreshWaitsForKey_def)
qed

lemma refreshWaitsForRange_P:
  "refreshWaitsForRange lm s e = refreshP (\<lambda>w. meets (spanW w) (RangeSpan s e)) lm (lmWaiters lm)"
proof -
  have ov: "rangeOverlap a b c d = rangeOverlap c d a b" for a b c d
    using meets_sym [of "RangeSpan a b" "RangeSpan c d"] by simp
  have "refreshWaitsForRangeLoop ws s e lm = refreshP (\<lambda>w. meets (spanW w) (RangeSpan s e)) lm ws" for ws
    by (induction ws arbitrary: lm) (auto simp: refreshP_def spanW_def ov [of s e] split: option.splits)
  then show ?thesis by (simp add: refreshWaitsForRange_def)
qed

lemma refreshP_frame: "\<exists>g. refreshP P lm ws = lm\<lparr>lmWaitFor := g\<rparr>"
proof (induction ws arbitrary: lm)
  case Nil
  have "refreshP P lm [] = lm\<lparr>lmWaitFor := lmWaitFor lm\<rparr>" by (simp add: refreshP_def)
  then show ?case by blast
next
  case (Cons w ws)
  obtain g where "refreshP P (if P w then setWait lm (wTxn w) (blockersW lm w) else lm) ws =
      (if P w then setWait lm (wTxn w) (blockersW lm w) else lm)\<lparr>lmWaitFor := g\<rparr>" using Cons by blast
  then have "refreshP P lm (w # ws) = lm\<lparr>lmWaitFor := g\<rparr>" by (simp add: refreshP_def setWait_def)
  then show ?case by blast
qed

lemma set_blockersW:
  assumes "lm_wf lm" and "normal (spanW w)"
  shows "set (blockersW lm w) = blocking (held lm) (wTxn w) (spanW w) (wMode w)"
  using assms blockersKey_set blockersRange_set [OF assms(1)]
  by (auto simp: blockersW_def spanW_def split: option.splits)

lemma canGrantW_iff:
  assumes "lm_wf lm" and "normal (spanW w)"
  shows "canGrantW lm w \<longleftrightarrow> blocking (held lm) (wTxn w) (spanW w) (wMode w) = {}"
  using assms canGrantKey_iff canGrantRange_iff [OF assms(1)]
  by (auto simp: canGrantW_def spanW_def split: option.splits)

lemma edges_refreshP:
  assumes "lm_wf lm" and "\<forall>w \<in> set ws. normal (spanW w)" and "distinct (map wTxn ws)"
  shows "edges (lmWaitFor (refreshP P lm ws)) =
    {e \<in> edges (lmWaitFor lm). \<forall>w \<in> set ws. P w \<longrightarrow> fst e \<noteq> wTxn w} \<union> wgraph (held lm) (filter P ws)"
  using assms
proof (induction ws arbitrary: lm)
  case (Cons w ws)
  let ?lm = "if P w then setWait lm (wTxn w) (blockersW lm w) else lm"
  have "edges (lmWaitFor (refreshP P lm (w # ws))) = edges (lmWaitFor (refreshP P ?lm ws))"
    by (simp add: refreshP_def)
  also have "\<dots> = {e \<in> edges (lmWaitFor ?lm). \<forall>w \<in> set ws. P w \<longrightarrow> fst e \<noteq> wTxn w} \<union> wgraph (held lm) (filter P ws)"
    using Cons.IH [of ?lm] Cons.prems by simp
  also have "\<dots> = {e \<in> edges (lmWaitFor lm). \<forall>w \<in> set (w # ws). P w \<longrightarrow> fst e \<noteq> wTxn w} \<union> wgraph (held lm) (filter P (w # ws))"
  proof (cases "P w")
    case True
    have "set (blockersW lm w) = blocking (held lm) (wTxn w) (spanW w) (wMode w)"
      using Cons.prems by (intro set_blockersW) simp_all
    moreover have "\<forall>w' \<in> set ws. wTxn w' \<noteq> wTxn w" using Cons.prems(3) by (metis distinct.simps(2) image_eqI list.set_map list.simps(9))
    ultimately show ?thesis using True by (auto simp: wgraph_def)
  qed simp
  finally show ?case .
qed (simp add: refreshP_def wgraph_def)

lemma wgraph_mono_waiters: "set ws \<subseteq> set ws' \<Longrightarrow> wgraph H ws \<subseteq> wgraph H ws'"
  by (auto simp: wgraph_def)

lemma Domain_wgraph: "Domain (wgraph H ws) \<subseteq> wTxn ` set ws"
  by (auto simp: wgraph_def)

lemma wgraph_append: "wgraph H (ws @ [w]) = wgraph H ws \<union> {wTxn w} \<times> blocking H (wTxn w) (spanW w) (wMode w)"
  by (auto simp: wgraph_def)

lemma wait_frame [simp]:
  "lmWaiters (setWait lm t bs) = lmWaiters lm" "lmWaiters (clearWait lm t) = lmWaiters lm"
  "lmNextW (setWait lm t bs) = lmNextW lm" "lmNextW (clearWait lm t) = lmNextW lm"
  "lmSent (setWait lm t bs) = lmSent lm" "lmSent (clearWait lm t) = lmSent lm"
  by (simp_all add: setWait_def clearWait_def)

lemma same_waiter: "distinct (map wTxn ws) \<Longrightarrow> w \<in> set ws \<Longrightarrow> w' \<in> set ws \<Longrightarrow> wTxn w = wTxn w' \<Longrightarrow> w = w'"
  by (meson distinct_map inj_onD)

lemma refresh_rows:
  assumes dist: "distinct (map wTxn ws)"
  shows "{e \<in> wgraph H ws. \<forall>w \<in> set ws. meets (spanW w) sp \<longrightarrow> fst e \<noteq> wTxn w} \<union>
      wgraph (held_after H t sp m) (filter (\<lambda>w. meets (spanW w) sp) ws) = wgraph (held_after H t sp m) ws"
    (is "?L \<union> ?M = ?R")
proof (rule set_eqI, rule iffI)
  fix e
  assume "e \<in> ?L \<union> ?M"
  then show "e \<in> ?R"
  proof
    assume "e \<in> ?L"
    then obtain w b where "w \<in> set ws" "e = (wTxn w, b)" "b \<in> blocking H (wTxn w) (spanW w) (wMode w)"
        "\<not> meets (spanW w) sp" by (auto simp: wgraph_def)
    then show ?thesis using blocking_held_after by (auto simp: wgraph_def)
  qed (auto simp: wgraph_def)
next
  fix e
  assume "e \<in> ?R"
  then obtain w b where w: "w \<in> set ws" "e = (wTxn w, b)"
      "b \<in> blocking (held_after H t sp m) (wTxn w) (spanW w) (wMode w)" by (auto simp: wgraph_def)
  show "e \<in> ?L \<union> ?M"
  proof (cases "meets (spanW w) sp")
    case True
    then show ?thesis using w by (auto simp: wgraph_def)
  next
    case False
    then have "e \<in> wgraph H ws" using w blocking_held_after by (auto simp: wgraph_def)
    moreover have "\<forall>w' \<in> set ws. meets (spanW w') sp \<longrightarrow> fst e \<noteq> wTxn w'"
      using same_waiter [OF dist] w False by fastforce
    ultimately show ?thesis by blast
  qed
qed

section \<open>The contract of a request\<close>

locale lock_request =
  fixes spanR :: "'r \<Rightarrow> span"
    and okR :: "'r \<Rightarrow> bool"
    and can :: "LockManager \<Rightarrow> TxnID \<Rightarrow> 'r \<Rightarrow> Mode \<Rightarrow> bool"
    and blk :: "LockManager \<Rightarrow> TxnID \<Rightarrow> 'r \<Rightarrow> Mode \<Rightarrow> TxnID list"
    and give :: "LockManager \<Rightarrow> TxnID \<Rightarrow> 'r \<Rightarrow> Mode \<Rightarrow> string \<Rightarrow> LockManager"
    and refresh :: "LockManager \<Rightarrow> 'r \<Rightarrow> LockManager"
    and mkW :: "nat \<Rightarrow> TxnID \<Rightarrow> 'r \<Rightarrow> Mode \<Rightarrow> string \<Rightarrow> waiter"
  assumes can_iff: "lm_wf lm \<Longrightarrow> okR r \<Longrightarrow> can lm t r m \<longleftrightarrow> blocking (held lm) t (spanR r) m = {}"
    and blk_set: "lm_wf lm \<Longrightarrow> okR r \<Longrightarrow> set (blk lm t r m) = blocking (held lm) t (spanR r) m"
    and give_held: "lm_wf lm \<Longrightarrow> held (give lm t r m tag) = held_after (held lm) t (spanR r) m"
    and give_wf: "lm_wf lm \<Longrightarrow> lm_wf (give lm t r m tag)"
    and give_frame: "\<exists>ks rs. give lm t r m tag = lm\<lparr>lmKeys := ks, lmRanges := rs\<rparr>"
    and refresh_P: "okR r \<Longrightarrow> \<forall>w \<in> set (lmWaiters lm). normal (spanW w) \<Longrightarrow>
        refresh lm r = refreshP (\<lambda>w. meets (spanW w) (spanR r)) lm (lmWaiters lm)"
    and mkW: "wId (mkW i t r m tag) = i" "wTxn (mkW i t r m tag) = t" "wMode (mkW i t r m tag) = m"
        "spanW (mkW i t r m tag) = spanR r"
    and normalR: "normal (spanR r)"
begin

lemma grant_keeps:
  assumes inv: "lm_inv lm" and idle: "\<not> waitingTxn lm t" and ok: "okR r" and can: "can lm t r m"
  shows "lm_inv (refresh (give lm t r m tag) r)"
proof -
  let ?g = "give lm t r m tag" and ?H = "held_after (held lm) t (spanR r) m"
  obtain ks rs where fr: "?g = lm\<lparr>lmKeys := ks, lmRanges := rs\<rparr>" using give_frame by blast
  have wf: "lm_wf lm" and wok: "waiters_ok lm (lmWaiters lm)"
    and ed: "edges (lmWaitFor lm) = wgraph (held lm) (lmWaiters lm)" using inv by (auto simp: lm_inv_def)
  then have norm: "\<forall>w \<in> set (lmWaiters lm). normal (spanW w)" and dist: "distinct (map wTxn (lmWaiters lm))"
    by (auto simp: waiters_ok_def)
  have H: "held ?g = ?H" using give_held [OF wf] .
  let ?P = "\<lambda>w. meets (spanW w) (spanR r)"
  have rf: "refresh ?g r = refreshP ?P ?g (lmWaiters lm)" using refresh_P [OF ok, of ?g] norm by (simp add: fr)
  obtain g where rg: "refresh ?g r = ?g\<lparr>lmWaitFor := g\<rparr>" unfolding rf using refreshP_frame by blast
  have e1: "edges g = {e \<in> edges (lmWaitFor lm). \<forall>w \<in> set (lmWaiters lm). ?P w \<longrightarrow> fst e \<noteq> wTxn w}
       \<union> wgraph ?H (filter ?P (lmWaiters lm))"
    using edges_refreshP [OF give_wf [OF wf] norm dist, of ?P t r m tag] rg unfolding rf H by (simp add: fr)
  have "edges g = wgraph ?H (lmWaiters lm)"
    unfolding e1 ed by (rule refresh_rows [OF dist])
  moreover have "acyclic (wgraph ?H (lmWaiters lm))"
  proof (rule acyclic_sinks)
    show "acyclic (wgraph (held lm) (lmWaiters lm))" using inv ed by (simp add: lm_inv_def)
    fix a b
    assume "(a, b) \<in> wgraph ?H (lmWaiters lm)"
    then have "(a, b) \<in> wgraph (held lm) (lmWaiters lm) \<or> b = t"
      using blocking_held_after_subset by (fastforce simp: wgraph_def)
    then show "(a, b) \<in> wgraph (held lm) (lmWaiters lm) \<or> b \<notin> Domain (wgraph ?H (lmWaiters lm))"
      using idle Domain_wgraph [of ?H "lmWaiters lm"] by (auto simp: waitingTxn_def)
  qed
  moreover have "exclusion ?H" using inv can can_iff [OF wf ok] by (intro exclusion_held_after) (auto simp: lm_inv_def)
  moreover have "lm_wf (?g\<lparr>lmWaitFor := g\<rparr>)" using give_wf [OF wf] by simp
  ultimately show ?thesis using wok H unfolding rg lm_inv_def by (simp add: fr waiters_ok_def)
qed

lemma enqueue_keeps:
  assumes inv: "lm_inv lm" and idle: "\<not> waitingTxn lm t" and ok: "okR r"
  shows "lm_inv (fst (enqueue lm (mkW (lmNextW lm) t r m tag) (blk lm t r m)))"
proof -
  let ?w = "mkW (lmNextW lm) t r m tag"
  let ?lm = "setWait (lm\<lparr>lmWaiters := lmWaiters lm @ [?w], lmNextW := Suc (lmNextW lm)\<rparr>) t (blk lm t r m)"
  have wf: "lm_wf lm" and wok: "waiters_ok lm (lmWaiters lm)" and ac: "acyclic (edges (lmWaitFor lm))"
    and ed: "edges (lmWaitFor lm) = wgraph (held lm) (lmWaiters lm)" using inv by (auto simp: lm_inv_def)
  have "t \<notin> Domain (edges (lmWaitFor lm))"
    using idle Domain_wgraph [of "held lm" "lmWaiters lm"] unfolding ed waitingTxn_def by blast
  then have noT: "{e \<in> edges (lmWaitFor lm). fst e \<noteq> t} = edges (lmWaitFor lm)" by auto
  have e: "edges (lmWaitFor ?lm) = wgraph (held lm) (lmWaiters lm @ [?w])"
    unfolding edges_setWait wgraph_append using blk_set [OF wf ok] noT by (simp add: ed mkW)
  show ?thesis
  proof (cases "hasCycle ?lm t")
    case True
    have "filter (\<lambda>x. wId x \<noteq> lmNextW lm) (lmWaiters lm) = lmWaiters lm"
      using wok by (auto simp: waiters_ok_def intro!: filter_True)
    then have "fst (enqueue lm ?w (blk lm t r m)) = clearWait (?lm\<lparr>lmWaiters := lmWaiters lm\<rparr>) t"
      using True by (simp add: enqueue_def Let_def mkW removeWaiter_def)
    moreover have "edges (lmWaitFor (clearWait (?lm\<lparr>lmWaiters := lmWaiters lm\<rparr>) t)) = edges (lmWaitFor lm)"
    proof -
      have "edges (lmWaitFor (clearWait (?lm\<lparr>lmWaiters := lmWaiters lm\<rparr>) t)) = {e \<in> edges (lmWaitFor lm). fst e \<noteq> t}"
        by auto
      then show ?thesis unfolding noT .
    qed
    ultimately show ?thesis
      using inv ac ed by (simp add: lm_inv_def waiters_ok_def less_SucI del: edges_clearWait)
  next
    case False
    have "acyclic (edges (lmWaitFor ?lm))"
    proof (rule acyclic_from_node [OF ac])
      show "edges (lmWaitFor ?lm) = edges (lmWaitFor lm) \<union> {t} \<times> set (blk lm t r m)"
        unfolding edges_setWait using noT by simp
      show "\<not> (\<exists>c. (t, c) \<in> (edges (lmWaitFor ?lm))\<^sup>* \<and> (c, c) \<in> (edges (lmWaitFor ?lm))\<^sup>+)"
        using False unfolding hasCycle_def dfs_decides cycle_from_def .
    qed
    moreover have "waiters_ok ?lm (lmWaiters lm @ [?w])"
      using wok idle normalR by (auto simp: waiters_ok_def mkW waitingTxn_def)
    moreover have "fst (enqueue lm ?w (blk lm t r m)) = ?lm"
      using False by (simp add: enqueue_def Let_def mkW)
    ultimately show ?thesis using inv e by (simp add: lm_inv_def del: edges_setWait)
  qed
qed

end

lemma refreshP_cong: "(\<And>w. w \<in> set ws \<Longrightarrow> P w = Q w) \<Longrightarrow> refreshP P lm ws = refreshP Q lm ws"
  unfolding refreshP_def by (rule foldl_cong) simp_all

interpretation keyReq: lock_request KeySpan "\<lambda>_. True" canGrantKey blockersKey grantKey refreshWaitsForKey
  "\<lambda>i t k m tag. \<lparr>wId = i, wTxn = t, wMode = m, wKey = k, wRng = None, wTag = tag\<rparr>"
proof unfold_locales
  show "\<exists>ks rs. grantKey lm t k m tag = lm\<lparr>lmKeys := ks, lmRanges := rs\<rparr>" for lm t k m tag
  proof -
    obtain st where "grantKey lm t k m tag = lm\<lparr>lmKeys := AList.update k st (lmKeys lm), lmRanges := lmRanges lm\<rparr>"
      by (simp add: grantKey_def Let_def)
    then show ?thesis by blast
  qed
qed (simp_all add: canGrantKey_iff blockersKey_set held_grantKey lm_wf_grantKey refreshWaitsForKey_P spanW_def)

interpretation rangeReq: lock_request "\<lambda>(s, e). RangeSpan (cloneBytes s) (cloneBytes e)" "\<lambda>(s, e). e \<noteq> Some []"
  "\<lambda>lm t (s, e) m. canGrantRange lm t s e m" "\<lambda>lm t (s, e) m. blockersRange lm t s e m"
  "\<lambda>lm t (s, e) m tag. grantRange lm t s e m tag" "\<lambda>lm (s, e). refreshWaitsForRange lm s e"
  "\<lambda>i t (s, e) m tag. \<lparr>wId = i, wTxn = t, wMode = m, wKey = [],
     wRng = Some (cloneBytes s, cloneBytes e), wTag = tag\<rparr>"
proof (unfold_locales, goal_cases)
  case (5 lm t r m tag)
  then show ?case by (cases r) (auto simp: grantRange_def intro!: exI [of _ "lmKeys lm"])
next
  case (6 r lm)
  obtain s e where r: "r = (s, e)" by (cases r)
  have "meets (spanW w) (RangeSpan s e) = meets (spanW w) (RangeSpan (cloneBytes s) (cloneBytes e))"
    if "w \<in> set (lmWaiters lm)" for w
  proof (cases "spanW w")
    case (KeySpan k)
    then show ?thesis using 6 r by (simp add: inRange_clone del: cloneBytes_id)
  next
    case (RangeSpan a b)
    then have "b \<noteq> Some []" using 6(2) that by fastforce
    then have "rangeOverlap (cloneBytes s) (cloneBytes e) a b = rangeOverlap s e a b"
      using 6(1) unfolding r by (intro rangeOverlap_clone) simp_all
    then show ?thesis unfolding RangeSpan meets_sym [of "RangeSpan a b"] by simp
  qed
  then show ?case unfolding r by (simp add: refreshWaitsForRange_P cong: refreshP_cong)
qed (auto simp: canGrantRange_iff blockersRange_set held_grantRange lm_wf_grantRange spanW_def)

lemma AcquireContext_keeps:
  "lm_inv lm \<Longrightarrow> \<not> waitingTxn lm t \<Longrightarrow> lm_inv (fst (AcquireContext ctx lm t k m tag))"
  by (cases ctx) (simp_all add: AcquireContext_def keyReq.grant_keeps keyReq.enqueue_keeps)

lemma AcquireRangeContext_keeps:
  "lm_inv lm \<Longrightarrow> \<not> waitingTxn lm t \<Longrightarrow> e \<noteq> Some [] \<Longrightarrow> lm_inv (fst (AcquireRangeContext ctx lm t s e m tag))"
  using rangeReq.grant_keeps [of lm t "(s, e)" m tag] rangeReq.enqueue_keeps [of lm t "(s, e)" m tag]
  by (cases ctx) (simp_all add: AcquireRangeContext_def)

end
