(* ===== verification/LockWake.thy ===== *)
theory LockWake
  imports LockSteps
begin

text \<open>
  Releasing: \<open>wake\<close> hands freed locks to queued requests until none can be granted,
  keeps the invariant and loses no grant. Cancelling: a waiter either leaves the queue or has
  its grant.
\<close>

section \<open>Granting a queued request\<close>

lemma grantW_held:
  assumes "lm_wf lm" and "normal (spanW w)"
  shows "held (grantW lm w) = held_after (held lm) (wTxn w) (spanW w) (wMode w)"
  using assms held_grantKey held_grantRange by (auto simp: grantW_def spanW_def split: option.splits)

lemma grantW_wf: "lm_wf lm \<Longrightarrow> lm_wf (grantW lm w)"
  by (auto simp: grantW_def lm_wf_grantKey lm_wf_grantRange split: option.splits)

lemma grantW_frame [simp]:
  "lmWaiters (grantW lm w) = lmWaiters lm" "lmNextW (grantW lm w) = lmNextW lm"
  "lmSent (grantW lm w) = lmSent lm" "lmWaitFor (grantW lm w) = lmWaitFor lm"
  by (auto simp: grantW_def grantKey_def grantRange_def Let_def split: option.splits)

lemma edges_clear_grant:
  "edges (lmWaitFor (clearWait (grantW lm w) t)) = {e \<in> edges (lmWaitFor lm). fst e \<noteq> t}"
  by simp

definition wake_inv :: "LockManager \<Rightarrow> LockManager \<Rightarrow> waiter list \<Rightarrow> bool" where
  "wake_inv lm0 lm ws \<longleftrightarrow> lm_wf lm \<and> exclusion (held lm) \<and> waiters_ok lm ws \<and>
     set ws \<subseteq> set (lmWaiters lm0) \<and>
     (\<forall>l \<in> held lm. l \<in> held lm0 \<or> fst l \<notin> wTxn ` set ws) \<and>
     Domain (edges (lmWaitFor lm)) \<subseteq> wTxn ` set ws \<and>
     (\<forall>w \<in> set (lmWaiters lm0). w \<in> set ws \<or> lockW w \<in> held lm \<and> wId w \<in> set (lmSent lm))"

lemma wake_inv_waiters [simp]: "wake_inv lm0 (lm\<lparr>lmWaiters := ws'\<rparr>) ws = wake_inv lm0 lm ws"
  by (simp add: wake_inv_def waiters_ok_def)

lemma wake_grant:
  assumes inv: "wake_inv lm0 lm (pre @ w # ws)" and can: "canGrantW lm w"
    and dist0: "distinct (map wTxn (lmWaiters lm0))"
  shows "wake_inv lm0 (sendGrant (clearWait (grantW lm w) (wTxn w)) w) (pre @ ws)"
proof -
  let ?H = "held_after (held lm) (wTxn w) (spanW w) (wMode w)"
  have wf: "lm_wf lm" and norm: "normal (spanW w)" and ex: "exclusion (held lm)"
    and wok: "waiters_ok lm (pre @ w # ws)" and sub: "set (pre @ w # ws) \<subseteq> set (lmWaiters lm0)"
    using inv by (auto simp: wake_inv_def waiters_ok_def)
  have H: "held (sendGrant (clearWait (grantW lm w) (wTxn w)) w) = ?H" using grantW_held [OF wf norm] by simp
  have gone: "wTxn w \<notin> wTxn ` set (pre @ ws)" using wok by (auto simp: waiters_ok_def)
  have "exclusion ?H" using ex can canGrantW_iff [OF wf norm] by (intro exclusion_held_after) auto
  moreover have "waiters_ok (sendGrant (clearWait (grantW lm w) (wTxn w)) w) (pre @ ws)"
    using wok by (auto simp: waiters_ok_def sendGrant_def) (metis image_eqI)+
  moreover have "\<forall>l \<in> ?H. l \<in> held lm0 \<or> fst l \<notin> wTxn ` set (pre @ ws)"
  proof
    fix l
    assume "l \<in> ?H"
    then have "l = (wTxn w, wMode w, spanW w) \<or> l \<in> held lm" using held_after_subset by blast
    then show "l \<in> held lm0 \<or> fst l \<notin> wTxn ` set (pre @ ws)"
      using gone inv by (auto simp: wake_inv_def)
  qed
  moreover have "Domain {e \<in> edges (lmWaitFor lm). fst e \<noteq> wTxn w} \<subseteq> wTxn ` set (pre @ ws)"
    using inv by (auto simp: wake_inv_def)
  moreover have "w' \<in> set (pre @ ws) \<or> lockW w' \<in> ?H \<and> wId w' \<in> insert (wId w) (set (lmSent lm))"
    if w': "w' \<in> set (lmWaiters lm0)" for w'
  proof (cases "w' = w")
    case True
    then show ?thesis using held_after_new by (simp add: lockW_def)
  next
    case False
    then have "wTxn w' \<noteq> wTxn w" using same_waiter [OF dist0 w'] sub by auto
    then show ?thesis
      using inv w' False held_after_keeps [of "wTxn w'" _ _ "held lm"] by (auto simp: wake_inv_def lockW_def)
  qed
  ultimately show ?thesis
    using wf sub edges_clear_grant [of lm w "wTxn w"] unfolding wake_inv_def H
    by (simp add: grantW_wf) (simp add: sendGrant_def)
qed

lemma wakePass_inv:
  assumes "distinct (map wTxn (lmWaiters lm0))"
  shows "wake_inv lm0 lm (pre @ ws) \<Longrightarrow> wakePass ws lm = (lm', kept, again) \<Longrightarrow> wake_inv lm0 lm' (pre @ kept)"
proof (induction ws lm arbitrary: pre lm' kept again rule: wakePass.induct)
  case (2 w ws lm)
  show ?case
  proof (cases "canGrantW lm w")
    case True
    let ?lm = "sendGrant (clearWait (grantW lm w) (wTxn w)) w"
    obtain k a where "wakePass ws ?lm = (lm', kept, a)" using "2.prems"(2) True by (auto split: prod.splits)
    then show ?thesis using "2.IH"(2) [of pre] True wake_grant [OF "2.prems"(1) True assms] by simp
  next
    case False
    then obtain k where k: "kept = w # k" "wakePass ws lm = (lm', k, again)"
      using "2.prems"(2) by (auto split: prod.splits)
    then show ?thesis using "2.IH"(1) [of "pre @ [w]" lm' k again] "2.prems"(1) False by simp
  qed
qed simp

lemma wakePass_idle:
  "wakePass ws lm = (lm', kept, False) \<Longrightarrow> lm' = lm \<and> kept = ws \<and> (\<forall>w \<in> set ws. \<not> canGrantW lm w)"
  by (induction ws lm arbitrary: lm' kept rule: wakePass.induct) (auto split: if_splits prod.splits)

lemma wakeLoop_inv:
  assumes "distinct (map wTxn (lmWaiters lm0))"
  shows "wake_inv lm0 lm (lmWaiters lm) \<Longrightarrow>
    wake_inv lm0 (wakeLoop lm) (lmWaiters (wakeLoop lm)) \<and>
    (\<forall>w \<in> set (lmWaiters (wakeLoop lm)). \<not> canGrantW (wakeLoop lm) w)"
proof (induction lm rule: wakeLoop.induct)
  case (1 lm)
  obtain lm' kept again where p: "wakePass (lmWaiters lm) lm = (lm', kept, again)" by (metis prod_cases3)
  have i: "wake_inv lm0 lm' kept" using wakePass_inv [OF assms, of lm "[]"] "1.prems" p by simp
  show ?case
  proof (cases again)
    case True
    then have "wakeLoop lm = wakeLoop (lm'\<lparr>lmWaiters := kept\<rparr>)" using p by (subst wakeLoop.simps) simp
    then show ?thesis using "1.IH" p True i by simp
  next
    case False
    then have k: "lm' = lm \<and> kept = lmWaiters lm \<and> (\<forall>w \<in> set (lmWaiters lm). \<not> canGrantW lm w)"
      using p by (intro wakePass_idle) simp
    then have "wakeLoop lm = lm" using p False by (subst wakeLoop.simps) simp
    then show ?thesis using "1.prems" k by simp
  qed
qed

text \<open>Only queued requests get locks.\<close>

lemma wakePass_held:
  "wakePass ws lm = (lm', kept, a) \<Longrightarrow> lm_wf lm \<Longrightarrow> \<forall>w \<in> set ws. normal (spanW w) \<Longrightarrow>
   held lm' \<subseteq> held lm \<union> lockW ` set ws \<and> lm_wf lm' \<and> set kept \<subseteq> set ws"
proof (induction ws lm arbitrary: lm' kept a rule: wakePass.induct)
  case (2 w ws lm)
  show ?case
  proof (cases "canGrantW lm w")
    case True
    let ?lm = "sendGrant (clearWait (grantW lm w) (wTxn w)) w"
    obtain a' where p: "wakePass ws ?lm = (lm', kept, a')" using "2.prems"(1) True by (auto split: prod.splits)
    have "held ?lm \<subseteq> insert (lockW w) (held lm)"
      using grantW_held [of lm w] held_after_subset "2.prems" by (simp add: lockW_def)
    moreover have "held lm' \<subseteq> held ?lm \<union> lockW ` set ws \<and> lm_wf lm' \<and> set kept \<subseteq> set ws"
      using True "2.prems" by (intro "2.IH"(2) [OF _ p]) (simp_all add: grantW_wf)
    ultimately show ?thesis by auto
  next
    case False
    then obtain k where "kept = w # k" and p: "wakePass ws lm = (lm', k, a)"
      using "2.prems"(1) by (auto split: prod.splits)
    moreover have "held lm' \<subseteq> held lm \<union> lockW ` set ws \<and> lm_wf lm' \<and> set k \<subseteq> set ws"
      using False "2.prems" by (intro "2.IH"(1) [OF _ p]) simp_all
    ultimately show ?thesis by auto
  qed
qed simp

lemma wakeLoop_held:
  "lm_wf lm \<Longrightarrow> \<forall>w \<in> set (lmWaiters lm). normal (spanW w) \<Longrightarrow>
   held (wakeLoop lm) \<subseteq> held lm \<union> lockW ` set (lmWaiters lm)"
proof (induction lm rule: wakeLoop.induct)
  case (1 lm)
  obtain lm' kept again where p: "wakePass (lmWaiters lm) lm = (lm', kept, again)" by (metis prod_cases3)
  note h = wakePass_held [OF p "1.prems"]
  show ?case
  proof (cases again)
    case True
    then have "wakeLoop lm = wakeLoop (lm'\<lparr>lmWaiters := kept\<rparr>)" using p by (subst wakeLoop.simps) simp
    moreover have "held (wakeLoop (lm'\<lparr>lmWaiters := kept\<rparr>)) \<subseteq> held lm' \<union> lockW ` set kept"
      using "1.IH" [OF p [symmetric] refl True] h "1.prems" by auto
    moreover have "lockW ` set kept \<subseteq> lockW ` set (lmWaiters lm)" using h by (intro image_mono) simp
    ultimately have "held (wakeLoop lm) \<subseteq> held lm' \<union> lockW ` set kept"
      and "held lm' \<union> lockW ` set kept \<subseteq> held lm \<union> lockW ` set (lmWaiters lm)"
      using h by (simp_all add: le_supI2)
    then show ?thesis by (rule order_trans)
  next
    case False
    then have "wakeLoop lm = lm'\<lparr>lmWaiters := kept\<rparr>" using p by (subst wakeLoop.simps) simp
    then show ?thesis using h by simp
  qed
qed

section \<open>Releasing\<close>

lemma dropTxn_wake_inv:
  assumes inv: "lm_inv lm"
  shows "wake_inv lm (dropTxn lm t) (lmWaiters lm)"
proof -
  have wf: "lm_wf lm" using inv by (simp add: lm_inv_def)
  have fr: "lmNextW (dropTxn lm t) = lmNextW lm" "lmSent (dropTxn lm t) = lmSent lm" by (simp_all add: dropTxn_def)
  have "edges (lmWaitFor (dropTxn lm t)) \<subseteq> edges (lmWaitFor lm)" by (auto simp: dropTxn_def)
  then have "Domain (edges (lmWaitFor (dropTxn lm t))) \<subseteq> wTxn ` set (lmWaiters lm)"
    using inv Domain_wgraph [of "held lm" "lmWaiters lm"] unfolding lm_inv_def by blast
  moreover have "exclusion (held (dropTxn lm t))"
    using inv exclusion_mono [of "held lm"] by (auto simp: lm_inv_def held_dropTxn [OF wf])
  ultimately show ?thesis
    using inv by (simp add: wake_inv_def lm_inv_def lm_wf_dropTxn held_dropTxn waiters_ok_def fr)
qed

lemma refreshAll_keeps:
  assumes inv0: "lm_inv lm0" and inv: "wake_inv lm0 lm (lmWaiters lm)"
  shows "lm_inv (refreshAll lm)" "held (refreshAll lm) = held lm" "lmWaiters (refreshAll lm) = lmWaiters lm"
    "lmSent (refreshAll lm) = lmSent lm"
proof -
  let ?W = "lmWaiters lm" and ?G = "wgraph (held lm) (lmWaiters lm)"
  obtain g where g: "refreshAll lm = lm\<lparr>lmWaitFor := g\<rparr>" unfolding refreshAll_P using refreshP_frame by blast
  have "edges (lmWaitFor (refreshAll lm)) = {e \<in> edges (lmWaitFor lm). \<forall>w \<in> set ?W. fst e \<noteq> wTxn w} \<union> ?G"
    using edges_refreshP [of lm ?W "\<lambda>_. True"] inv unfolding refreshAll_P by (simp add: wake_inv_def waiters_ok_def)
  also have "{e \<in> edges (lmWaitFor lm). \<forall>w \<in> set ?W. fst e \<noteq> wTxn w} = {}"
    using inv unfolding wake_inv_def by fastforce
  finally have e: "edges g = ?G" by (simp add: g)
  have "acyclic ?G"
  proof (rule acyclic_sinks)
    show "acyclic (edges (lmWaitFor lm0))" using inv0 unfolding lm_inv_def by blast
    fix a b
    assume "(a, b) \<in> ?G"
    then obtain w m sp where w: "w \<in> set ?W" "a = wTxn w" "(b, m, sp) \<in> held lm" "b \<noteq> a"
        "meets (spanW w) sp" "conflictM m (wMode w)" by (auto simp: wgraph_def blocking_def)
    then have "(b, m, sp) \<in> held lm0 \<or> b \<notin> wTxn ` set ?W" using inv by (fastforce simp: wake_inv_def)
    then show "(a, b) \<in> edges (lmWaitFor lm0) \<or> b \<notin> Domain ?G"
    proof
      assume "(b, m, sp) \<in> held lm0"
      moreover have "w \<in> set (lmWaiters lm0)" using inv w by (auto simp: wake_inv_def)
      ultimately have "(a, b) \<in> wgraph (held lm0) (lmWaiters lm0)"
        using w unfolding wgraph_def blocking_def by blast
      then show ?thesis using inv0 by (simp add: lm_inv_def)
    qed (use Domain_wgraph in blast)
  qed
  then show "lm_inv (refreshAll lm)" using inv e by (simp add: g lm_inv_def wake_inv_def waiters_ok_def)
qed (use refreshP_frame [of "\<lambda>_. True" lm "lmWaiters lm"] in \<open>auto simp: refreshAll_P\<close>)

lemma ReleaseAll_spec:
  assumes inv: "lm_inv lm" and lm': "lm' = ReleaseAll lm t"
  shows "lm_inv lm'" and "w \<in> set (lmWaiters lm') \<Longrightarrow> \<not> canGrantW lm' w"
    and "w \<in> set (lmWaiters lm) \<Longrightarrow> w \<in> set (lmWaiters lm') \<or> lockW w \<in> held lm' \<and> wId w \<in> set (lmSent lm')"
    and "held lm' \<subseteq> {l \<in> held lm. fst l \<noteq> t} \<union> lockW ` set (lmWaiters lm)"
proof -
  let ?l = "wakeLoop (dropTxn lm t)"
  have d: "distinct (map wTxn (lmWaiters lm))" using inv by (simp add: lm_inv_def waiters_ok_def)
  have "lmWaiters (dropTxn lm t) = lmWaiters lm" by (simp add: dropTxn_def)
  then have l: "wake_inv lm ?l (lmWaiters ?l)" "\<forall>w \<in> set (lmWaiters ?l). \<not> canGrantW ?l w"
    using wakeLoop_inv [OF d, of "dropTxn lm t"] dropTxn_wake_inv [OF inv, of t] by simp_all
  have r: "lm' = refreshAll ?l" by (simp add: lm' ReleaseAll_def wake_def)
  note k = refreshAll_keeps [OF inv l(1), folded r]
  show "lm_inv lm'" by (rule k)
  have wf: "lm_wf lm" "\<forall>w \<in> set (lmWaiters lm). normal (spanW w)" using inv by (auto simp: lm_inv_def waiters_ok_def)
  show "held lm' \<subseteq> {l \<in> held lm. fst l \<noteq> t} \<union> lockW ` set (lmWaiters lm)"
    using wakeLoop_held [of "dropTxn lm t"] wf \<open>lmWaiters (dropTxn lm t) = lmWaiters lm\<close> k(2)
    by (simp add: lm_wf_dropTxn held_dropTxn)
  show "w \<in> set (lmWaiters lm) \<Longrightarrow> w \<in> set (lmWaiters lm') \<or> lockW w \<in> held lm' \<and> wId w \<in> set (lmSent lm')"
    using l(1) unfolding wake_inv_def k by blast
  show "\<not> canGrantW lm' w" if "w \<in> set (lmWaiters lm')"
  proof -
    have n: "normal (spanW w)" using that k(1) by (auto simp: lm_inv_def waiters_ok_def)
    then have "canGrantW lm' w \<longleftrightarrow> canGrantW ?l w"
      using canGrantW_iff k(1,2) l(1) by (simp add: lm_inv_def wake_inv_def)
    then show ?thesis using l(2) that k(3) by simp
  qed
qed

section \<open>Cancelling\<close>

lemma removeCanceledWaiter_keeps:
  assumes inv: "lm_inv lm" and t: "w \<in> set (lmWaiters lm) \<Longrightarrow> wTxn w = t"
    and same: "\<And>x. x \<in> set (lmWaiters lm) \<Longrightarrow> wId x = wId w \<Longrightarrow> x = w"
  shows "lm_inv (fst (removeCanceledWaiter lm w t))"
proof (cases "w \<in> set (lmWaiters lm)")
  case True
  let ?W = "filter (\<lambda>x. wId x \<noteq> wId w) (lmWaiters lm)"
  have eq: "fst (removeCanceledWaiter lm w t) = clearWait (lm\<lparr>lmWaiters := ?W\<rparr>) t"
    using True by (auto simp: removeCanceledWaiter_def list_ex_iff removeWaiter_def)
  have d: "distinct (map wTxn (lmWaiters lm))" using inv by (simp add: lm_inv_def waiters_ok_def)
  have tx: "\<forall>x \<in> set (lmWaiters lm). wTxn x \<noteq> t \<longleftrightarrow> wId x \<noteq> wId w"
  proof
    fix x
    assume x: "x \<in> set (lmWaiters lm)"
    show "wTxn x \<noteq> t \<longleftrightarrow> wId x \<noteq> wId w"
      using same_waiter [OF d x True] same [OF x] t [OF True] by auto
  qed
  have "{e \<in> wgraph (held lm) (lmWaiters lm). fst e \<noteq> t} = wgraph (held lm) ?W"
    unfolding wgraph_def using tx by fastforce
  then have e: "edges (lmWaitFor (clearWait (lm\<lparr>lmWaiters := ?W\<rparr>) t)) = wgraph (held lm) ?W"
    using inv by (simp add: lm_inv_def)
  moreover have "acyclic (wgraph (held lm) ?W)"
    using inv wgraph_mono_waiters [of ?W "lmWaiters lm" "held lm"] acyclic_subset by (fastforce simp: lm_inv_def)
  ultimately show ?thesis using inv unfolding eq by (simp add: lm_inv_def waiters_ok_def distinct_map_filter)
next
  case False
  then show ?thesis using inv same by (auto simp: removeCanceledWaiter_def list_ex_iff)
qed

end
