(* ===== verification/LockProps.thy ===== *)
theory LockProps
  imports LockWake
begin

text \<open>
  The properties of the lock table over every interleaving of acquisitions, releases,
  cancellations and timeouts. A transaction runs one statement at a time, so it does not
  start an acquisition while another of its own is queued; a range's end is nil or non-empty.
\<close>

inductive lock_step :: "LockManager \<Rightarrow> LockManager \<Rightarrow> bool" where
  acquire: "\<not> waitingTxn lm t \<Longrightarrow> lock_step lm (fst (AcquireContext ctx lm t k m tag))"
| acquireRange: "\<not> waitingTxn lm t \<Longrightarrow> e \<noteq> Some [] \<Longrightarrow> lock_step lm (fst (AcquireRangeContext ctx lm t s e m tag))"
| await: "w \<in> set (lmWaiters lm) \<or> wId w \<in> set (lmSent lm) \<Longrightarrow>
    await lm ev w (wTxn w) wait = Some (lm', res) \<Longrightarrow> lock_step lm lm'"
| release: "lock_step lm (ReleaseAll lm t)"
| timeout: "lock_step lm (SetWaitTimeout lm d)"

inductive lock_reach :: "LockManager \<Rightarrow> bool" where
  init: "lock_reach NewLockManager"
| step: "lock_reach lm \<Longrightarrow> lock_step lm lm' \<Longrightarrow> lock_reach lm'"

section \<open>The invariant holds in every reachable state\<close>

lemma queued_same:
  assumes "lm_inv lm" and "w \<in> set (lmWaiters lm) \<or> wId w \<in> set (lmSent lm)"
    and "x \<in> set (lmWaiters lm)" and "wId x = wId w"
  shows "x = w"
proof -
  have "wId w \<notin> set (lmSent lm)" using assms(1,3,4) by (auto simp: lm_inv_def waiters_ok_def)
  then have "w \<in> set (lmWaiters lm)" using assms(2) by blast
  moreover have "inj_on wId (set (lmWaiters lm))" using assms(1) by (simp add: lm_inv_def waiters_ok_def distinct_map)
  ultimately show ?thesis using assms(3,4) by (meson inj_onD)
qed

lemma await_state:
  "await lm ev w t wait = Some (lm', res) \<Longrightarrow> lm' = lm \<or> lm' = fst (removeCanceledWaiter lm w t)"
  by (auto simp: await_def recvGrant_def split: awaitEvent.splits prod.splits bool.splits if_splits)

lemma lock_step_inv: "lock_step lm lm' \<Longrightarrow> lm_inv lm \<Longrightarrow> lm_inv lm'"
proof (induction rule: lock_step.induct)
  case (await w lm ev wait lm' res)
  then have "lm_inv (fst (removeCanceledWaiter lm w (wTxn w)))"
    by (intro removeCanceledWaiter_keeps queued_same) simp_all
  then show ?case using await_state [OF await(2)] await.prems by blast
next
  case (timeout lm d)
  then show ?case unfolding SetWaitTimeout_def lm_inv_def waiters_ok_def by simp (elim conjE, simp)
qed (simp_all add: AcquireContext_keeps AcquireRangeContext_keeps ReleaseAll_spec(1) [OF _ refl])

lemma NewLockManager_inv: "lm_inv NewLockManager"
  by (simp add: lm_inv_def NewLockManager_def lm_wf_def held_def holdersOf_def exclusion_def waiters_ok_def
      edges_def succs_def wgraph_def acyclic_def)

lemma lock_reach_inv: "lock_reach lm \<Longrightarrow> lm_inv lm"
  by (induction rule: lock_reach.induct) (auto simp: NewLockManager_inv lock_step_inv)

lemma reach_acquire:
  "lock_reach lm \<Longrightarrow> \<not> waitingTxn lm t \<Longrightarrow> lock_reach (fst (AcquireContext ctx lm t k m tag))"
  by (rule lock_reach.step [OF _ lock_step.acquire])

section \<open>Derived facts\<close>

lemma inv_exclusion:
  assumes "lm_inv lm" and "(t1, m1, s1) \<in> held lm" and "(t2, m2, s2) \<in> held lm" and "t1 \<noteq> t2"
    and "covers s1 k" and "covers s2 k"
  shows "m1 = Shared \<and> m2 = Shared"
proof -
  have "meets s1 s2" using assms(5,6) by (rule covers_meets)
  then have "\<not> conflictM m1 m2" using assms(1-4) unfolding lm_inv_def exclusion_def by blast
  then show ?thesis by (simp add: conflictM_def)
qed

lemma inv_rows:
  assumes "lm_inv lm"
  shows "w \<in> set (lmWaiters lm) \<Longrightarrow>
      set (succs (lmWaitFor lm) (wTxn w)) = blocking (held lm) (wTxn w) (spanW w) (wMode w)"
    and "\<not> waitingTxn lm t \<Longrightarrow> succs (lmWaitFor lm) t = []"
proof -
  have e: "b \<in> set (succs (lmWaitFor lm) a) \<longleftrightarrow> (a, b) \<in> wgraph (held lm) (lmWaiters lm)" for a b
    using assms by (auto simp: lm_inv_def edges_def set_eq_iff)
  have d: "distinct (map wTxn (lmWaiters lm))" using assms by (simp add: lm_inv_def waiters_ok_def)
  show "set (succs (lmWaitFor lm) (wTxn w)) = blocking (held lm) (wTxn w) (spanW w) (wMode w)"
    if w: "w \<in> set (lmWaiters lm)"
  proof (rule set_eqI)
    fix b
    have "(wTxn w, b) \<in> wgraph (held lm) (lmWaiters lm) \<longleftrightarrow> b \<in> blocking (held lm) (wTxn w) (spanW w) (wMode w)"
      using same_waiter [OF d w] w unfolding wgraph_def by (auto; blast)
    then show "b \<in> set (succs (lmWaitFor lm) (wTxn w)) \<longleftrightarrow> b \<in> blocking (held lm) (wTxn w) (spanW w) (wMode w)"
      by (simp add: e)
  qed
  show "succs (lmWaitFor lm) t = []" if "\<not> waitingTxn lm t"
  proof -
    have "b \<notin> set (succs (lmWaitFor lm) t)" for b
      unfolding e using that Domain_wgraph [of "held lm" "lmWaiters lm"] by (auto simp: waitingTxn_def)
    then show ?thesis by (cases "succs (lmWaitFor lm) t") auto
  qed
qed

text \<open>From every queued transaction the graph leads to one whose blockers are all running.\<close>

lemma inv_leads_to_running:
  assumes inv: "lm_inv lm" and t: "waitingTxn lm t"
  shows "\<exists>u. (t, u) \<in> (wgraph (held lm) (lmWaiters lm))\<^sup>* \<and> waitingTxn lm u \<and>
    (\<forall>v. (u, v) \<in> wgraph (held lm) (lmWaiters lm) \<longrightarrow> \<not> waitingTxn lm v)"
proof -
  let ?G = "wgraph (held lm) (lmWaiters lm)"
  have ed: "edges (lmWaitFor lm) = ?G" and ac: "acyclic ?G" using inv unfolding lm_inv_def by auto
  have "finite ?G" unfolding ed [symmetric] by (rule finite_edges)
  then have "wf (?G\<inverse>)" by (rule finite_acyclic_wf_converse [OF _ ac])
  then show ?thesis using t
  proof (induction t rule: wf_induct_rule)
    case (less t)
    show ?case
    proof (cases "\<exists>v. (t, v) \<in> ?G \<and> waitingTxn lm v")
      case True
      then obtain v where v: "(t, v) \<in> ?G" "waitingTxn lm v" by blast
      then obtain u where "(v, u) \<in> ?G\<^sup>*" "waitingTxn lm u" "\<forall>x. (u, x) \<in> ?G \<longrightarrow> \<not> waitingTxn lm x"
        using less.IH [of v] by auto
      then show ?thesis using converse_rtrancl_into_rtrancl [OF v(1)] by blast
    qed (use less.prems in blast)
  qed
qed

lemma enqueue_deadlock_iff:
  assumes inv: "lm_inv lm" and idle: "\<not> waitingTxn lm (wTxn w)"
  shows "snd (enqueue lm w bs) = Failed deadlockErr \<longleftrightarrow>
    (wTxn w, wTxn w) \<in> (wgraph (held lm) (lmWaiters lm) \<union> {wTxn w} \<times> set bs)\<^sup>+"
proof -
  let ?t = "wTxn w" and ?G = "wgraph (held lm) (lmWaiters lm)"
  let ?lm = "setWait (lm\<lparr>lmWaiters := lmWaiters lm @ [w], lmNextW := Suc (lmNextW lm)\<rparr>) ?t bs"
  have ed: "edges (lmWaitFor lm) = ?G" and ac: "acyclic ?G" using inv unfolding lm_inv_def by auto
  have "?t \<notin> Domain ?G" using idle Domain_wgraph [of "held lm" "lmWaiters lm"] by (auto simp: waitingTxn_def)
  then have "{e \<in> ?G. fst e \<noteq> ?t} = ?G" by auto
  then have E: "edges (lmWaitFor ?lm) = ?G \<union> {?t} \<times> set bs" unfolding edges_setWait by (simp add: ed)
  have "snd (enqueue lm w bs) = Failed deadlockErr \<longleftrightarrow> cycle_from (lmWaitFor ?lm) ?t"
    unfolding enqueue_def Let_def hasCycle_def dfs_decides by simp
  also have "\<dots> \<longleftrightarrow> (?t, ?t) \<in> (?G \<union> {?t} \<times> set bs)\<^sup>+"
  proof
    assume "cycle_from (lmWaitFor ?lm) ?t"
    then have "\<not> acyclic (?G \<union> {?t} \<times> set bs)" unfolding cycle_from_def E acyclic_def by blast
    then show "(?t, ?t) \<in> (?G \<union> {?t} \<times> set bs)\<^sup>+" by (rule cycle_through [OF ac])
  next
    assume "(?t, ?t) \<in> (?G \<union> {?t} \<times> set bs)\<^sup>+"
    then show "cycle_from (lmWaitFor ?lm) ?t" unfolding cycle_from_def E by blast
  qed
  finally show ?thesis .
qed

lemma enqueue_not_granted: "snd (enqueue lm w bs) \<noteq> Granted"
  by (simp add: enqueue_def Let_def)

text \<open>A granted request is told so whatever the event; one still queued waits for the channel and is taken
  out of the queue and of the graph by a cancellation or a timeout.\<close>

lemma await_granted:
  assumes inv: "lm_inv lm" and w: "wId w \<in> set (lmSent lm)" and e: "ev = TimerC \<Longrightarrow> 0 < wait"
  shows "await lm ev w t wait = Some (lm, Inr ())"
proof -
  have "\<not> list_ex (\<lambda>x. wId x = wId w) (lmWaiters lm)" using inv w by (auto simp: lm_inv_def waiters_ok_def list_ex_iff)
  then show ?thesis using w e by (auto simp: await_def recvGrant_def removeCanceledWaiter_def split: awaitEvent.splits)
qed

lemma await_queued:
  assumes inv: "lm_inv lm" and w: "w \<in> set (lmWaiters lm)" and e: "ev = TimerC \<Longrightarrow> 0 < wait" "ev \<noteq> FromChan"
  shows "\<exists>lm' err. await lm ev w (wTxn w) wait = Some (lm', Inl err) \<and> held lm' = held lm \<and> lmSent lm' = lmSent lm \<and>
    lmWaiters lm' = removeAll w (lmWaiters lm) \<and> succs (lmWaitFor lm') (wTxn w) = [] \<and>
    (\<forall>t. t \<noteq> wTxn w \<longrightarrow> succs (lmWaitFor lm') t = succs (lmWaitFor lm) t)"
proof -
  let ?lm = "clearWait (removeWaiter lm w) (wTxn w)"
  have same: "x = w" if "x \<in> set (lmWaiters lm)" "wId x = wId w" for x using queued_same [OF inv _ that] w by blast
  have f: "filter (\<lambda>x. wId x \<noteq> wId w) (lmWaiters lm) = removeAll w (lmWaiters lm)"
    unfolding removeAll_filter_not_eq using same by (intro filter_cong) auto
  have "list_ex (\<lambda>x. wId x = wId w) (lmWaiters lm)" using w by (auto simp: list_ex_iff)
  then have "\<exists>err. await lm ev w (wTxn w) wait = Some (?lm, Inl err)"
    using e by (cases ev) (simp_all add: await_def removeCanceledWaiter_def)
  moreover have "held ?lm = held lm" "lmSent ?lm = lmSent lm" "lmWaiters ?lm = removeAll w (lmWaiters lm)"
    using f by (simp_all add: removeWaiter_def)
  moreover have "succs (lmWaitFor ?lm) (wTxn w) = []" "\<forall>t. t \<noteq> wTxn w \<longrightarrow> succs (lmWaitFor ?lm) t = succs (lmWaitFor lm) t"
    by (simp_all add: clearWait_def removeWaiter_def succs_def delete_conv')
  ultimately show ?thesis by blast
qed

section \<open>Properties\<close>

text \<open>A run of two transactions used by the witnesses: both share a key, then the first asks
  for it exclusively and queues.\<close>

definition demo1 :: LockManager where
  "demo1 = fst (AcquireContext None NewLockManager 1 [7] Shared ''t'')"

definition demo2 :: LockManager where
  "demo2 = fst (AcquireContext None demo1 2 [7] Shared ''t'')"

definition demo3 :: LockManager where
  "demo3 = fst (AcquireContext None demo2 1 [7] Exclusive ''t'')"

definition demoW :: waiter where
  "demoW = \<lparr>wId = 0, wTxn = 1, wMode = Exclusive, wKey = [7], wRng = None, wTag = ''t''\<rparr>"

lemmas lock_eval = AcquireContext_def AcquireRangeContext_def NewLockManager_def canGrantKey_def canGrantRange_def
  grantKey_def grantRange_def holdersOf_def conflictM_def refreshWaitsForKey_def refreshWaitsForRange_def
  enqueue_def setWait_def clearWait_def blockersKey_def blockersRange_def addBlocker_def hasCycle_def
  succs_def removeWaiter_def inRange_def rangeOverlap_def cloneBytes_def

lemma demo1_eq: "demo1 = NewLockManager\<lparr>lmKeys := [([7], \<lparr>ksHolders = [(1, Shared)], ksTag = ''t''\<rparr>)]\<rparr>"
  by (simp add: demo1_def lock_eval)

lemma demo2_eq: "demo2 = NewLockManager\<lparr>lmKeys := [([7], \<lparr>ksHolders = [(1, Shared), (2, Shared)], ksTag = ''t''\<rparr>)]\<rparr>"
  by (simp add: demo2_def demo1_eq lock_eval)

lemma demo3_eq: "demo3 = demo2\<lparr>lmWaiters := [demoW], lmWaitFor := [(1, [2])], lmNextW := 1\<rparr>"
  by (simp add: demo3_def demo2_eq demoW_def lock_eval)

lemma demo_reach: "lock_reach demo2" "lock_reach demo3"
proof -
  have 1: "lock_reach demo1" unfolding demo1_def
    by (rule reach_acquire [OF lock_reach.init]) (simp add: waitingTxn_def NewLockManager_def)
  show 2: "lock_reach demo2" unfolding demo2_def
    by (rule reach_acquire [OF 1]) (simp add: waitingTxn_def demo1_eq NewLockManager_def)
  show "lock_reach demo3" unfolding demo3_def
    by (rule reach_acquire [OF 2]) (simp add: waitingTxn_def demo2_eq NewLockManager_def)
qed


lemma demo3_waits: "lmWaiters demo3 = [demoW]" "\<not> waitingTxn demo3 2" "waitingTxn demo3 1"
  by (simp_all add: demo3_eq demoW_def waitingTxn_def)

lemma demo3_graph: "wgraph (held demo3) (lmWaiters demo3) = {(1, 2)}"
proof -
  have "blocking (held demo3) 1 (KeySpan [7]) Exclusive = {2}"
    by (auto simp: blocking_held demo3_eq demo2_eq NewLockManager_def holdersOf_def conflictM_def)
  then show ?thesis by (auto simp: wgraph_def demo3_waits demoW_def spanW_def)
qed

text \<open>C3: in every reachable state, when two transactions hold locks that cover a common key,
  both locks are shared. This spans key locks and range locks in any combination.\<close>

theorem lock_exclusion:
  assumes "lock_reach lm" and "(t1, m1, s1) \<in> held lm" and "(t2, m2, s2) \<in> held lm" and "t1 \<noteq> t2"
    and "covers s1 k" and "covers s2 k"
  shows "m1 = Shared \<and> m2 = Shared"
  using inv_exclusion [OF lock_reach_inv] assms by blast

theorem lock_exclusion_witness:
  "lock_reach demo2 \<and> (1, Shared, KeySpan [7]) \<in> held demo2 \<and> (2, Shared, KeySpan [7]) \<in> held demo2 \<and>
   (1, Exclusive, KeySpan [7]) \<notin> held demo2"
proof -
  have h: "(1, Shared, KeySpan [7]) \<in> held demo2" "(2, Shared, KeySpan [7]) \<in> held demo2"
    by (simp_all add: held_lock demo2_eq holdersOf_def)
  have "(1, Exclusive, KeySpan [7]) \<notin> held demo2"
    using lock_exclusion [OF demo_reach(1) _ h(2), of 1 Exclusive "KeySpan [7]" "[7]"] by auto
  then show ?thesis using demo_reach(1) h by simp
qed

text \<open>C10: in every reachable state the wait-for map is exactly the truth: the row of each
  queued request names the transactions that hold a conflicting lock on what it asks for, a
  transaction that is not queued has no row, and the graph has no cycle.\<close>

theorem lock_graph_exact:
  assumes "lock_reach lm"
  shows "(\<forall>w \<in> set (lmWaiters lm).
      set (succs (lmWaitFor lm) (wTxn w)) = blocking (held lm) (wTxn w) (spanW w) (wMode w)) \<and>
    (\<forall>t. \<not> waitingTxn lm t \<longrightarrow> succs (lmWaitFor lm) t = []) \<and> acyclic (edges (lmWaitFor lm))"
proof (intro conjI ballI allI impI)
  note inv = lock_reach_inv [OF assms]
  show "acyclic (edges (lmWaitFor lm))" using inv unfolding lm_inv_def by blast
qed (use inv_rows [OF lock_reach_inv [OF assms]] in auto)

theorem lock_graph_exact_witness:
  "lock_reach demo3 \<and> succs (lmWaitFor demo3) 1 = [2] \<and> blocking (held demo3) 1 (KeySpan [7]) Exclusive = {2}"
proof -
  have "set (succs (lmWaitFor demo3) 1) = blocking (held demo3) 1 (KeySpan [7]) Exclusive"
    using lock_graph_exact [OF demo_reach(2)] demo3_waits(1) by (simp add: demoW_def spanW_def)
  then show ?thesis using demo_reach(2) by (simp add: demo3_eq succs_def)
qed

text \<open>C7: no reachable state is deadlocked. Let a transaction wait for another when the latter holds a lock that
  conflicts with the request the former has queued. This relation, read off the locks and the queue, has no
  cycle, and from every queued transaction it leads to a queued one that waits only for transactions that are
  not queued themselves, so that their finishing lets the queue move.\<close>

theorem lock_no_deadlock:
  assumes "lock_reach lm"
  shows "acyclic (wgraph (held lm) (lmWaiters lm)) \<and>
    (\<forall>t. waitingTxn lm t \<longrightarrow> (\<exists>u. (t, u) \<in> (wgraph (held lm) (lmWaiters lm))\<^sup>* \<and> waitingTxn lm u \<and>
       (\<forall>v. (u, v) \<in> wgraph (held lm) (lmWaiters lm) \<longrightarrow> \<not> waitingTxn lm v)))"
  using lock_reach_inv [OF assms] inv_leads_to_running [of lm] unfolding lm_inv_def by metis

theorem lock_no_deadlock_witness:
  "lock_reach demo3 \<and> wgraph (held demo3) (lmWaiters demo3) = {(1, 2)} \<and> acyclic {(1 :: TxnID, 2 :: TxnID)} \<and> \<not> waitingTxn demo3 2"
proof -
  have "wgraph (held demo3) (lmWaiters demo3) = {(1, 2)}" by (rule demo3_graph)
  then show ?thesis using demo_reach(2) demo3_waits(2) lock_no_deadlock [OF demo_reach(2)] by simp
qed

text \<open>C14: \<open>Acquire\<close> reports a deadlock exactly when it cannot grant the lock and waiting
  for its holders would close a cycle of waiting transactions: none is missed and none is
  invented.\<close>

theorem acquire_deadlock_iff:
  assumes "lock_reach lm" and "\<not> waitingTxn lm t"
  shows "snd (AcquireContext None lm t k m tag) = Failed deadlockErr \<longleftrightarrow>
    blocking (held lm) t (KeySpan k) m \<noteq> {} \<and>
    (t, t) \<in> (wgraph (held lm) (lmWaiters lm) \<union> {t} \<times> blocking (held lm) t (KeySpan k) m)\<^sup>+"
  using enqueue_deadlock_iff [OF lock_reach_inv [OF assms(1)],
      of "\<lparr>wId = lmNextW lm, wTxn = t, wMode = m, wKey = k, wRng = None, wTag = tag\<rparr>" "blockersKey lm t k m"] assms(2)
  by (simp add: AcquireContext_def canGrantKey_iff blockersKey_set)

theorem acquire_deadlock_iff_witness:
  "lock_reach demo3 \<and> \<not> waitingTxn demo3 2 \<and>
   snd (AcquireContext None demo3 2 [7] Exclusive ''t'') = Failed deadlockErr"
proof -
  have b: "blocking (held demo3) 2 (KeySpan [7]) Exclusive = {1}"
    by (auto simp: blocking_held demo3_eq demo2_eq NewLockManager_def holdersOf_def conflictM_def)
  have "(2, 1) \<in> wgraph (held demo3) (lmWaiters demo3) \<union> {2} \<times> {1}"
    and "(1, 2) \<in> wgraph (held demo3) (lmWaiters demo3) \<union> {2} \<times> {1}" by (simp_all add: demo3_graph)
  then have "(2, 2) \<in> (wgraph (held demo3) (lmWaiters demo3) \<union> {2} \<times> {1})\<^sup>+"
    by (meson r_into_trancl trancl_into_trancl)
  then show ?thesis
    using demo_reach(2) demo3_waits(2) acquire_deadlock_iff [OF demo_reach(2) demo3_waits(2), of "[7]" Exclusive "''t''"] b
    by simp
qed



text \<open>C27: a cancelled or timed-out wait neither loses nor leaks a grant. A timer fires only when a positive timeout
  armed it. For a request that is queued or has been granted, \<open>await\<close> returns nil and changes nothing when the grant was sent, even if the context was cancelled or
  the timer fired meanwhile. Otherwise it goes on waiting on the channel; on a cancellation or a timeout it
  returns an error, no lock changes hands, the request (and no other) has left the queue, and exactly the row of
  its transaction has left the wait-for graph.\<close>

theorem await_honours_grant:
  assumes "lock_reach lm" and "w \<in> set (lmWaiters lm) \<or> wId w \<in> set (lmSent lm)" and "ev = TimerC \<longrightarrow> 0 < wait"
  shows "if wId w \<in> set (lmSent lm) then await lm ev w (wTxn w) wait = Some (lm, Inr ())
    else if ev = FromChan then await lm ev w (wTxn w) wait = None
    else \<exists>lm' err. await lm ev w (wTxn w) wait = Some (lm', Inl err) \<and> held lm' = held lm \<and> lmSent lm' = lmSent lm \<and>
      lmWaiters lm' = removeAll w (lmWaiters lm) \<and> succs (lmWaitFor lm') (wTxn w) = [] \<and>
      (\<forall>t. t \<noteq> wTxn w \<longrightarrow> succs (lmWaitFor lm') t = succs (lmWaitFor lm) t)"
proof -
  note inv = lock_reach_inv [OF assms(1)]
  consider "wId w \<in> set (lmSent lm)" | "wId w \<notin> set (lmSent lm)" "ev = FromChan"
    | "wId w \<notin> set (lmSent lm)" "ev \<noteq> FromChan" by blast
  then show ?thesis
  proof cases
    case 1
    then show ?thesis using await_granted [OF inv 1] assms(3) by simp
  next
    case 2
    then show ?thesis by (simp add: await_def recvGrant_def)
  next
    case 3
    then show ?thesis using await_queued [OF inv, of w ev wait] assms(2,3) by simp
  qed
qed

theorem await_honours_grant_witness:
  "lock_reach demo3 \<and> demoW \<in> set (lmWaiters demo3) \<and> (\<exists>lm' e. await demo3 TimerC demoW 1 5 = Some (lm', Inl e) \<and>
     held lm' = held demo3 \<and> lmWaiters lm' = [] \<and> succs (lmWaitFor lm') 1 = [])"
proof -
  have d: "demoW \<in> set (lmWaiters demo3) \<or> wId demoW \<in> set (lmSent demo3)" by (simp add: demo3_waits)
  have "wTxn demoW = 1" "wId demoW \<notin> set (lmSent demo3)" by (simp_all add: demoW_def demo3_eq demo2_eq NewLockManager_def)
  then show ?thesis using await_honours_grant [OF demo_reach(2) d, of TimerC 5] demo_reach(2) by (auto simp: demo3_waits)
qed

text \<open>C31: re-acquiring a key in shared mode silently gives up the exclusive lock the
  transaction holds on it: another transaction is then granted the key although the first has
  not released anything.\<close>

theorem reacquire_shared_downgrades:
  "\<exists>lm1 lm2 lm3.
     AcquireContext None NewLockManager 1 k Exclusive tag = (lm1, Granted) \<and>
     AcquireContext None lm1 1 k Shared tag = (lm2, Granted) \<and>
     AcquireContext None lm2 2 k Shared tag = (lm3, Granted) \<and>
     snd (AcquireContext None lm1 2 k Shared tag) \<noteq> Granted"
proof -
  let ?lm = "\<lambda>hs. NewLockManager\<lparr>lmKeys := [(k, \<lparr>ksHolders = hs, ksTag = tag\<rparr>)]\<rparr>"
  have "AcquireContext None NewLockManager 1 k Exclusive tag = (?lm [(1, Exclusive)], Granted)"
    by (cases "tag = []") (simp_all add: lock_eval Let_def)
  moreover have "AcquireContext None (?lm [(1, Exclusive)]) 1 k Shared tag = (?lm [(1, Shared)], Granted)"
    by (simp add: lock_eval)
  moreover have "AcquireContext None (?lm [(1, Shared)]) 2 k Shared tag = (?lm [(1, Shared), (2, Shared)], Granted)"
    by (simp add: lock_eval)
  moreover have "snd (AcquireContext None (?lm [(1, Exclusive)]) 2 k Shared tag) \<noteq> Granted"
    by (simp add: AcquireContext_def canGrantKey_def holdersOf_def conflictM_def enqueue_not_granted)
  ultimately show ?thesis by blast
qed

text \<open>C32: a range whose end is empty but not nil is recorded as unbounded, while the conflict
  check treated it as empty: two transactions then hold exclusive locks on the same key.\<close>

theorem empty_range_end_breaks_exclusion:
  "\<exists>lm1 lm2.
     AcquireContext None NewLockManager 1 [7] Exclusive tag = (lm1, Granted) \<and>
     AcquireRangeContext None lm1 2 None (Some []) Exclusive tag = (lm2, Granted) \<and>
     (1, Exclusive, KeySpan [7]) \<in> held lm2 \<and> (2, Exclusive, RangeSpan None None) \<in> held lm2 \<and>
     covers (RangeSpan None None) [7]"
proof -
  let ?lm = "NewLockManager\<lparr>lmKeys := [([7], \<lparr>ksHolders = [(1, Exclusive)], ksTag = tag\<rparr>)]\<rparr>"
  let ?lm' = "?lm\<lparr>lmRanges :=
      [\<lparr>hrTxn = 2, hrMode = Exclusive, hrStart = None, hrEnd = None, hrTag = tag\<rparr>]\<rparr>"
  have "AcquireContext None NewLockManager 1 [7] Exclusive tag = (?lm, Granted)"
    by (cases "tag = []") (simp_all add: lock_eval Let_def)
  moreover have "AcquireRangeContext None ?lm 2 None (Some []) Exclusive tag = (?lm', Granted)"
    by (simp add: lock_eval)
  moreover have "(1, Exclusive, KeySpan [7]) \<in> held ?lm'" "(2, Exclusive, RangeSpan None None) \<in> held ?lm'"
    by (simp_all add: held_lock holdersOf_def)
  moreover have "covers (RangeSpan None None) [7]" by (simp add: inRange_def)
  ultimately show ?thesis by blast
qed

end
