(* ===== verification/TxnManager.thy ===== *)
theory TxnManager
  imports LockWake
begin

text \<open>
  Snapshots and the transaction manager: \<open>internal/txn/isolation.go\<close>,
  \<open>internal/txn/snapshot.go\<close> and \<open>internal/txn/manager.go\<close>. The maps keyed by
  transaction id are HOL maps, a handle reached through the manager's maps is the entry of
  the map, and a nil \<open>*Manager\<close> receiver is \<open>None\<close> where the source checks for it. The
  statement context attached to a handle appears as the error it reports to a lock request.
\<close>

unbundle bit_operations_syntax

datatype Isolation = IsoUnset | ReadCommitted | SnapshotIsolation | Serializable

datatype Status = StatusUnknown | StatusInProgress | StatusCommitted | StatusAborted

record Snapshot =
  snTid :: TxnID
  snXmax :: TxnID
  snActive :: "TxnID set"

definition Sees :: "Snapshot \<Rightarrow> TxnID \<Rightarrow> (TxnID \<Rightarrow> Status) option \<Rightarrow> bool" where
  "Sees s xid status =
     (if xid = 0 \<or> xid = snTid s then True
      else if (case status of None \<Rightarrow> False
               | Some f \<Rightarrow> f xid = StatusAborted \<or> f xid = StatusInProgress) then False
      else if snXmax s \<noteq> 0 \<and> xid \<ge> snXmax s then False
      else if xid \<in> snActive s then False
      else True)"

definition Visible :: "Snapshot \<Rightarrow> TxnID \<Rightarrow> TxnID \<Rightarrow> (TxnID \<Rightarrow> Status) option \<Rightarrow> bool" where
  "Visible s xmin xmax status =
     (if \<not> Sees s xmin status then False
      else if xmax = 0 then True
      else if xmax = snTid s then False
      else \<not> Sees s xmax status)"

record Handle =
  hID :: TxnID
  hIso :: Isolation
  hSnap :: Snapshot
  hReadOnly :: bool

record Manager =
  mNext :: TxnID
  mNextRead :: u64
  mActive :: "TxnID \<rightharpoonup> Handle"
  mReaders :: "TxnID \<rightharpoonup> Handle"
  mStatus :: "TxnID \<rightharpoonup> Status"
  mLocks :: LockManager
  mOnlineBuilds :: int

definition zeroSnap :: Snapshot where
  "zeroSnap = \<lparr>snTid = 0, snXmax = 0, snActive = {}\<rparr>"

definition NewManager :: "TxnID \<Rightarrow> Manager" where
  "NewManager next = \<lparr>mNext = (if next = 0 then 1 else next), mNextRead = 1, mActive = Map.empty,
     mReaders = Map.empty, mStatus = Map.empty, mLocks = NewLockManager, mOnlineBuilds = 0\<rparr>"

definition Next :: "Manager \<Rightarrow> TxnID" where
  "Next m = mNext m"

definition Recover :: "Manager \<Rightarrow> TxnID \<Rightarrow> TxnID list \<Rightarrow> TxnID list \<Rightarrow> Manager" where
  "Recover m next committed aborted =
     (let m = (if next > mNext m then m\<lparr>mNext := next\<rparr> else m);
          st = foldl (\<lambda>st tid. st(tid \<mapsto> StatusCommitted)) (mStatus m) committed;
          st = foldl (\<lambda>st tid. st(tid \<mapsto> StatusAborted)) st aborted
      in m\<lparr>mStatus := st\<rparr>)"

definition NoteInProgress :: "Manager option \<Rightarrow> TxnID \<Rightarrow> Manager option" where
  "NoteInProgress mo tid = (case mo of None \<Rightarrow> None | Some m \<Rightarrow>
     if tid = 0 then Some m
     else if mStatus m tid = None then Some (m\<lparr>mStatus := (mStatus m)(tid \<mapsto> StatusInProgress)\<rparr>)
     else Some m)"

definition captureLocked :: "Manager \<Rightarrow> TxnID \<Rightarrow> Snapshot" where
  "captureLocked m tid = \<lparr>snTid = tid, snXmax = mNext m, snActive = dom (mActive m) - {tid}\<rparr>"

definition Attach :: "Manager \<Rightarrow> TxnID \<Rightarrow> Isolation \<Rightarrow> Manager \<times> Handle" where
  "Attach m tid lvl =
     (let lvl = (if lvl = IsoUnset then SnapshotIsolation else lvl);
          m = (if tid \<ge> mNext m then m\<lparr>mNext := tid + 1\<rparr> else m);
          h = \<lparr>hID = tid, hIso = lvl, hSnap = captureLocked m tid, hReadOnly = False\<rparr>
      in (m\<lparr>mActive := (mActive m)(tid \<mapsto> h), mStatus := (mStatus m)(tid \<mapsto> StatusInProgress)\<rparr>, h))"

definition getHandle :: "Manager \<Rightarrow> TxnID \<Rightarrow> Handle option" where
  "getHandle m tid = mActive m tid"

definition ActiveCount :: "Manager option \<Rightarrow> nat" where
  "ActiveCount mo = (case mo of None \<Rightarrow> 0 | Some m \<Rightarrow> card (dom (mActive m)))"

definition BeginRead :: "Manager option \<Rightarrow> Isolation \<Rightarrow> Manager option \<times> Handle" where
  "BeginRead mo lvl = (case mo of
      None \<Rightarrow> (None, \<lparr>hID = 0, hIso = lvl, hSnap = zeroSnap, hReadOnly = True\<rparr>)
    | Some m \<Rightarrow>
        (let lvl = (if lvl = IsoUnset then SnapshotIsolation else lvl);
             tid = push_bit 63 1 OR mNextRead m;
             m = m\<lparr>mNextRead := mNextRead m + 1\<rparr>;
             h = \<lparr>hID = tid, hIso = lvl, hSnap = captureLocked m 0, hReadOnly = True\<rparr>
         in (Some (m\<lparr>mReaders := (mReaders m)(tid \<mapsto> h)\<rparr>), h)))"

definition EndRead :: "Manager option \<Rightarrow> TxnID \<Rightarrow> Manager option" where
  "EndRead mo tid = (case mo of None \<Rightarrow> None | Some m \<Rightarrow>
     if tid = 0 then Some m else Some (m\<lparr>mReaders := (mReaders m)(tid := None)\<rparr>))"

definition LiveSnapshots :: "Manager option \<Rightarrow> nat" where
  "LiveSnapshots mo = (case mo of None \<Rightarrow> 0 | Some m \<Rightarrow> card (dom (mActive m)) + card (dom (mReaders m)))"

definition statusLocked :: "Manager \<Rightarrow> TxnID \<Rightarrow> Status" where
  "statusLocked m tid =
     (if tid = 0 then StatusCommitted
      else case mStatus m tid of
             Some s \<Rightarrow> s
           | None \<Rightarrow> if mActive m tid \<noteq> None then StatusInProgress else StatusCommitted)"

definition StatusFn :: "Manager \<Rightarrow> TxnID \<Rightarrow> Status" where
  "StatusFn m = statusLocked m"

definition Capture :: "Manager \<Rightarrow> TxnID \<Rightarrow> Snapshot" where
  "Capture m tid = captureLocked m tid"

text \<open>\<open>Refresh\<close> writes through the handle pointer, which the active or reader map may share.\<close>

definition Refresh :: "Manager \<Rightarrow> Handle option \<Rightarrow> Manager \<times> Handle option" where
  "Refresh m ho = (case ho of None \<Rightarrow> (m, None) | Some h \<Rightarrow>
     (let h' = h\<lparr>hSnap := captureLocked m (hID h)\<rparr>;
          upd = (\<lambda>f. if f (hID h) = Some h then f(hID h \<mapsto> h') else f)
      in (m\<lparr>mActive := upd (mActive m), mReaders := upd (mReaders m)\<rparr>, Some h')))"

definition Commit :: "Manager \<Rightarrow> TxnID \<Rightarrow> Manager" where
  "Commit m tid = m\<lparr>mActive := (mActive m)(tid := None), mStatus := (mStatus m)(tid \<mapsto> StatusCommitted),
     mLocks := ReleaseAll (mLocks m) tid\<rparr>"

definition Abort :: "Manager \<Rightarrow> TxnID \<Rightarrow> Manager" where
  "Abort m tid = m\<lparr>mActive := (mActive m)(tid := None), mStatus := (mStatus m)(tid \<mapsto> StatusAborted),
     mLocks := ReleaseAll (mLocks m) tid\<rparr>"

definition HasForeign :: "Manager \<Rightarrow> TxnID \<Rightarrow> bool" where
  "HasForeign m self \<longleftrightarrow> dom (mActive m) - {self} \<noteq> {}"

definition BeginOnlineBuild :: "Manager option \<Rightarrow> Manager option" where
  "BeginOnlineBuild mo = map_option (\<lambda>m. m\<lparr>mOnlineBuilds := mOnlineBuilds m + 1\<rparr>) mo"

definition EndOnlineBuild :: "Manager option \<Rightarrow> Manager option" where
  "EndOnlineBuild mo = map_option (\<lambda>m. m\<lparr>mOnlineBuilds := mOnlineBuilds m - 1\<rparr>) mo"

definition OnlineBuildActive :: "Manager option \<Rightarrow> bool" where
  "OnlineBuildActive mo = (case mo of None \<Rightarrow> False | Some m \<Rightarrow> mOnlineBuilds m > 0)"

definition ActiveWriterIDs :: "Manager option \<Rightarrow> TxnID set" where
  "ActiveWriterIDs mo = (case mo of None \<Rightarrow> {} | Some m \<Rightarrow> dom (mActive m))"

text \<open>\<open>WaitDone\<close> returns once the status it rechecks after each broadcast is final.\<close>

definition WaitDone :: "Manager \<Rightarrow> TxnID \<Rightarrow> unit option" where
  "WaitDone m tid = (if statusLocked m tid \<noteq> StatusInProgress then Some () else None)"

definition LockKey ::
  "nerr option \<Rightarrow> Manager \<Rightarrow> Handle option \<Rightarrow> bytes \<Rightarrow> Mode \<Rightarrow> string \<Rightarrow> Manager \<times> outcome" where
  "LockKey ctxErr m ho key mode tag = (case ho of
      None \<Rightarrow> (m, Failed (New InvalidArgument ''txn.LockKey'' ''nil handle''))
    | Some h \<Rightarrow> (case AcquireContext ctxErr (mLocks m) (hID h) key mode tag of
        (lm, res) \<Rightarrow> (m\<lparr>mLocks := lm\<rparr>, res)))"

definition LockRange ::
  "nerr option \<Rightarrow> Manager \<Rightarrow> Handle option \<Rightarrow> bytes option \<Rightarrow> bytes option \<Rightarrow> Mode \<Rightarrow> string \<Rightarrow> Manager \<times> outcome" where
  "LockRange ctxErr m ho start end mode tag = (case ho of
      None \<Rightarrow> (m, Failed (New InvalidArgument ''txn.LockRange'' ''nil handle''))
    | Some h \<Rightarrow> (case AcquireRangeContext ctxErr (mLocks m) (hID h) start end mode tag of
        (lm, res) \<Rightarrow> (m\<lparr>mLocks := lm\<rparr>, res)))"

section \<open>Runs of a primary\<close>

text \<open>On a primary the engine allocates ids in increasing order and attaches each under the
  lock it allocated it under; a transaction commits or aborts while it is active.\<close>

inductive tm_step :: "Manager \<Rightarrow> Manager \<Rightarrow> bool" where
  attach: "mNext m \<le> tid \<Longrightarrow> tid < push_bit 63 1 \<Longrightarrow> tm_step m (fst (Attach m tid lvl))"
| commit: "tid \<in> dom (mActive m) \<Longrightarrow> tm_step m (Commit m tid)"
| abort: "tid \<in> dom (mActive m) \<Longrightarrow> tm_step m (Abort m tid)"
| beginRead: "mNextRead m < push_bit 63 1 \<Longrightarrow> BeginRead (Some m) lvl = (Some m', h) \<Longrightarrow> tm_step m m'"
| endRead: "EndRead (Some m) tid = Some m' \<Longrightarrow> tm_step m m'"
| refresh: "tm_step m (fst (Refresh m ho))"
| lockKey: "tm_step m (fst (LockKey ctx m ho k mode tag))"
| lockRange: "tm_step m (fst (LockRange ctx m ho s e mode tag))"

definition tm_inv :: "Manager \<Rightarrow> bool" where
  "tm_inv m \<longleftrightarrow> mNext m \<noteq> 0 \<and> mNext m \<le> push_bit 63 1 \<and> mNextRead m \<le> push_bit 63 1 \<and>
     (\<forall>tid \<in> dom (mActive m). mStatus m tid = Some StatusInProgress \<and> tid \<noteq> 0 \<and> tid < mNext m) \<and>
     (\<forall>tid \<in> dom (mStatus m). tid < mNext m \<and> mStatus m tid \<noteq> Some StatusUnknown) \<and>
     (\<forall>tid \<in> dom (mReaders m). \<exists>n < mNextRead m. tid = push_bit 63 1 OR n)"

inductive tm_reach :: "Manager \<Rightarrow> bool" where
  init: "next \<le> push_bit 63 1 \<Longrightarrow> tm_reach (NewManager next)"
| step: "tm_reach m \<Longrightarrow> tm_step m m' \<Longrightarrow> tm_reach m'"

text \<open>What later steps keep of the ids already decided at a point in time.\<close>

definition settled :: "Manager \<Rightarrow> Manager \<Rightarrow> bool" where
  "settled m0 m \<longleftrightarrow> mNext m0 \<le> mNext m \<and>
     (\<forall>xid < mNext m0. xid \<notin> dom (mActive m0) \<longrightarrow>
        xid \<notin> dom (mActive m) \<and> statusLocked m xid = statusLocked m0 xid)"

section \<open>The manager's invariant\<close>

lemmas tm_defs = Attach_def Commit_def Abort_def BeginRead_def EndRead_def Refresh_def LockKey_def LockRange_def Let_def

lemma NewManager_inv: "next \<le> push_bit 63 1 \<Longrightarrow> tm_inv (NewManager next)"
  by (auto simp: tm_inv_def NewManager_def word_le_nat_alt)

lemma succ_le: "(x::u64) < y \<Longrightarrow> x + 1 \<le> y \<and> x < x + 1 \<and> x + 1 \<noteq> 0"
proof -
  assume xy: "x < y"
  have "unat y < 2 ^ LENGTH(64)" by (rule unsigned_less)
  then have u: "unat (x + 1) = unat x + 1" using xy by (simp add: word_less_nat_alt unat_word_ariths)
  then have "x + 1 \<noteq> 0" by auto
  with u xy show ?thesis by (simp add: word_less_nat_alt word_le_nat_alt)
qed

lemma tm_inv_readers: "tm_inv m \<Longrightarrow> dom r \<subseteq> dom (mReaders m) \<Longrightarrow> tm_inv (m\<lparr>mReaders := r\<rparr>)"
  unfolding tm_inv_def by (simp add: subset_iff)

lemma tm_step_inv: "tm_step m m' \<Longrightarrow> tm_inv m \<Longrightarrow> tm_inv m'"
proof (induction rule: tm_step.induct)
  case (attach m tid lvl)
  then have "tid + 1 \<le> push_bit 63 1 \<and> tid < tid + 1 \<and> tid + 1 \<noteq> 0" by (intro succ_le)
  moreover have "tid \<noteq> 0" using attach by (auto simp: tm_inv_def)
  moreover have "x < mNext m \<Longrightarrow> x < tid + 1" for x using attach(1) calculation(1) by (meson less_le_trans order_less_trans)
  ultimately show ?case using attach by (auto simp: tm_inv_def tm_defs)
next
  case (commit tid m)
  then show ?case by (auto simp: tm_inv_def tm_defs)
next
  case (abort tid m)
  then show ?case by (auto simp: tm_inv_def tm_defs)
next
  case (beginRead m lvl m' h)
  let ?n = "mNextRead m"
  have n: "?n + 1 \<le> push_bit 63 1 \<and> ?n < ?n + 1" using succ_le [OF beginRead(1)] by simp
  have m': "m' = m\<lparr>mNextRead := ?n + 1, mReaders := (mReaders m)(push_bit 63 1 OR ?n \<mapsto> h)\<rparr>"
    using beginRead(2) by (auto simp: BeginRead_def Let_def)
  have "\<exists>k < ?n + 1. x = push_bit 63 1 OR k" if "x \<in> dom (mReaders m')" for x
  proof (cases "x = push_bit 63 1 OR ?n")
    case False
    then have "x \<in> dom (mReaders m)" using that by (auto simp: m')
    then obtain k where "k < ?n" "x = push_bit 63 1 OR k" using beginRead.prems unfolding tm_inv_def by blast
    moreover have "k < ?n + 1" using \<open>k < ?n\<close> n by (meson order_less_trans)
    ultimately show ?thesis by blast
  qed (use n in blast)
  then show ?case using beginRead.prems n by (simp add: m' tm_inv_def)
next
  case (endRead m tid m')
  then have "m' = m \<or> m' = m\<lparr>mReaders := (mReaders m)(tid := None)\<rparr>"
    by (auto simp: EndRead_def split: if_splits)
  then show ?case using endRead.prems tm_inv_readers [of m "(mReaders m)(tid := None)"] by auto
next
  case (refresh m ho)
  show ?case
  proof (cases ho)
    case (Some h)
    let ?u = "\<lambda>f. if f (hID h) = Some h then f(hID h \<mapsto> h\<lparr>hSnap := captureLocked m (hID h)\<rparr>) else f"
    have d: "dom (?u f) = dom f" for f by auto
    have f: "fst (Refresh m ho) = m\<lparr>mActive := ?u (mActive m), mReaders := ?u (mReaders m)\<rparr>"
      by (simp add: Refresh_def Let_def Some)
    show ?thesis using refresh unfolding tm_inv_def f by (simp add: d del: dom_fun_upd fun_upd_apply)
  qed (use refresh in \<open>simp add: Refresh_def\<close>)
next
  case (lockKey m ctx ho k mode tag)
  then show ?case by (auto simp: tm_inv_def tm_defs split: option.splits prod.splits)
next
  case (lockRange m ctx ho s e mode tag)
  then show ?case by (auto simp: tm_inv_def tm_defs split: option.splits prod.splits)
qed

lemma tm_reach_inv: "tm_reach m \<Longrightarrow> tm_inv m"
  by (induction rule: tm_reach.induct) (auto simp: NewManager_inv tm_step_inv)

section \<open>Settled ids stay settled\<close>

lemma settled_refl: "settled m m"
  by (simp add: settled_def)

lemma settled_same:
  assumes "settled m0 m" and "mNext m' = mNext m" and "dom (mActive m') = dom (mActive m)" and "mStatus m' = mStatus m"
  shows "settled m0 m'"
proof -
  have "mActive m' x = None \<longleftrightarrow> mActive m x = None" for x using assms(3) by (metis domIff)
  then have "statusLocked m' x = statusLocked m x" for x using assms(4) by (auto simp: statusLocked_def)
  then show ?thesis using assms unfolding settled_def by simp
qed

lemma statusLocked_other:
  "xid \<noteq> tid \<Longrightarrow> statusLocked (Commit m tid) xid = statusLocked m xid"
  "xid \<noteq> tid \<Longrightarrow> statusLocked (Abort m tid) xid = statusLocked m xid"
  "xid \<noteq> tid \<Longrightarrow> statusLocked (fst (Attach m tid lvl)) xid = statusLocked m xid"
  by (auto simp: statusLocked_def Commit_def Abort_def Attach_def Let_def)

lemma settled_finish:
  assumes s: "settled m0 m" and t: "tid \<in> dom (mActive m)"
  shows "settled m0 (Commit m tid)" and "settled m0 (Abort m tid)"
proof -
  have "xid \<noteq> tid" if "xid < mNext m0" "xid \<notin> dom (mActive m0)" for xid using that s t by (auto simp: settled_def)
  then show "settled m0 (Commit m tid)" and "settled m0 (Abort m tid)"
    using s unfolding settled_def by (simp_all add: statusLocked_other) (simp_all add: Commit_def Abort_def)
qed

lemma settled_attach:
  assumes s: "settled m0 m" and "mNext m \<le> tid" and "tid < push_bit 63 1"
  shows "settled m0 (fst (Attach m tid lvl))"
proof -
  have le: "mNext m0 \<le> tid" using assms unfolding settled_def by (meson order_trans)
  then have ne: "xid \<noteq> tid" if "xid < mNext m0" for xid using that by (meson leD)
  have "tid \<le> tid + 1" using succ_le [OF assms(3)] by (simp add: order_less_imp_le)
  then have "mNext m0 \<le> mNext (fst (Attach m tid lvl))"
    using le assms(2) by (simp add: Attach_def Let_def order_trans)
  then show ?thesis using s ne unfolding settled_def by (simp add: statusLocked_other) (simp add: Attach_def Let_def)
qed

lemma tm_step_settled: "tm_step m m' \<Longrightarrow> tm_inv m \<Longrightarrow> settled m0 m \<Longrightarrow> settled m0 m'"
proof (induction rule: tm_step.induct)
  case (attach m tid lvl)
  then show ?case by (simp add: settled_attach)
next
  case (beginRead m lvl m' h)
  then show ?case by (intro settled_same [OF beginRead.prems(2)]) (auto simp: BeginRead_def Let_def)
next
  case (endRead m tid m')
  then show ?case by (intro settled_same [OF endRead.prems(2)]) (auto simp: EndRead_def split: if_splits)
next
  case (refresh m ho)
  then show ?case by (intro settled_same [OF refresh.prems(2)]) (auto simp: Refresh_def Let_def split: option.splits)
next
  case (lockKey m ctx ho k mode tag)
  then show ?case by (intro settled_same [OF lockKey.prems(2)]) (auto simp: LockKey_def split: option.splits prod.splits)
next
  case (lockRange m ctx ho s e mode tag)
  then show ?case by (intro settled_same [OF lockRange.prems(2)]) (auto simp: LockRange_def split: option.splits prod.splits)
qed (simp_all add: settled_finish)

lemma tm_steps_settled: "tm_step\<^sup>*\<^sup>* m0 m \<Longrightarrow> tm_inv m0 \<Longrightarrow> tm_inv m \<and> settled m0 m"
  by (induction rule: rtranclp_induct) (auto simp: settled_refl tm_step_settled tm_step_inv)

lemma sees_capture:
  assumes "tm_inv m0" and "settled m0 m"
  shows "Sees (captureLocked m0 tid) xid (Some (StatusFn m)) \<longleftrightarrow>
    xid = 0 \<or> xid = tid \<or> xid < mNext m0 \<and> statusLocked m0 xid = StatusCommitted"
proof (cases "xid = 0 \<or> xid = tid")
  case True
  then show ?thesis by (auto simp: Sees_def captureLocked_def)
next
  case False
  consider "mNext m0 \<le> xid" | "xid \<in> dom (mActive m0)" | "xid < mNext m0" "xid \<notin> dom (mActive m0)" by fastforce
  then show ?thesis
  proof cases
    case 1
    then show ?thesis using False assms(1) by (auto simp: Sees_def captureLocked_def tm_inv_def)
  next
    case 2
    then have "statusLocked m0 xid = StatusInProgress" using assms(1) False by (auto simp: tm_inv_def statusLocked_def)
    then show ?thesis using False 2 by (auto simp: Sees_def captureLocked_def)
  next
    case 3
    then have "StatusFn m xid = statusLocked m0 xid" using assms(2) by (auto simp: settled_def StatusFn_def)
    moreover have "statusLocked m0 xid \<noteq> StatusUnknown"
      using assms(1) by (auto simp: tm_inv_def statusLocked_def split: option.splits)
    ultimately show ?thesis using False 3 by (cases "statusLocked m0 xid") (auto simp: Sees_def captureLocked_def)
  qed
qed

section \<open>Reader tokens\<close>

lemma or_ge: "(a::u64) \<le> a OR b"
proof -
  have "a AND (a OR b) = a" by (rule bit_word_eqI) (auto simp: bit_simps)
  moreover have "a AND (a OR b) \<le> a OR b" by (rule word_and_le1)
  ultimately show ?thesis by simp
qed

lemma readerBit_inj:
  assumes "push_bit 63 1 OR a = push_bit 63 1 OR (b::u64)" and "a < push_bit 63 1" and "b < push_bit 63 1"
  shows "a = b"
proof -
  have low: "take_bit 63 x = x" if "x < push_bit 63 1" for x :: u64
  proof -
    have "unat x < 2 ^ 63" using that by (simp add: word_less_nat_alt)
    then show ?thesis by (simp add: word_unat_eq_iff unsigned_take_bit_eq take_bit_nat_eq_self)
  qed
  have "take_bit 63 (push_bit 63 1 OR x) = take_bit 63 x" for x :: u64
    by (simp only: take_bit_or take_bit_push_bit) simp
  then show ?thesis using assms low by metis
qed

section \<open>Properties\<close>

text \<open>C19: a snapshot sees exactly the work committed when it was taken. However the run
  continues, a transaction id is seen through it if and only if it is the pre-MVCC id 0, the
  snapshot's own transaction, or an id allocated before the capture whose transaction had
  committed by then. Nothing uncommitted, aborted or later ever becomes visible.\<close>

theorem snapshot_sees_committed:
  assumes "tm_reach m0" and "tm_step\<^sup>*\<^sup>* m0 m"
  shows "Sees (Capture m0 tid) xid (Some (StatusFn m)) \<longleftrightarrow>
    xid = 0 \<or> xid = tid \<or> xid < mNext m0 \<and> statusLocked m0 xid = StatusCommitted"
  using sees_capture tm_steps_settled [OF assms(2) tm_reach_inv [OF assms(1)]] tm_reach_inv [OF assms(1)]
  by (simp add: Capture_def)

definition run1 :: Manager where "run1 = fst (Attach (fst (Attach (NewManager 1) 1 IsoUnset)) 2 IsoUnset)"

lemma run1_reach: "tm_reach run1" "1 \<in> dom (mActive run1)"
proof -
  have "tm_reach (NewManager 1)" by (rule tm_reach.init) simp
  then have "tm_reach (fst (Attach (NewManager 1) 1 IsoUnset))"
    by (rule tm_reach.step) (rule tm_step.attach; simp add: NewManager_def)
  then show "tm_reach run1" unfolding run1_def
    by (rule tm_reach.step) (rule tm_step.attach; simp add: NewManager_def Attach_def Let_def)
  show "1 \<in> dom (mActive run1)" by (simp add: run1_def Attach_def Let_def)
qed

theorem snapshot_sees_committed_witness:
  "tm_reach run1 \<and> tm_step\<^sup>*\<^sup>* run1 (Commit run1 1) \<and>
   statusLocked (Commit run1 1) 1 = StatusCommitted \<and> \<not> Sees (Capture run1 2) 1 (Some (StatusFn (Commit run1 1)))"
proof -
  have s: "tm_step\<^sup>*\<^sup>* run1 (Commit run1 1)" by (rule r_into_rtranclp, rule tm_step.commit [OF run1_reach(2)])
  have "statusLocked run1 1 = StatusInProgress" by (simp add: run1_def Attach_def NewManager_def Let_def statusLocked_def)
  then show ?thesis
    using s run1_reach(1) snapshot_sees_committed [OF run1_reach(1) s, of 2 1] by (simp add: statusLocked_def Commit_def)
qed

text \<open>C11: visibility of a row version under a snapshot is stable: whatever other transactions
  do after the capture, the same version stays visible or stays invisible, so a transaction
  under snapshot isolation reads the same rows every time.\<close>

theorem snapshot_visibility_stable:
  assumes "tm_reach m0" and "tm_step\<^sup>*\<^sup>* m0 m"
  shows "Visible (Capture m0 tid) xmin xmax (Some (StatusFn m)) = Visible (Capture m0 tid) xmin xmax (Some (StatusFn m0))"
proof -
  note i = tm_reach_inv [OF assms(1)]
  have "Sees (Capture m0 tid) xid (Some (StatusFn m)) = Sees (Capture m0 tid) xid (Some (StatusFn m0))" for xid
    using sees_capture [OF i settled_refl] sees_capture [OF i] tm_steps_settled [OF assms(2) i] by (simp add: Capture_def)
  then show ?thesis by (simp add: Visible_def)
qed

theorem snapshot_visibility_stable_witness:
  "tm_reach run1 \<and> tm_step\<^sup>*\<^sup>* run1 (Commit run1 1) \<and>
   Visible (Capture run1 2) 0 1 (Some (StatusFn (Commit run1 1))) = Visible (Capture run1 2) 0 1 (Some (StatusFn run1))"
proof -
  have s: "tm_step\<^sup>*\<^sup>* run1 (Commit run1 1)" by (rule r_into_rtranclp, rule tm_step.commit [OF run1_reach(2)])
  show ?thesis using s run1_reach(1) snapshot_visibility_stable [OF run1_reach(1) s] by simp
qed

lemma Recover_status:
  assumes "tid \<in> set committed" and "tid \<notin> set aborted"
  shows "mStatus (Recover m nxt committed aborted) tid = Some StatusCommitted"
proof -
  have keep: "foldl (\<lambda>st t. st(t \<mapsto> x)) st ts tid = st tid" if "tid \<notin> set ts" for st ts and x :: Status
    using that by (induction ts arbitrary: st) auto
  have put: "foldl (\<lambda>st t. st(t \<mapsto> x)) st ts tid = Some x" if "tid \<in> set ts" for st ts and x :: Status
    using that
  proof (induction ts arbitrary: st)
    case (Cons t ts)
    then show ?case using keep [of ts x "st(t \<mapsto> x)"] by (cases "tid \<in> set ts") (auto simp del: fun_upd_apply, simp)
  qed simp
  show ?thesis using assms by (simp add: Recover_def Let_def keep put)
qed

text \<open>C33: on a replica the guarantee fails. \<open>captureLocked\<close> collects only attached transactions, so a transaction
  that is known only through \<open>NoteInProgress\<close> is missing from the active set of a read snapshot taken while it
  runs. This holds for every manager and every transaction it did not know, with an id below the next one. The
  snapshot does not see it at first, because of its status, and sees it once \<open>Recover\<close> has recorded the commit:
  a row it wrote becomes visible under a snapshot taken before.\<close>

theorem replica_snapshot_unstable:
  assumes "NoteInProgress (Some m0) xid = Some m" and "xid \<noteq> 0" and "xid < mNext m0"
    and "mStatus m0 xid = None" and "mActive m0 xid = None"
    and "xid \<in> set committed" and "xid \<notin> set aborted"
  shows "let s = hSnap (snd (BeginRead (Some m) lvl)); m' = Recover m nxt committed aborted in
    xid \<notin> snActive s \<and> \<not> Visible s xid 0 (Some (StatusFn m)) \<and> Visible s xid 0 (Some (StatusFn m'))"
proof -
  have m: "m = m0\<lparr>mStatus := (mStatus m0)(xid \<mapsto> StatusInProgress)\<rparr>" using assms(1,2,4) by (simp add: NoteInProgress_def)
  have s: "hSnap (snd (BeginRead (Some m) lvl)) = \<lparr>snTid = 0, snXmax = mNext m0, snActive = dom (mActive m0) - {0}\<rparr>"
    by (simp add: BeginRead_def Let_def captureLocked_def m)
  have "statusLocked m xid = StatusInProgress" "statusLocked (Recover m nxt committed aborted) xid = StatusCommitted"
    using assms(2) Recover_status [OF assms(6,7), of m nxt] by (simp_all add: statusLocked_def m)
  then show ?thesis using assms(2,3,5) by (auto simp: s Let_def Visible_def Sees_def StatusFn_def)
qed

theorem replica_snapshot_unstable_witness:
  "let m0 = NewManager 4; m = m0\<lparr>mStatus := [2 \<mapsto> StatusInProgress]\<rparr>; s = hSnap (snd (BeginRead (Some m) SnapshotIsolation)) in
    NoteInProgress (Some m0) 2 = Some m \<and> \<not> Visible s 2 0 (Some (StatusFn m)) \<and> Visible s 2 0 (Some (StatusFn (Recover m 4 [2] [])))"
proof -
  have n: "NoteInProgress (Some (NewManager 4)) 2 = Some ((NewManager 4)\<lparr>mStatus := [2 \<mapsto> StatusInProgress]\<rparr>)"
    by (simp add: NoteInProgress_def NewManager_def)
  have "2 < mNext (NewManager 4)" "mStatus (NewManager 4) 2 = None" "mActive (NewManager 4) 2 = None" by (simp_all add: NewManager_def)
  then show ?thesis using n replica_snapshot_unstable [OF n, of "[2]" "[]" SnapshotIsolation 4] by (simp add: Let_def)
qed

text \<open>C34: \<open>Commit\<close> ends a transaction completely: its status is final, it is no longer
  active, it holds no lock, no other transaction's status changes, and the lock table stays
  consistent.\<close>

theorem commit_ends_transaction:
  assumes "lm_inv (mLocks m)" and "\<not> waitingTxn (mLocks m) tid" and "tid \<noteq> 0"
  shows "statusLocked (Commit m tid) tid = StatusCommitted \<and> tid \<notin> ActiveWriterIDs (Some (Commit m tid)) \<and>
    (\<forall>l \<in> held (mLocks (Commit m tid)). fst l \<noteq> tid) \<and> lm_inv (mLocks (Commit m tid)) \<and>
    (\<forall>xid. xid \<noteq> tid \<longrightarrow> statusLocked (Commit m tid) xid = statusLocked m xid)"
proof -
  have r: "mLocks (Commit m tid) = ReleaseAll (mLocks m) tid" by (simp add: Commit_def)
  have "held (ReleaseAll (mLocks m) tid) \<subseteq> {l \<in> held (mLocks m). fst l \<noteq> tid} \<union> lockW ` set (lmWaiters (mLocks m))"
    by (rule ReleaseAll_spec(4) [OF assms(1) refl])
  then have "\<forall>l \<in> held (mLocks (Commit m tid)). fst l \<noteq> tid"
    using assms(2) unfolding r waitingTxn_def by (fastforce simp: lockW_def)
  moreover have "lm_inv (mLocks (Commit m tid))" unfolding r by (rule ReleaseAll_spec(1) [OF assms(1) refl])
  ultimately show ?thesis
    by (auto simp: statusLocked_other) (simp_all add: statusLocked_def Commit_def ActiveWriterIDs_def assms(3))
qed

theorem commit_ends_transaction_witness:
  "lm_inv (mLocks run1) \<and> \<not> waitingTxn (mLocks run1) 1 \<and> statusLocked (Commit run1 1) 1 = StatusCommitted \<and>
   1 \<notin> ActiveWriterIDs (Some (Commit run1 1))"
proof -
  have l: "mLocks run1 = NewLockManager" by (simp add: run1_def Attach_def NewManager_def Let_def)
  have "lm_inv NewLockManager"
    by (simp add: lm_inv_def NewLockManager_def lm_wf_def held_def holdersOf_def exclusion_def waiters_ok_def
      edges_def succs_def wgraph_def acyclic_def)
  moreover have "\<not> waitingTxn NewLockManager 1" by (simp add: waitingTxn_def NewLockManager_def)
  ultimately show ?thesis using commit_ends_transaction [of run1 1] by (simp add: l)
qed

text \<open>The token of a read snapshot never collides: \<open>BeginRead\<close> returns an id that no
  registered reader has and that no writer has or can get, so a writer never mistakes a
  reader's snapshot for its own.\<close>

theorem reader_token_fresh:
  assumes "tm_reach m" and "mNextRead m < push_bit 63 1"
  shows "hID (snd (BeginRead (Some m) lvl)) \<notin> dom (mReaders m) \<and>
    hID (snd (BeginRead (Some m) lvl)) \<notin> dom (mActive m) \<and> mNext m \<le> hID (snd (BeginRead (Some m) lvl))"
proof -
  let ?t = "push_bit 63 1 OR mNextRead m"
  have t: "hID (snd (BeginRead (Some m) lvl)) = ?t" by (simp add: BeginRead_def Let_def)
  note i = tm_reach_inv [OF assms(1)]
  have inj: "a = b" if "push_bit 63 1 OR a = push_bit 63 1 OR (b::u64)" "a < push_bit 63 1" "b < push_bit 63 1" for a b
    using that readerBit_inj by blast
  have "mNext m \<le> push_bit 63 1" using i by (simp add: tm_inv_def)
  also have "push_bit 63 1 \<le> ?t" by (rule or_ge)
  finally have ge: "mNext m \<le> ?t" .
  have "?t \<notin> dom (mReaders m)"
  proof
    assume "?t \<in> dom (mReaders m)"
    then obtain n where n: "n < mNextRead m" "?t = push_bit 63 1 OR n" using i unfolding tm_inv_def by blast
    then have "n < push_bit 63 1" using assms(2) by (meson order_less_trans)
    then show False using inj [OF n(2) assms(2)] n(1) by simp
  qed
  moreover have "?t \<notin> dom (mActive m)" using ge i unfolding tm_inv_def by (meson leD)
  ultimately show ?thesis unfolding t using ge by blast
qed

theorem reader_token_fresh_witness:
  "tm_reach run1 \<and> mNextRead run1 < push_bit 63 1 \<and> mNext run1 \<le> hID (snd (BeginRead (Some run1) ReadCommitted))"
proof -
  have "mNextRead run1 < push_bit 63 1" by (simp add: run1_def Attach_def NewManager_def Let_def)
  then show ?thesis using run1_reach(1) reader_token_fresh [OF run1_reach(1)] by simp
qed

end
