(* ===== verification/Envelope.thy ===== *)
theory Envelope
  imports Binary
begin

text \<open>
  The authenticated encryption wrappers of \<open>internal/crypto/aead.go\<close> and the page
  envelope of \<open>internal/crypto/envelope.go\<close>. AES-256-GCM itself is the AEAD interface
  of the runtime: the functions \<open>seal\<close> and \<open>opn\<close> of the key, the nonce, the text
  and the additional data are parameters, and \<open>aead_law\<close> is what the interface promises.
  A nil data key is \<open>None\<close>; metrics are not modelled.
\<close>

type_synonym CipherSuite = u16

definition CipherAES256GCM :: CipherSuite where "CipherAES256GCM = 1"

definition CurrentEnvelopeVersion :: u16 where "CurrentEnvelopeVersion = 1"

abbreviation (input) EnvelopeHeaderSize :: nat where "EnvelopeHeaderSize \<equiv> 32"
abbreviation (input) PhysicalPageSize :: nat where "PhysicalPageSize \<equiv> 16448"
abbreviation (input) nonceSize :: nat where "nonceSize \<equiv> 12"
abbreviation (input) aadSize :: nat where "aadSize \<equiv> 16"

record DEK =
  dVersion :: KeyVersion
  dSuite :: CipherSuite
  dKey :: bytes

type_synonym sealer = "bytes \<Rightarrow> bytes \<Rightarrow> bytes \<Rightarrow> bytes \<Rightarrow> bytes"
type_synonym opener = "bytes \<Rightarrow> bytes \<Rightarrow> bytes \<Rightarrow> bytes \<Rightarrow> bytes option"
type_synonym keyring = "KeyVersion \<Rightarrow> DEK res"

definition aead_law :: "sealer \<Rightarrow> opener \<Rightarrow> bool" where
  "aead_law seal opn \<longleftrightarrow> (\<forall>k n p a. opn k n (seal k n p a) a = Some p \<and> length (seal k n p a) = length p + AuthTagSize)"

definition makeNonce :: "KeyVersion \<Rightarrow> u64 \<Rightarrow> bytes option" where
  "makeNonce ver generation = do {
     n \<leftarrow> PutU64 (replicate nonceSize 0) 0 generation;
     PutU32 n 8 ver
   }"

definition fillAAD :: "bytes \<Rightarrow> u16 \<Rightarrow> CipherSuite \<Rightarrow> KeyVersion \<Rightarrow> PageID \<Rightarrow> bytes option" where
  "fillAAD aad envVer suite ver pid =
     (if length aad < aadSize then Some aad
      else do {
        a \<leftarrow> PutU16 aad 0 envVer;
        a \<leftarrow> PutU16 a 2 suite;
        a \<leftarrow> PutU32 a 4 ver;
        PutU64 a 8 pid
      })"

definition makeAAD :: "u16 \<Rightarrow> CipherSuite \<Rightarrow> KeyVersion \<Rightarrow> PageID \<Rightarrow> bytes option" where
  "makeAAD envVer suite ver pid = fillAAD (replicate aadSize 0) envVer suite ver pid"

definition SealBytesRandom :: "sealer \<Rightarrow> bytes res \<Rightarrow> DEK option \<Rightarrow> bytes \<Rightarrow> bytes \<Rightarrow> (bytes \<times> bytes) go" where
  "SealBytesRandom seal rnd dek aad plaintext = (case dek of
      None \<Rightarrow> Some (Inl (New InvalidArgument ''crypto.SealBytesRandom'' ''nil DEK''))
    | Some d \<Rightarrow>
        if dSuite d \<noteq> CipherAES256GCM
        then Some (Inl (New Crypto ''crypto.SealBytesRandom'' ''unsupported cipher suite''))
        else (case rnd of
            Inl e \<Rightarrow> Some (Inl (Wrap Crypto ''crypto.SealBytesRandom'' ''rand'' e))
          | Inr n \<Rightarrow> Some (Inr (n, seal (dKey d) n plaintext aad))))"

definition SealBytes :: "sealer \<Rightarrow> DEK option \<Rightarrow> u64 \<Rightarrow> bytes \<Rightarrow> bytes \<Rightarrow> (bytes \<times> bytes) go" where
  "SealBytes seal dek generation aad plaintext = (case dek of
      None \<Rightarrow> Some (Inl (New InvalidArgument ''crypto.SealBytes'' ''nil DEK''))
    | Some d \<Rightarrow>
        if dSuite d \<noteq> CipherAES256GCM then Some (Inl (New Crypto ''crypto.SealBytes'' ''unsupported cipher suite''))
        else if generation = 0 then Some (Inl (New InvalidArgument ''crypto.SealBytes'' ''generation 0 is reserved''))
        else do {
          n \<leftarrow> makeNonce (dVersion d) generation;
          Some (Inr (n, seal (dKey d) n plaintext aad))
        })"

text \<open>The destination buffer of \<open>SealBytesInto\<close> only supplies capacity: the result is the
  ciphertext alone.\<close>

definition SealBytesInto :: "sealer \<Rightarrow> DEK option \<Rightarrow> u64 \<Rightarrow> bytes \<Rightarrow> bytes \<Rightarrow> (bytes \<times> bytes) go" where
  "SealBytesInto seal dek generation aad plaintext = (case dek of
      None \<Rightarrow> Some (Inl (New InvalidArgument ''crypto.SealBytes'' ''nil DEK''))
    | Some d \<Rightarrow>
        if dSuite d \<noteq> CipherAES256GCM then Some (Inl (New Crypto ''crypto.SealBytes'' ''unsupported cipher suite''))
        else if generation = 0 then Some (Inl (New InvalidArgument ''crypto.SealBytes'' ''generation 0 is reserved''))
        else do {
          n \<leftarrow> makeNonce (dVersion d) generation;
          Some (Inr (n, seal (dKey d) n plaintext aad))
        })"

definition OpenBytes :: "opener \<Rightarrow> DEK option \<Rightarrow> bytes \<Rightarrow> bytes \<Rightarrow> bytes \<Rightarrow> bytes go" where
  "OpenBytes opn dek nonce aad ciphertext = (case dek of
      None \<Rightarrow> Some (Inl (New InvalidArgument ''crypto.OpenBytes'' ''nil DEK''))
    | Some d \<Rightarrow>
        if dSuite d \<noteq> CipherAES256GCM then Some (Inl (New Crypto ''crypto.OpenBytes'' ''unsupported cipher suite''))
        else if length nonce \<noteq> nonceSize then Some (Inl (New InvalidFormat ''crypto.OpenBytes'' ''invalid nonce size''))
        else (case opn (dKey d) nonce ciphertext aad of
            None \<Rightarrow> Some (Inl (New Crypto ''crypto.OpenBytes'' ''authentication failed''))
          | Some plain \<Rightarrow> Some (Inr plain)))"

definition SealPageInto :: "sealer \<Rightarrow> DEK option \<Rightarrow> PageID \<Rightarrow> u64 \<Rightarrow> bytes \<Rightarrow> bytes \<Rightarrow> bytes go" where
  "SealPageInto seal dek pid generation logical dst = (case dek of
      None \<Rightarrow> Some (Inl (New InvalidArgument ''crypto.SealPage'' ''nil DEK''))
    | Some d \<Rightarrow>
        if dSuite d \<noteq> CipherAES256GCM then Some (Inl (New Crypto ''crypto.SealPage'' ''unsupported cipher suite''))
        else (case UserData pid of Some e \<Rightarrow> Some (Inl e) | None \<Rightarrow>
          if length logical \<noteq> LogicalPageSize
          then Some (Inl (New InvalidArgument ''crypto.SealPage'' ''logical page has wrong size''))
          else if generation = 0
          then Some (Inl (New InvalidArgument ''crypto.SealPage'' ''generation 0 is reserved''))
          else do {
            nonce \<leftarrow> makeNonce (dVersion d) generation;
            aad \<leftarrow> fillAAD (replicate aadSize 0) CurrentEnvelopeVersion (dSuite d) (dVersion d) pid;
            b \<leftarrow> PutU16 (if length dst < PhysicalPageSize then replicate PhysicalPageSize 0
                        else take PhysicalPageSize dst) 0 CurrentEnvelopeVersion;
            b \<leftarrow> PutU16 b 2 (dSuite d);
            b \<leftarrow> PutU32 b 4 (dVersion d);
            b \<leftarrow> PutU64 b 8 pid;
            b \<leftarrow> copyRange b 16 28 nonce;
            b \<leftarrow> copyRange b 28 32 (replicate 4 0);
            let sealed = seal (dKey d) nonce logical aad in
            if length sealed \<noteq> LogicalPageSize + AuthTagSize
            then Some (Inl (New Internal ''crypto.SealPage'' ''unexpected AEAD output length''))
            else map_option Inr (copyAt b EnvelopeHeaderSize sealed)
          }))"

definition SealPage :: "sealer \<Rightarrow> DEK option \<Rightarrow> PageID \<Rightarrow> u64 \<Rightarrow> bytes \<Rightarrow> bytes go" where
  "SealPage seal dek pid generation logical = SealPageInto seal dek pid generation logical []"

text \<open>On success the page is in \<open>dst\<close>, which the model returns; a failed open may leave
  \<open>dst\<close> in any state, and its callers drop it.\<close>

definition OpenPageInto :: "opener \<Rightarrow> keyring option \<Rightarrow> PageID \<Rightarrow> bytes \<Rightarrow> bytes \<Rightarrow> bytes go" where
  "OpenPageInto opn keys want physical dst = (case keys of
      None \<Rightarrow> Some (Inl (New InvalidArgument ''crypto.OpenPage'' ''nil key provider''))
    | Some ks \<Rightarrow>
      (case UserData want of Some e \<Rightarrow> Some (Inl e) | None \<Rightarrow>
        if length physical \<noteq> PhysicalPageSize
        then Some (Inl (New InvalidFormat ''crypto.OpenPage'' ''truncated or oversized physical page''))
        else if length dst \<noteq> LogicalPageSize
        then Some (Inl (New InvalidArgument ''crypto.OpenPage'' ''logical destination has wrong size''))
        else gbind (ReadU16 physical 0) (\<lambda>envVer.
          if envVer \<noteq> CurrentEnvelopeVersion
          then Some (Inl (New InvalidFormat ''crypto.OpenPage'' ''unsupported envelope version''))
          else do {
            suite \<leftarrow> U16 physical 2;
            if suite \<noteq> CipherAES256GCM
            then Some (Inl (New Crypto ''crypto.OpenPage'' ''unsupported cipher suite''))
            else do {
              keyVer \<leftarrow> U32 physical 4;
              gotID \<leftarrow> U64 physical 8;
              if gotID \<noteq> want
              then Some (Inl (New Corruption ''crypto.OpenPage'' ''envelope page id mismatch''))
              else gbind (Some (ks keyVer)) (\<lambda>d.
                if dSuite d \<noteq> suite
                then Some (Inl (New Crypto ''crypto.OpenPage'' ''key suite does not match envelope''))
                else do {
                  nonce \<leftarrow> goSlice physical 16 28;
                  aad \<leftarrow> fillAAD (replicate aadSize 0) envVer suite keyVer gotID;
                  ct \<leftarrow> goSlice physical EnvelopeHeaderSize (EnvelopeHeaderSize + LogicalPageSize + AuthTagSize);
                  (case opn (dKey d) nonce ct aad of
                     None \<Rightarrow> Some (Inl (New Crypto ''crypto.OpenPage'' ''authentication failed''))
                   | Some plain \<Rightarrow>
                       if length plain \<noteq> LogicalPageSize
                       then Some (Inl (New Corruption ''crypto.OpenPage'' ''decrypted page has wrong size''))
                       else Some (Inr plain))
                })
            }
          })))"

definition OpenPage :: "opener \<Rightarrow> keyring option \<Rightarrow> PageID \<Rightarrow> bytes \<Rightarrow> bytes go" where
  "OpenPage opn keys want physical = OpenPageInto opn keys want physical (replicate LogicalPageSize 0)"

section \<open>Nonces and headers\<close>

lemma makeNonce_eq: "makeNonce ver gen = Some (le_bytes 8 (unat gen) @ le_bytes 4 (unat ver))"
  by (simp add: makeNonce_def go_defs blit_def)

lemma le_bytes_inj:
  fixes v w :: "'a::len word"
  assumes "256 ^ n = (2::nat) ^ LENGTH('a)" and "le_bytes n (unat v) = le_bytes n (unat w)"
  shows "v = w"
  using word_le_roundtrip [OF assms(1), of v] word_le_roundtrip [OF assms(1), of w] assms(2) by metis

lemma fillAAD_ok: "\<exists>a. fillAAD (replicate 16 0) envVer suite ver pid = Some a"
  by (simp add: fillAAD_def go_defs)

lemma SealPageInto_layout:
  assumes "dSuite d = CipherAES256GCM" and "pid \<noteq> 0" and "length logical = 16384" and "gen \<noteq> 0"
    and len: "\<And>n a. length (seal (dKey d) n logical a) = 16400"
    and aad: "fillAAD (replicate 16 0) CurrentEnvelopeVersion (dSuite d) (dVersion d) pid = Some aad"
  shows "\<exists>phys. SealPageInto seal (Some d) pid gen logical dst = Some (Inr phys) \<and> length phys = 16448 \<and>
    U16 phys 0 = Some CurrentEnvelopeVersion \<and> U16 phys 2 = Some (dSuite d) \<and> U32 phys 4 = Some (dVersion d) \<and>
    U64 phys 8 = Some pid \<and> slice phys 16 12 = le_bytes 8 (unat gen) @ le_bytes 4 (unat (dVersion d)) \<and>
    slice phys 32 16400 = seal (dKey d) (le_bytes 8 (unat gen) @ le_bytes 4 (unat (dVersion d))) logical aad"
proof -
  let ?n = "le_bytes 8 (unat gen) @ le_bytes 4 (unat (dVersion d))"
  define b where "b = (if length dst < 16448 then replicate 16448 0 else take 16448 dst)"
  have b: "length b = 16448" by (simp add: b_def)
  let ?s = "seal (dKey d) ?n logical aad"
  show ?thesis
    using b assms(1-4) len [of ?n aad]
    unfolding SealPageInto_def option.case assms(1) UserData_None [THEN iffD2, OF assms(2)] makeNonce_eq
      aad [unfolded assms(1)] b_def [symmetric]
    by (simp add: go_defs buf_simps Let_def)
qed

section \<open>Properties\<close>

text \<open>C35: no two writes ever share a nonce: the nonce determines the key version and the
  generation it was made from.\<close>

theorem nonce_injective: "makeNonce v g = makeNonce v' g' \<longleftrightarrow> v = v' \<and> g = g'"
  by (auto simp: makeNonce_eq dest!: le_bytes_inj [rotated])

text \<open>C25: an encrypted page opens to exactly what was sealed, whatever buffers are reused,
  and opening it under any other page number is refused before any decryption: a page cannot
  be moved to another place of the file.\<close>

theorem page_envelope_roundtrip:
  assumes "aead_law seal opn" and "dSuite d = CipherAES256GCM" and "keys (dVersion d) = Inr d"
    and "pid \<noteq> 0" and "gen \<noteq> 0" and "length logical = 16384" and "length dst' = 16384"
  shows "\<exists>phys. SealPageInto seal (Some d) pid gen logical dst = Some (Inr phys) \<and> length phys = 16448 \<and>
    OpenPageInto opn (Some keys) pid phys dst' = Some (Inr logical) \<and>
    (\<forall>want. want \<noteq> pid \<longrightarrow> want \<noteq> 0 \<longrightarrow> OpenPageInto opn (Some keys) want phys dst' =
       Some (Inl (New Corruption ''crypto.OpenPage'' ''envelope page id mismatch'')))"
proof -
  obtain aad where aad: "fillAAD (replicate 16 0) CurrentEnvelopeVersion (dSuite d) (dVersion d) pid = Some aad"
    using fillAAD_ok by blast
  have law: "opn k n (seal k n p a) a = Some p" "length (seal k n p a) = length p + 16" for k n p a
    using assms(1) by (simp_all add: aead_law_def)
  obtain phys where p: "SealPageInto seal (Some d) pid gen logical dst = Some (Inr phys)" "length phys = 16448"
      "U16 phys 0 = Some CurrentEnvelopeVersion" "U16 phys 2 = Some (dSuite d)" "U32 phys 4 = Some (dVersion d)"
      "U64 phys 8 = Some pid" "slice phys 16 12 = le_bytes 8 (unat gen) @ le_bytes 4 (unat (dVersion d))"
      "slice phys 32 16400 = seal (dKey d) (le_bytes 8 (unat gen) @ le_bytes 4 (unat (dVersion d))) logical aad"
    using SealPageInto_layout [OF assms(2,4,6,5), of seal aad dst] law(2) aad assms(6) by auto
  have r: "ReadU16 phys 0 = Some (Inr CurrentEnvelopeVersion)" using p(2,3) by (simp add: ReadU16_def bounds_def)
  have o: "OpenPageInto opn (Some keys) pid phys dst' = Some (Inr logical)"
    using p assms r law aad by (simp add: OpenPageInto_def goSlice_def UserData_None [THEN iffD2])
  moreover have "OpenPageInto opn (Some keys) want phys dst' =
      Some (Inl (New Corruption ''crypto.OpenPage'' ''envelope page id mismatch''))" if "want \<noteq> pid" "want \<noteq> 0" for want
    using p assms(2,7) r that by (simp add: OpenPageInto_def UserData_None [THEN iffD2])
  ultimately show ?thesis using p(1,2) by blast
qed

text \<open>An AEAD for the witnesses: the ciphertext is the text with an empty tag.\<close>

definition tagSeal :: sealer where "tagSeal k n p a = p @ replicate 16 0"

definition tagOpen :: opener where "tagOpen k n c a = Some (take (length c - 16) c)"

lemma tag_law: "aead_law tagSeal tagOpen"
  by (simp add: aead_law_def tagSeal_def tagOpen_def)

theorem page_envelope_roundtrip_witness:
  "\<exists>phys. SealPageInto tagSeal (Some \<lparr>dVersion = 3, dSuite = 1, dKey = []\<rparr>) 7 1 (replicate 16384 5) [] = Some (Inr phys) \<and>
     OpenPageInto tagOpen (Some (\<lambda>_. Inr \<lparr>dVersion = 3, dSuite = 1, dKey = []\<rparr>)) 7 phys (replicate 16384 0) =
       Some (Inr (replicate 16384 5))"
  using page_envelope_roundtrip [OF tag_law, of "\<lparr>dVersion = 3, dSuite = 1, dKey = []\<rparr>"
      "\<lambda>_. Inr \<lparr>dVersion = 3, dSuite = 1, dKey = []\<rparr>" 7 1 "replicate 16384 5" "replicate 16384 0" "[]"]
  by (auto simp: CipherAES256GCM_def)

end
