(* ===== verification/WalFormat.thy ===== *)
theory WalFormat
  imports Envelope
begin

text \<open>
  The write-ahead log's record layout: \<open>internal/wal/format.go\<close>, the segment header of
  \<open>internal/wal/segment.go\<close> and the control file of \<open>internal/wal/control.go\<close>. Each
  encoder writes into a zeroed buffer as the source does; the round trips are at the end.
\<close>

abbreviation (input) walMagic :: u32 where "walMagic \<equiv> 0x4C57534E"
abbreviation (input) walCurrentVersion :: u16 where "walCurrentVersion \<equiv> 1"
abbreviation (input) walHeaderSize :: nat where "walHeaderSize \<equiv> 40"
abbreviation (input) payloadHeaderSize :: nat where "payloadHeaderSize \<equiv> 28"

text \<open>Record types are 16-bit numbers; 1 to 13 are known.\<close>

definition RecBegin :: u16 where "RecBegin = 1"
definition RecInsert :: u16 where "RecInsert = 2"
definition RecDelete :: u16 where "RecDelete = 3"
definition RecUpdate :: u16 where "RecUpdate = 4"
definition RecPageImage :: u16 where "RecPageImage = 5"
definition RecCommit :: u16 where "RecCommit = 6"
definition RecAbort :: u16 where "RecAbort = 7"
definition RecCheckpoint :: u16 where "RecCheckpoint = 8"
definition RecTreeMeta :: u16 where "RecTreeMeta = 9"
definition RecAllocState :: u16 where "RecAllocState = 10"
definition RecUndo :: u16 where "RecUndo = 11"
definition RecChange :: u16 where "RecChange = 12"
definition RecPageDelta :: u16 where "RecPageDelta = 13"

lemmas rec_type_defs = RecBegin_def RecInsert_def RecDelete_def RecUpdate_def RecPageImage_def RecCommit_def
  RecAbort_def RecCheckpoint_def RecTreeMeta_def RecAllocState_def RecUndo_def RecChange_def RecPageDelta_def

definition known :: "u16 \<Rightarrow> bool" where
  "known t \<longleftrightarrow> t \<ge> RecBegin \<and> t \<le> RecPageDelta"

record Record =
  rType :: u16
  rFlags :: u16
  rLSN :: LSN
  rTxnID :: TxnID
  rPrevLSN :: LSN
  rPageID :: PageID
  rBody :: bytes

section \<open>Payloads\<close>

definition encodePayloadInto :: "bytes \<Rightarrow> Record \<Rightarrow> bytes option" where
  "encodePayloadInto buf r =
     (let n = payloadHeaderSize + length (rBody r);
          buf = (if length buf < n then replicate n 0 else take n buf)
      in do {
        buf \<leftarrow> PutU16 buf 0 (rType r);
        buf \<leftarrow> PutU16 buf 2 (rFlags r);
        buf \<leftarrow> PutU64 buf 4 (rTxnID r);
        buf \<leftarrow> PutU64 buf 12 (rPrevLSN r);
        buf \<leftarrow> PutU64 buf 20 (rPageID r);
        copyAt buf payloadHeaderSize (rBody r)
      })"

definition encodePayload :: "Record \<Rightarrow> bytes option" where
  "encodePayload r = encodePayloadInto [] r"

definition decodePayload :: "LSN \<Rightarrow> bytes \<Rightarrow> Record go" where
  "decodePayload lsn payload =
     (if length payload < payloadHeaderSize
      then Some (Inl (New InvalidFormat ''wal.decodePayload'' ''truncated payload''))
      else do {
        ty \<leftarrow> U16 payload 0;
        fl \<leftarrow> U16 payload 2;
        tx \<leftarrow> U64 payload 4;
        pl \<leftarrow> U64 payload 12;
        pg \<leftarrow> U64 payload 20;
        if \<not> known ty then Some (Inl (New InvalidFormat ''wal.decodePayload'' ''unknown record type''))
        else Some (Inr \<lparr>rType = ty, rFlags = fl, rLSN = lsn, rTxnID = tx, rPrevLSN = pl, rPageID = pg,
                        rBody = drop payloadHeaderSize payload\<rparr>)
      })"

section \<open>Physical records\<close>

text \<open>Whether the ciphertext fits the reused buffer or a larger one is made for it, the record
  is the 40-byte header followed by the ciphertext.\<close>

definition encodePhysicalInto :: "sealer \<Rightarrow> DEK option \<Rightarrow> LSN \<Rightarrow> u64 \<Rightarrow> bytes \<Rightarrow> bytes \<Rightarrow> bytes go" where
  "encodePhysicalInto seal dek lsn generation payload buf = (case dek of
      None \<Rightarrow> Some (Inl (New InvalidArgument ''wal.encodePhysical'' ''nil WAL DEK''))
    | Some d \<Rightarrow>
        if lsn = 0 then Some (Inl (New InvalidArgument ''wal.encodePhysical'' ''LSN 0 is reserved''))
        else
          (let need = walHeaderSize + length payload + AuthTagSize;
               buf = (if length buf < need then replicate need 0 else take need buf)
           in do {
             buf \<leftarrow> PutU32 buf 0 walMagic;
             buf \<leftarrow> PutU16 buf 4 walCurrentVersion;
             buf \<leftarrow> PutU16 buf 6 (dSuite d);
             buf \<leftarrow> PutU32 buf 8 (dVersion d);
             buf \<leftarrow> PutU64 buf 12 lsn;
             aad \<leftarrow> goSlice buf 0 20;
             gbind (SealBytesInto seal (Some d) generation aad payload) (\<lambda>(nonce, ct). do {
               let hdr = take walHeaderSize buf;
               hdr \<leftarrow> PutU32 hdr 20 (word_of_nat (length ct));
               hdr \<leftarrow> copyRange hdr 24 36 nonce;
               hdr \<leftarrow> checksumWrite hdr 36;
               Some (Inr (hdr @ ct))
             })
           }))"

definition encodePhysical :: "sealer \<Rightarrow> DEK option \<Rightarrow> LSN \<Rightarrow> u64 \<Rightarrow> bytes \<Rightarrow> bytes go" where
  "encodePhysical seal dek lsn generation payload = encodePhysicalInto seal dek lsn generation payload []"

record physicalHeader =
  phVersion :: u16
  phSuite :: CipherSuite
  phKeyVersion :: KeyVersion
  phLSN :: LSN
  phCTLen :: nat

definition parseHeader :: "bytes \<Rightarrow> physicalHeader go" where
  "parseHeader hdr =
     (if length hdr < walHeaderSize
      then Some (Inl (New InvalidFormat ''wal.parseHeader'' ''truncated header''))
      else do {
        magic \<leftarrow> U32 hdr 0;
        if magic \<noteq> walMagic then Some (Inl (New InvalidFormat ''wal.parseHeader'' ''bad WAL magic''))
        else do {
          v \<leftarrow> checksumVerify (take walHeaderSize hdr) 36;
          (case v of
             Inl err \<Rightarrow> Some (Inl (Wrap Corruption ''wal.parseHeader'' ''checksum'' err))
           | Inr _ \<Rightarrow> do {
               ver \<leftarrow> U16 hdr 4;
               if ver \<noteq> walCurrentVersion
               then Some (Inl (New InvalidFormat ''wal.parseHeader'' ''unsupported WAL record version''))
               else do {
                 suite \<leftarrow> U16 hdr 6;
                 kv \<leftarrow> U32 hdr 8;
                 lsn \<leftarrow> U64 hdr 12;
                 ctl \<leftarrow> U32 hdr 20;
                 let n = unat ctl;
                 if suite \<noteq> CipherAES256GCM
                 then Some (Inl (New Crypto ''wal.parseHeader'' ''unsupported cipher suite''))
                 else if lsn = 0 then Some (Inl (New Corruption ''wal.parseHeader'' ''LSN 0 is reserved''))
                 else if n < AuthTagSize \<or> n > LogicalPageSize + payloadHeaderSize + AuthTagSize + 256
                 then Some (Inl (New InvalidFormat ''wal.parseHeader'' ''invalid ciphertext length''))
                 else Some (Inr \<lparr>phVersion = ver, phSuite = suite, phKeyVersion = kv, phLSN = lsn, phCTLen = n\<rparr>)
               }
             })
        }
      })"

definition isZeroHeader :: "bytes \<Rightarrow> bool" where
  "isZeroHeader hdr \<longleftrightarrow> walHeaderSize \<le> length hdr \<and> list_all (\<lambda>b. b = 0) (take walHeaderSize hdr)"

definition isAllZero :: "bytes \<Rightarrow> bool" where
  "isAllZero b \<longleftrightarrow> list_all (\<lambda>x. x = 0) b"

definition decodePhysical :: "opener \<Rightarrow> keyring \<Rightarrow> bytes \<Rightarrow> bytes \<Rightarrow> Record go" where
  "decodePhysical opn keys hdr ct =
     gbind (parseHeader hdr) (\<lambda>h.
       if length ct \<noteq> phCTLen h
       then Some (Inl (New InvalidFormat ''wal.decodePhysical'' ''ciphertext length mismatch''))
       else gbind (Some (keys (phKeyVersion h))) (\<lambda>d.
         if dSuite d \<noteq> phSuite h
         then Some (Inl (New Crypto ''wal.decodePhysical'' ''key suite does not match record''))
         else do {
           aad \<leftarrow> goSlice hdr 0 20;
           nonce \<leftarrow> goSlice hdr 24 36;
           gbind (OpenBytes opn (Some d) nonce aad ct) (\<lambda>payload. decodePayload (phLSN h) payload)
         }))"

section \<open>Record bodies\<close>

definition encodeInsertBody :: "bytes \<Rightarrow> bytes \<Rightarrow> bytes option" where
  "encodeInsertBody key val = do {
     buf \<leftarrow> PutU16 (replicate (4 + length key + length val) 0) 0 (word_of_nat (length key));
     buf \<leftarrow> PutU16 buf 2 (word_of_nat (length val));
     buf \<leftarrow> copyAt buf 4 key;
     copyAt buf (4 + length key) val
   }"

definition encodeDeleteBody :: "bytes \<Rightarrow> bytes option" where
  "encodeDeleteBody key = do {
     buf \<leftarrow> PutU16 (replicate (2 + length key) 0) 0 (word_of_nat (length key));
     copyAt buf 2 key
   }"

definition encodeTreeMeta :: "PageID \<Rightarrow> u16 \<Rightarrow> bytes option" where
  "encodeTreeMeta root height = do {
     buf \<leftarrow> PutU64 (replicate 10 0) 0 root;
     PutU16 buf 8 height
   }"

definition decodeTreeMeta :: "bytes \<Rightarrow> (PageID \<times> u16) go" where
  "decodeTreeMeta body =
     (if length body < 10 then Some (Inl (New InvalidFormat ''wal.decodeTreeMeta'' ''truncated tree meta''))
      else do { root \<leftarrow> U64 body 0; height \<leftarrow> U16 body 8; Some (Inr (root, height)) })"

definition encodeAllocState :: "PageID \<Rightarrow> PageID \<Rightarrow> u64 \<Rightarrow> bytes option" where
  "encodeAllocState next head cnt = do {
     buf \<leftarrow> PutU64 (replicate 24 0) 0 next;
     buf \<leftarrow> PutU64 buf 8 head;
     PutU64 buf 16 cnt
   }"

definition decodeAllocState :: "bytes \<Rightarrow> (PageID \<times> PageID \<times> u64) go" where
  "decodeAllocState body =
     (if length body < 24 then Some (Inl (New InvalidFormat ''wal.decodeAllocState'' ''truncated alloc state''))
      else do { next \<leftarrow> U64 body 0; head \<leftarrow> U64 body 8; cnt \<leftarrow> U64 body 16; Some (Inr (next, head, cnt)) })"

record CheckpointBody =
  cbRedoLSN :: LSN
  cbDurableLSN :: LSN
  cbNextPageID :: PageID
  cbFreeHead :: PageID
  cbFreeCount :: u64
  cbRoot :: PageID
  cbHeight :: u16

definition encodeCheckpoint :: "CheckpointBody \<Rightarrow> bytes option" where
  "encodeCheckpoint c = do {
     buf \<leftarrow> PutU64 (replicate 50 0) 0 (cbRedoLSN c);
     buf \<leftarrow> PutU64 buf 8 (cbDurableLSN c);
     buf \<leftarrow> PutU64 buf 16 (cbNextPageID c);
     buf \<leftarrow> PutU64 buf 24 (cbFreeHead c);
     buf \<leftarrow> PutU64 buf 32 (cbFreeCount c);
     buf \<leftarrow> PutU64 buf 40 (cbRoot c);
     PutU16 buf 48 (cbHeight c)
   }"

definition decodeCheckpoint :: "bytes \<Rightarrow> CheckpointBody go" where
  "decodeCheckpoint body =
     (if length body < 50 then Some (Inl (New InvalidFormat ''wal.decodeCheckpoint'' ''truncated checkpoint''))
      else do {
        a \<leftarrow> U64 body 0; b \<leftarrow> U64 body 8; c \<leftarrow> U64 body 16; d \<leftarrow> U64 body 24;
        e \<leftarrow> U64 body 32; f \<leftarrow> U64 body 40; g \<leftarrow> U16 body 48;
        Some (Inr \<lparr>cbRedoLSN = a, cbDurableLSN = b, cbNextPageID = c, cbFreeHead = d, cbFreeCount = e,
                   cbRoot = f, cbHeight = g\<rparr>)
      })"

section \<open>Segments and the control file\<close>

record segmentHeader =
  sgID :: u64
  sgStartLSN :: LSN
  sgIdentity :: Identity

definition encodeSegmentHeader :: "segmentHeader \<Rightarrow> bytes option" where
  "encodeSegmentHeader h = do {
     buf \<leftarrow> PutU32 (replicate 64 0) 0 0x5357534E;
     buf \<leftarrow> PutU16 buf 4 walCurrentVersion;
     buf \<leftarrow> PutU64 buf 8 (sgID h);
     buf \<leftarrow> PutU64 buf 16 (sgStartLSN h);
     buf \<leftarrow> copyRange buf 24 40 (Database (sgIdentity h));
     buf \<leftarrow> copyRange buf 40 56 (File (sgIdentity h));
     checksumWrite buf 60
   }"

definition decodeSegmentHeader :: "bytes \<Rightarrow> Identity \<Rightarrow> segmentHeader go" where
  "decodeSegmentHeader buf want =
     (if length buf < 64
      then Some (Inl (New InvalidFormat ''wal.decodeSegmentHeader'' ''truncated segment header''))
      else do {
        magic \<leftarrow> U32 buf 0;
        if magic \<noteq> 0x5357534E
        then Some (Inl (New InvalidFormat ''wal.decodeSegmentHeader'' ''bad segment magic''))
        else do {
          ver \<leftarrow> U16 buf 4;
          if ver \<noteq> walCurrentVersion
          then Some (Inl (New InvalidFormat ''wal.decodeSegmentHeader'' ''unsupported segment version''))
          else do {
            v \<leftarrow> checksumVerify (take 64 buf) 60;
            (case v of
               Inl err \<Rightarrow> Some (Inl (Wrap Corruption ''wal.decodeSegmentHeader'' ''checksum'' err))
             | Inr _ \<Rightarrow> do {
                 i \<leftarrow> U64 buf 8;
                 s \<leftarrow> U64 buf 16;
                 db \<leftarrow> goSlice buf 24 40;
                 fl \<leftarrow> goSlice buf 40 56;
                 if db \<noteq> Database want \<or> fl \<noteq> File want
                 then Some (Inl (New Corruption ''wal.decodeSegmentHeader'' ''segment identity does not match database''))
                 else if i = 0 \<or> s = 0
                 then Some (Inl (New Corruption ''wal.decodeSegmentHeader'' ''invalid segment header fields''))
                 else Some (Inr \<lparr>sgID = i, sgStartLSN = s, sgIdentity = \<lparr>Database = db, File = fl\<rparr>\<rparr>)
               })
          }
        }
      })"

record controlFile =
  cfVersion :: u16
  cfNextLSN :: LSN
  cfDurableLSN :: LSN
  cfCheckpoint :: LSN
  cfRedoLSN :: LSN
  cfNextSegment :: u64
  cfNextTxn :: TxnID
  cfNonceHigh :: u64
  cfWrappedWALDEK :: bytes
  cfIdentity :: Identity

definition encodeControl :: "controlFile \<Rightarrow> bytes option" where
  "encodeControl c =
     (let wrapLen = length (cfWrappedWALDEK c);
          ver = (if cfVersion c = 0 then 1 else cfVersion c)
      in do {
        buf \<leftarrow> PutU32 (replicate (104 + wrapLen) 0) 0 0x4357534E;
        buf \<leftarrow> PutU16 buf 4 ver;
        buf \<leftarrow> copyRange buf 8 24 (Database (cfIdentity c));
        buf \<leftarrow> copyRange buf 24 40 (File (cfIdentity c));
        buf \<leftarrow> PutU64 buf 40 (cfNextLSN c);
        buf \<leftarrow> PutU64 buf 48 (cfDurableLSN c);
        buf \<leftarrow> PutU64 buf 56 (cfCheckpoint c);
        buf \<leftarrow> PutU64 buf 64 (cfRedoLSN c);
        buf \<leftarrow> PutU64 buf 72 (cfNextSegment c);
        buf \<leftarrow> PutU64 buf 80 (cfNextTxn c);
        buf \<leftarrow> PutU64 buf 88 (cfNonceHigh c);
        buf \<leftarrow> PutU16 buf 96 (word_of_nat wrapLen);
        buf \<leftarrow> copyAt buf 104 (cfWrappedWALDEK c);
        hdr \<leftarrow> checksumWrite (take 104 buf) 100;
        Some (blit buf 0 hdr)
      })"

definition decodeControl :: "bytes \<Rightarrow> controlFile go" where
  "decodeControl buf =
     (if length buf < 104 then Some (Inl (New InvalidFormat ''wal.decodeControl'' ''truncated control file''))
      else do {
        magic \<leftarrow> U32 buf 0;
        if magic \<noteq> 0x4357534E then Some (Inl (New InvalidFormat ''wal.decodeControl'' ''bad control magic''))
        else do {
          ver \<leftarrow> U16 buf 4;
          if ver \<noteq> 1 \<and> ver \<noteq> 2
          then Some (Inl (New InvalidFormat ''wal.decodeControl'' ''unsupported control version''))
          else do {
            v \<leftarrow> checksumVerify (take 104 buf) 100;
            (case v of
               Inl err \<Rightarrow> Some (Inl (Wrap Corruption ''wal.decodeControl'' ''checksum'' err))
             | Inr _ \<Rightarrow> do {
                 wl \<leftarrow> U16 buf 96;
                 let wrapLen = unat wl;
                 if 104 + wrapLen > length buf
                 then Some (Inl (New InvalidFormat ''wal.decodeControl'' ''truncated wrapped WAL DEK''))
                 else do {
                   a \<leftarrow> U64 buf 40; b \<leftarrow> U64 buf 48; c \<leftarrow> U64 buf 56; d \<leftarrow> U64 buf 64;
                   e \<leftarrow> U64 buf 72; f \<leftarrow> U64 buf 80; g \<leftarrow> U64 buf 88;
                   wrapped \<leftarrow> goSlice buf 104 (104 + wrapLen);
                   db \<leftarrow> goSlice buf 8 24;
                   fl \<leftarrow> goSlice buf 24 40;
                   if a = 0 then Some (Inl (New Corruption ''wal.decodeControl'' ''invalid next LSN''))
                   else if f = 0 then Some (Inl (New Corruption ''wal.decodeControl'' ''invalid next txn id''))
                   else if g = 0 then Some (Inl (New Corruption ''wal.decodeControl'' ''invalid WAL nonce high water''))
                   else if wrapped = [] then Some (Inl (New Corruption ''wal.decodeControl'' ''missing wrapped WAL DEK''))
                   else Some (Inr \<lparr>cfVersion = ver, cfNextLSN = a, cfDurableLSN = b, cfCheckpoint = c, cfRedoLSN = d,
                      cfNextSegment = e, cfNextTxn = f, cfNonceHigh = g, cfWrappedWALDEK = wrapped,
                      cfIdentity = \<lparr>Database = db, File = fl\<rparr>\<rparr>)
                 }
               })
          }
        }
      })"

section \<open>Round trips\<close>

definition payloadBytes :: "Record \<Rightarrow> bytes" where
  "payloadBytes r = le_bytes 2 (unat (rType r)) @ le_bytes 2 (unat (rFlags r)) @ le_bytes 8 (unat (rTxnID r)) @
     le_bytes 8 (unat (rPrevLSN r)) @ le_bytes 8 (unat (rPageID r)) @ rBody r"

lemma encodePayloadInto_eq: "encodePayloadInto buf r = Some (payloadBytes r)"
proof -
  define n where "n = 28 + length (rBody r)"
  define b where "b = (if length buf < n then replicate n 0 else take n buf)"
  have b: "length b = n" "28 \<le> n" by (simp_all add: b_def n_def)
  let ?b = "blit (blit (blit (blit (blit b 0 (le_bytes 2 (unat (rType r)))) 2 (le_bytes 2 (unat (rFlags r))))
    4 (le_bytes 8 (unat (rTxnID r)))) 12 (le_bytes 8 (unat (rPrevLSN r)))) 20 (le_bytes 8 (unat (rPageID r)))"
  have "encodePayloadInto buf r = Some (blit ?b 28 (rBody r))"
    using b by (simp add: encodePayloadInto_def go_defs n_def [symmetric] b_def [symmetric] Let_def) (simp add: n_def)
  also have "blit ?b 28 (rBody r) = payloadBytes r"
    using b by (simp add: blit_def payloadBytes_def n_def min_def)
  finally show ?thesis .
qed

lemma decodePayload_bytes:
  "known (rType r) \<Longrightarrow> decodePayload (rLSN r) (payloadBytes r) = Some (Inr r)"
  by (simp add: decodePayload_def payloadBytes_def go_defs slice_append_left slice_append_right)

lemma unat_len32: "n < 4294967296 \<Longrightarrow> unat (word_of_nat n :: u32) = n"
  by (simp add: unat_of_nat)

lemma checksumWrite_reads:
  assumes "checksumWrite h off = Some h'" and "off + 4 \<le> length h"
  shows "length h' = length h" "n + k \<le> off \<Longrightarrow> slice h' n k = slice h n k"
  using assms by (auto simp: checksumWrite_def go_defs buf_simps split: if_splits)

lemma checksumWrite_some: "off + 4 \<le> length h \<Longrightarrow> \<exists>h'. checksumWrite h off = Some h'"
  by (simp add: checksumWrite_def go_defs)

lemma encodePhysicalInto_layout:
  assumes "dSuite d = CipherAES256GCM" and "lsn \<noteq> 0" and "gen \<noteq> 0"
  shows "\<exists>hdr ct aad. encodePhysicalInto seal (Some d) lsn gen payload buf = Some (Inr (hdr @ ct)) \<and> length hdr = 40 \<and>
    U32 hdr 0 = Some walMagic \<and> U16 hdr 4 = Some 1 \<and> U16 hdr 6 = Some CipherAES256GCM \<and> U32 hdr 8 = Some (dVersion d) \<and>
    U64 hdr 12 = Some lsn \<and> U32 hdr 20 = Some (word_of_nat (length ct)) \<and>
    goSlice hdr 0 20 = Some aad \<and> checksumVerify hdr 36 = Some (Inr ()) \<and>
    (\<exists>n. goSlice hdr 24 36 = Some n \<and> length n = 12 \<and> ct = seal (dKey d) n payload aad)"
proof -
  define need where "need = 40 + length payload + 16"
  define b where "b = (if length buf < need then replicate need 0 else take need buf)"
  have b: "length b = need" "40 \<le> need" by (simp_all add: b_def need_def)
  define b1 where "b1 = blit b 0 (le_bytes 4 (unat walMagic))"
  define b2 where "b2 = blit b1 4 (le_bytes 2 (unat walCurrentVersion))"
  define b3 where "b3 = blit b2 6 (le_bytes 2 (unat (dSuite d)))"
  define b4 where "b4 = blit b3 8 (le_bytes 4 (unat (dVersion d)))"
  define b5 where "b5 = blit b4 12 (le_bytes 8 (unat lsn))"
  have l: "length b1 = need" "length b2 = need" "length b3 = need" "length b4 = need" "length b5 = need"
    using b by (simp_all add: b1_def b2_def b3_def b4_def b5_def)
  have "PutU32 b 0 walMagic = Some b1" using b by (simp add: PutU32_def b1_def)
  moreover have "PutU16 b1 4 walCurrentVersion = Some b2" using b l by (simp add: PutU16_def b2_def)
  moreover have "PutU16 b2 6 (dSuite d) = Some b3" using b l by (simp add: PutU16_def b3_def)
  moreover have "PutU32 b3 8 (dVersion d) = Some b4" using b l by (simp add: PutU32_def b4_def)
  moreover have "PutU64 b4 12 lsn = Some b5" using b l by (simp add: PutU64_def b5_def)
  ultimately have p: "PutU32 b 0 walMagic = Some b1" "PutU16 b1 4 walCurrentVersion = Some b2"
    "PutU16 b2 6 (dSuite d) = Some b3" "PutU32 b3 8 (dVersion d) = Some b4" "PutU64 b4 12 lsn = Some b5" .
  let ?n = "le_bytes 8 (unat gen) @ le_bytes 4 (unat (dVersion d))"
  let ?aad = "slice b5 0 20"
  define ct where "ct = seal (dKey d) ?n payload ?aad"
  define h1 where "h1 = blit (take 40 b5) 20 (le_bytes 4 (unat (word_of_nat (length ct) :: u32)))"
  define h2 where "h2 = blit h1 24 ?n"
  have l2: "length h1 = 40" "length h2 = 40" using b l by (simp_all add: h1_def h2_def)
  obtain h where h: "checksumWrite h2 36 = Some h" using checksumWrite_some [of 36 h2] l2 by auto
  note r = checksumWrite_reads [OF h]
  have q: "PutU32 (take 40 b5) 20 (word_of_nat (length ct)) = Some h1" "copyRange h1 24 36 ?n = Some h2"
    using b l l2 by (simp_all add: PutU32_def copyRange_def h1_def h2_def)
  have g: "goSlice b5 0 20 = Some ?aad" using b l by (simp add: goSlice_def)
  have e: "encodePhysicalInto seal (Some d) lsn gen payload buf = Some (Inr (h @ ct))"
    using assms p q g h by (simp add: encodePhysicalInto_def need_def [symmetric] b_def [symmetric] Let_def
        SealBytesInto_def makeNonce_eq ct_def [symmetric])
  have s: "slice h2 0 20 = ?aad" "slice h2 20 4 = le_bytes 4 (unat (word_of_nat (length ct) :: u32))" "slice h2 24 12 = ?n"
    using b l l2 by (simp_all add: h1_def h2_def buf_simps take_eq_slice slice_slice)
  have h20: "slice h 0 20 = ?aad" using r(2) [of 0 20] s l2 by simp
  have sub: "slice h i k = slice b5 i k" if "i + k \<le> 20" for i k
    using that slice_slice [of i k 20 h 0] slice_slice [of i k 20 b5 0] h20 by simp
  have f: "slice b5 0 4 = le_bytes 4 (unat walMagic)" "slice b5 4 2 = le_bytes 2 (unat walCurrentVersion)"
    "slice b5 6 2 = le_bytes 2 (unat (dSuite d))" "slice b5 8 4 = le_bytes 4 (unat (dVersion d))"
    "slice b5 12 8 = le_bytes 8 (unat lsn)"
    using b l unfolding b5_def b4_def b3_def b2_def b1_def by (simp_all add: buf_simps)
  have "U32 h 0 = Some 0x4C57534E \<and> U16 h 4 = Some 1 \<and> U16 h 6 = Some CipherAES256GCM \<and> U32 h 8 = Some (dVersion d) \<and>
    U64 h 12 = Some lsn \<and> U32 h 20 = Some (word_of_nat (length ct)) \<and> goSlice h 0 20 = Some ?aad \<and> goSlice h 24 36 = Some ?n"
    using sub f h20 r(1) l2 s(2,3) r(2) [of 20 4] r(2) [of 24 12] assms(1)
    by (simp add: U16_def U32_def U64_def goSlice_def)
  moreover have "checksumVerify h 36 = Some (Inr ())" using checksum_write_verify [OF h] by simp
  ultimately show ?thesis using e r(1) l2
    by (intro exI [of _ h] exI [of _ ct] exI [of _ ?aad] conjI exI [of _ ?n]) (simp_all add: ct_def)
qed

lemma decodePhysical_layout:
  assumes law: "aead_law seal opn" and d: "dSuite d = CipherAES256GCM" "keys (dVersion d) = Inr d" and lsn: "lsn \<noteq> 0"
    and len: "length payload \<le> 16668"
    and hdr: "length hdr = 40" "U32 hdr 0 = Some walMagic" "U16 hdr 4 = Some 1" "U16 hdr 6 = Some CipherAES256GCM"
      "U32 hdr 8 = Some (dVersion d)" "U64 hdr 12 = Some lsn" "U32 hdr 20 = Some (word_of_nat (length ct))"
      "goSlice hdr 0 20 = Some aad" "checksumVerify hdr 36 = Some (Inr ())" "goSlice hdr 24 36 = Some n" "length n = 12"
    and ct: "ct = seal (dKey d) n payload aad"
  shows "decodePhysical opn keys hdr ct = decodePayload lsn payload"
proof -
  have o: "opn (dKey d) n ct aad = Some payload" and l: "length ct = length payload + 16"
    using law by (simp_all add: aead_law_def ct)
  have u: "unat (word_of_nat (length ct) :: u32) = length ct" using len l by (intro unat_len32) simp
  have "parseHeader hdr = Some (Inr \<lparr>phVersion = 1, phSuite = CipherAES256GCM, phKeyVersion = dVersion d, phLSN = lsn,
      phCTLen = length ct\<rparr>)"
    using hdr lsn len l u by (simp add: parseHeader_def)
  then show ?thesis using d hdr o by (simp add: decodePhysical_def OpenBytes_def)
qed

section \<open>Properties\<close>

text \<open>C18: a log record that is encoded, sealed and framed is read back unchanged, for every
  record type, whatever buffers are reused: what recovery decrypts is what was logged.\<close>

theorem wal_record_roundtrip:
  assumes "aead_law seal opn" and "dSuite d = CipherAES256GCM" and "keys (dVersion d) = Inr d"
    and "known (rType r)" and "rLSN r \<noteq> 0" and "gen \<noteq> 0" and "length (rBody r) \<le> 16640"
  shows "\<exists>payload raw. encodePayloadInto buf r = Some payload \<and>
    encodePhysicalInto seal (Some d) (rLSN r) gen payload buf' = Some (Inr raw) \<and>
    length raw = 84 + length (rBody r) \<and>
    decodePhysical opn keys (take 40 raw) (drop 40 raw) = Some (Inr r)"
proof -
  let ?p = "payloadBytes r"
  have lp: "length ?p = 28 + length (rBody r)" by (simp add: payloadBytes_def)
  obtain hdr ct aad n where e: "encodePhysicalInto seal (Some d) (rLSN r) gen ?p buf' = Some (Inr (hdr @ ct))"
    and h: "length hdr = 40" "U32 hdr 0 = Some walMagic" "U16 hdr 4 = Some 1" "U16 hdr 6 = Some CipherAES256GCM"
      "U32 hdr 8 = Some (dVersion d)" "U64 hdr 12 = Some (rLSN r)" "U32 hdr 20 = Some (word_of_nat (length ct))"
      "goSlice hdr 0 20 = Some aad" "checksumVerify hdr 36 = Some (Inr ())" "goSlice hdr 24 36 = Some n" "length n = 12"
      "ct = seal (dKey d) n ?p aad"
    using encodePhysicalInto_layout [OF assms(2,5,6), of seal ?p buf'] by blast
  have "decodePhysical opn keys hdr ct = Some (Inr r)"
    using decodePhysical_layout [of seal opn d keys "rLSN r" ?p hdr ct aad n] assms(1-3,5,7) h lp
      decodePayload_bytes [OF assms(4)] by simp
  moreover have "length ct = length ?p + 16" using assms(1) h(12) by (simp add: aead_law_def)
  ultimately show ?thesis using e h(1) lp encodePayloadInto_eq by auto
qed

theorem wal_record_roundtrip_witness:
  "\<exists>payload raw. encodePayloadInto [] \<lparr>rType = 6, rFlags = 0, rLSN = 9, rTxnID = 4, rPrevLSN = 8, rPageID = 0, rBody = []\<rparr>
       = Some payload \<and>
     encodePhysicalInto tagSeal (Some \<lparr>dVersion = 3, dSuite = 1, dKey = []\<rparr>) 9 1 payload [] = Some (Inr raw) \<and>
     decodePhysical tagOpen (\<lambda>_. Inr \<lparr>dVersion = 3, dSuite = 1, dKey = []\<rparr>) (take 40 raw) (drop 40 raw) =
       Some (Inr \<lparr>rType = 6, rFlags = 0, rLSN = 9, rTxnID = 4, rPrevLSN = 8, rPageID = 0, rBody = []\<rparr>)"
  using wal_record_roundtrip [OF tag_law, of "\<lparr>dVersion = 3, dSuite = 1, dKey = []\<rparr>"
      "\<lambda>_. Inr \<lparr>dVersion = 3, dSuite = 1, dKey = []\<rparr>"
      "\<lparr>rType = 6, rFlags = 0, rLSN = 9, rTxnID = 4, rPrevLSN = 8, rPageID = 0, rBody = []\<rparr>" 1 "[]" "[]"]
  by (auto simp: CipherAES256GCM_def known_def RecBegin_def RecPageDelta_def word_le_nat_alt)

definition segmentFields :: "segmentHeader \<Rightarrow> (nat \<times> bytes) list" where
  "segmentFields h =
     [(0, le_bytes 4 (unat (0x5357534E :: u32))), (4, le_bytes 2 (unat walCurrentVersion)), (8, le_bytes 8 (unat (sgID h))),
      (16, le_bytes 8 (unat (sgStartLSN h))), (24, Database (sgIdentity h)), (40, File (sgIdentity h))]"

lemma segment_decode:
  assumes "length (Database (sgIdentity h)) = 16" and "length (File (sgIdentity h)) = 16"
    and "sgID h \<noteq> 0" and "sgStartLSN h \<noteq> 0"
  shows "\<exists>b. encodeSegmentHeader h = Some b \<and> decodeSegmentHeader b want =
    (if sgIdentity h = want then Some (Inr h)
     else Some (Inl (New Corruption ''wal.decodeSegmentHeader'' ''segment identity does not match database'')))"
proof -
  define b where "b = putFields (replicate 64 0) (segmentFields h)"
  have laid: "laid 0 64 (segmentFields h)" using assms(1,2) by (simp add: segmentFields_def)
  have lb: "length b = 64" unfolding b_def using length_putFields [of 0 "replicate 64 0"] laid by simp
  obtain c where c: "checksumWrite b 60 = Some c" using checksumWrite_some [of 60 b] lb by force
  note r = checksumWrite_reads [OF c]
  have e: "encodeSegmentHeader h = Some c"
    using c assms(1,2) unfolding b_def by (simp add: encodeSegmentHeader_def field_steps segmentFields_def)
  have f: "slice c off (length v) = v" if "(off, v) \<in> set (segmentFields h)" "off + length v \<le> 60" for off v
    using r(2) that slice_putFields [of 0 "replicate 64 0", OF _ that(1)] laid lb by (simp add: b_def)
  have rd: "U32 c 0 = Some 0x5357534E" "U16 c 4 = Some walCurrentVersion" "U64 c 8 = Some (sgID h)" "U64 c 16 = Some (sgStartLSN h)"
    "goSlice c 24 40 = Some (Database (sgIdentity h))" "goSlice c 40 56 = Some (File (sgIdentity h))"
    using r(1) lb f [of 0 "le_bytes 4 (unat (0x5357534E :: u32))"] f [of 4 "le_bytes 2 (unat walCurrentVersion)"]
      f [of 8 "le_bytes 8 (unat (sgID h))"] f [of 16 "le_bytes 8 (unat (sgStartLSN h))"] f [of 24 "Database (sgIdentity h)"]
      f [of 40 "File (sgIdentity h)"] assms(1,2)
    by (simp_all add: segmentFields_def U16_def U32_def U64_def goSlice_def)
  have "checksumVerify c 60 = Some (Inr ())" using checksum_write_verify [OF c] by simp
  then have "decodeSegmentHeader c want = (if sgIdentity h = want then Some (Inr h)
      else Some (Inl (New Corruption ''wal.decodeSegmentHeader'' ''segment identity does not match database'')))"
    using rd r(1) lb assms(3,4) by (cases "sgIdentity h"; cases want; cases h) (simp add: decodeSegmentHeader_def)
  then show ?thesis using e by blast
qed

text \<open>C36: the fixed bodies recovery depends on survive encoding: checkpoint, tree root and
  height, allocator state; and a segment header decodes to itself exactly when the reader asks for the
  database it was written for, any other identity being reported as corruption.\<close>

theorem wal_bodies_roundtrip:
  assumes "length (Database (sgIdentity h)) = 16" and "length (File (sgIdentity h)) = 16"
    and "sgID h \<noteq> 0" and "sgStartLSN h \<noteq> 0"
  shows "(\<exists>b. encodeCheckpoint c = Some b \<and> decodeCheckpoint b = Some (Inr c)) \<and>
   (\<exists>b. encodeTreeMeta root height = Some b \<and> decodeTreeMeta b = Some (Inr (root, height))) \<and>
   (\<exists>b. encodeAllocState nxt hd' cnt = Some b \<and> decodeAllocState b = Some (Inr (nxt, hd', cnt))) \<and>
   (\<exists>b. encodeSegmentHeader h = Some b \<and> decodeSegmentHeader b want =
      (if sgIdentity h = want then Some (Inr h)
       else Some (Inl (New Corruption ''wal.decodeSegmentHeader'' ''segment identity does not match database''))))"
proof -
  have "(\<exists>b. encodeCheckpoint c = Some b \<and> decodeCheckpoint b = Some (Inr c)) \<and>
   (\<exists>b. encodeTreeMeta root height = Some b \<and> decodeTreeMeta b = Some (Inr (root, height))) \<and>
   (\<exists>b. encodeAllocState nxt hd' cnt = Some b \<and> decodeAllocState b = Some (Inr (nxt, hd', cnt)))"
    by (simp add: encodeCheckpoint_def decodeCheckpoint_def encodeTreeMeta_def decodeTreeMeta_def
      encodeAllocState_def decodeAllocState_def go_defs buf_simps)
  then show ?thesis using segment_decode [OF assms] by blast
qed

theorem wal_bodies_roundtrip_witness:
  "\<exists>b. encodeSegmentHeader \<lparr>sgID = 3, sgStartLSN = 900, sgIdentity = \<lparr>Database = replicate 16 1, File = replicate 16 2\<rparr>\<rparr> = Some b \<and>
     decodeSegmentHeader b \<lparr>Database = replicate 16 1, File = replicate 16 2\<rparr> =
     Some (Inr \<lparr>sgID = 3, sgStartLSN = 900, sgIdentity = \<lparr>Database = replicate 16 1, File = replicate 16 2\<rparr>\<rparr>)"
  using wal_bodies_roundtrip [of "\<lparr>sgID = 3, sgStartLSN = 900, sgIdentity = \<lparr>Database = replicate 16 1, File = replicate 16 2\<rparr>\<rparr>"
      undefined undefined undefined undefined undefined undefined "\<lparr>Database = replicate 16 1, File = replicate 16 2\<rparr>"]
  by simp

definition controlFields :: "controlFile \<Rightarrow> (nat \<times> bytes) list" where
  "controlFields c =
     [(0, le_bytes 4 (unat (0x4357534E :: u32))), (4, le_bytes 2 (unat (if cfVersion c = 0 then 1 else cfVersion c))),
      (8, Database (cfIdentity c)), (24, File (cfIdentity c)), (40, le_bytes 8 (unat (cfNextLSN c))),
      (48, le_bytes 8 (unat (cfDurableLSN c))), (56, le_bytes 8 (unat (cfCheckpoint c))),
      (64, le_bytes 8 (unat (cfRedoLSN c))), (72, le_bytes 8 (unat (cfNextSegment c))),
      (80, le_bytes 8 (unat (cfNextTxn c))), (88, le_bytes 8 (unat (cfNonceHigh c))),
      (96, le_bytes 2 (unat (word_of_nat (length (cfWrappedWALDEK c)) :: u16))), (104, cfWrappedWALDEK c)]"

lemma control_laid:
  assumes "length (Database (cfIdentity c)) = 16" and "length (File (cfIdentity c)) = 16"
  shows "laid 0 (104 + length (cfWrappedWALDEK c)) (controlFields c)"
  using assms by (simp add: controlFields_def)

lemma encodeControl_eq:
  assumes "length (Database (cfIdentity c)) = 16" and "length (File (cfIdentity c)) = 16"
    and "b = putFields (replicate (104 + length (cfWrappedWALDEK c)) 0) (controlFields c)"
    and "checksumWrite (take 104 b) 100 = Some h"
  shows "encodeControl c = Some (blit b 0 h)"
  using assms by (simp add: encodeControl_def Let_def field_steps controlFields_def)

text \<open>The control file, from which the next LSN, transaction id, nonce reservation and
  wrapped key are restored at start-up, survives encoding; version 0 is written as version 1.\<close>

theorem control_roundtrip:
  assumes "length (Database (cfIdentity c)) = 16" and "length (File (cfIdentity c)) = 16"
    and "cfVersion c \<in> {0, 1, 2}" and "cfNextLSN c \<noteq> 0" and "cfNextTxn c \<noteq> 0" and "cfNonceHigh c \<noteq> 0"
    and "cfWrappedWALDEK c \<noteq> []" and "length (cfWrappedWALDEK c) < 65536"
  shows "\<exists>b. encodeControl c = Some b \<and>
    decodeControl b = Some (Inr (c\<lparr>cfVersion := (if cfVersion c = 0 then 1 else cfVersion c)\<rparr>))"
proof -
  let ?w = "length (cfWrappedWALDEK c)" and ?L = "104 + length (cfWrappedWALDEK c)"
  define ver where "ver = (if cfVersion c = 0 then 1 else cfVersion c)"
  define b where "b = putFields (replicate ?L 0) (controlFields c)"
  note laid = control_laid [OF assms(1,2)]
  have lb: "length b = ?L" unfolding b_def using length_putFields [of 0 "replicate ?L 0"] laid by simp
  have fld: "slice b off (length v) = v" if "(off, v) \<in> set (controlFields c)" for off v
    unfolding b_def using slice_putFields [of 0 "replicate ?L 0", OF _ that] laid by simp
  obtain h where h: "checksumWrite (take 104 b) 100 = Some h"
    using checksumWrite_some [of 100 "take 104 b"] lb by force
  note r = checksumWrite_reads [OF h]
  have lh: "length h = 104" using r(1) lb by simp
  let ?b = "blit b 0 h"
  have e: "encodeControl c = Some ?b" by (rule encodeControl_eq [OF assms(1,2) b_def h])
  have low: "slice ?b a k = slice b a k" if "a + k \<le> 100" for a k
  proof -
    have "slice ?b a k = slice h a k" using that lb lh by (simp add: slice_blit_within)
    also have "\<dots> = slice (take 104 b) a k" using r(2) that lb by simp
    also have "\<dots> = slice b a k" using that by (simp add: take_eq_slice slice_slice)
    finally show ?thesis .
  qed
  have f: "slice ?b off (length v) = v" if "(off, v) \<in> set (controlFields c)" "off + length v \<le> 100" for off v
    using low fld that by simp
  have w: "unat (word_of_nat ?w :: u16) = ?w" using assms(8) by (simp add: unat_of_nat)
  have rd: "U32 ?b 0 = Some 0x4357534E" "U16 ?b 4 = Some ver" "goSlice ?b 8 24 = Some (Database (cfIdentity c))"
    "goSlice ?b 24 40 = Some (File (cfIdentity c))" "U64 ?b 40 = Some (cfNextLSN c)" "U64 ?b 48 = Some (cfDurableLSN c)"
    "U64 ?b 56 = Some (cfCheckpoint c)" "U64 ?b 64 = Some (cfRedoLSN c)" "U64 ?b 72 = Some (cfNextSegment c)"
    "U64 ?b 80 = Some (cfNextTxn c)" "U64 ?b 88 = Some (cfNonceHigh c)" "U16 ?b 96 = Some (word_of_nat ?w)"
    using lb lh f [of 0 "le_bytes 4 (unat (0x4357534E :: u32))"] f [of 4 "le_bytes 2 (unat ver)"]
      f [of 8 "Database (cfIdentity c)"] f [of 24 "File (cfIdentity c)"] f [of 40 "le_bytes 8 (unat (cfNextLSN c))"]
      f [of 48 "le_bytes 8 (unat (cfDurableLSN c))"] f [of 56 "le_bytes 8 (unat (cfCheckpoint c))"]
      f [of 64 "le_bytes 8 (unat (cfRedoLSN c))"] f [of 72 "le_bytes 8 (unat (cfNextSegment c))"]
      f [of 80 "le_bytes 8 (unat (cfNextTxn c))"] f [of 88 "le_bytes 8 (unat (cfNonceHigh c))"]
      f [of 96 "le_bytes 2 (unat (word_of_nat ?w :: u16))"] assms(1,2)
    by (simp_all add: controlFields_def U16_def U32_def U64_def goSlice_def ver_def)
  have "goSlice ?b 104 (104 + ?w) = Some (cfWrappedWALDEK c)"
    using lb lh fld [of 104 "cfWrappedWALDEK c"] by (simp add: goSlice_def slice_blit_above controlFields_def)
  moreover have "take 104 ?b = h" using lh by (simp add: blit_def)
  moreover have "checksumVerify h 100 = Some (Inr ())" using checksum_write_verify [OF h] by simp
  moreover have "ver = 1 \<or> ver = 2" using assms(3) by (auto simp: ver_def)
  ultimately have "decodeControl ?b = Some (Inr (c\<lparr>cfVersion := ver\<rparr>))"
    using rd lb lh w assms(4-7) by (auto simp: decodeControl_def Let_def)
  then show ?thesis using e by (simp add: ver_def)
qed

theorem control_roundtrip_witness:
  "\<exists>b. encodeControl \<lparr>cfVersion = 0, cfNextLSN = 5, cfDurableLSN = 4, cfCheckpoint = 2, cfRedoLSN = 2, cfNextSegment = 1,
       cfNextTxn = 3, cfNonceHigh = 100, cfWrappedWALDEK = [1, 2, 3],
       cfIdentity = \<lparr>Database = replicate 16 7, File = replicate 16 8\<rparr>\<rparr> = Some b \<and>
     decodeControl b = Some (Inr \<lparr>cfVersion = 1, cfNextLSN = 5, cfDurableLSN = 4, cfCheckpoint = 2, cfRedoLSN = 2,
       cfNextSegment = 1, cfNextTxn = 3, cfNonceHigh = 100, cfWrappedWALDEK = [1, 2, 3],
       cfIdentity = \<lparr>Database = replicate 16 7, File = replicate 16 8\<rparr>\<rparr>)"
  using control_roundtrip [of "\<lparr>cfVersion = 0, cfNextLSN = 5, cfDurableLSN = 4, cfCheckpoint = 2, cfRedoLSN = 2,
       cfNextSegment = 1, cfNextTxn = 3, cfNonceHigh = 100, cfWrappedWALDEK = [1, 2, 3],
       cfIdentity = \<lparr>Database = replicate 16 7, File = replicate 16 8\<rparr>\<rparr>"] by simp

end
