(* ===== verification/Sha256.thy ===== *)
theory Sha256
  imports Binary
begin

text \<open>
  SHA-256 as the standard library's \<open>crypto/sha256.Sum256\<close> computes it: padding, message
  schedule and compression over 32-bit words, most significant byte first. The page deltas
  name their base page by this digest.
\<close>

unbundle bit_operations_syntax

text \<open>The constants are the first 32 bits of the fractional parts of the cube roots of the first
  64 primes, and of the square roots of the first 8. The integer root is found bit by bit.\<close>

fun rootBits :: "nat \<Rightarrow> nat \<Rightarrow> nat \<Rightarrow> nat \<Rightarrow> nat" where
  "rootBits e n 0 r = r"
| "rootBits e n (Suc k) r = rootBits e n k (if (r + 2 ^ k) ^ e \<le> n then r + 2 ^ k else r)"

definition fracBits :: "nat \<Rightarrow> nat \<Rightarrow> u32" where
  "fracBits e p = word_of_nat (rootBits e (p * 2 ^ (32 * e)) 40 0)"

definition primesBelow :: "nat \<Rightarrow> nat list" where
  "primesBelow m = filter (\<lambda>n. list_all (\<lambda>d. n mod d \<noteq> 0) [2..<n]) [2..<m]"

definition sha256_K :: "u32 list" where
  "sha256_K = map (fracBits 3) (primesBelow 312)"

definition sha256_H0 :: "u32 list" where
  "sha256_H0 = map (fracBits 2) [2, 3, 5, 7, 11, 13, 17, 19]"

definition be_bytes :: "nat \<Rightarrow> nat \<Rightarrow> bytes" where
  "be_bytes n v = rev (le_bytes n v)"

definition be_u32 :: "bytes \<Rightarrow> u32" where
  "be_u32 bs = word_of_nat (le_val (rev bs))"

definition sha256_pad :: "bytes \<Rightarrow> bytes" where
  "sha256_pad m = m @ [0x80] @ replicate ((119 - length m mod 64) mod 64) 0 @ be_bytes 8 (8 * length m)"

definition sha256_sched :: "u32 list \<Rightarrow> u32" where
  "sha256_sched w =
     (let a = w ! (length w - 15); b = w ! (length w - 2);
          s0 = word_rotr 7 a XOR word_rotr 18 a XOR drop_bit 3 a;
          s1 = word_rotr 17 b XOR word_rotr 19 b XOR drop_bit 10 b
      in w ! (length w - 16) + s0 + w ! (length w - 7) + s1)"

primrec sha256_extend :: "nat \<Rightarrow> u32 list \<Rightarrow> u32 list" where
  "sha256_extend 0 w = w"
| "sha256_extend (Suc n) w = sha256_extend n (w @ [sha256_sched w])"

fun sha256_round :: "u32 list \<Rightarrow> u32 \<times> u32 \<Rightarrow> u32 list" where
  "sha256_round [a, b, c, d, e, f, g, h] (k, w) =
     (let s1 = word_rotr 6 e XOR word_rotr 11 e XOR word_rotr 25 e;
          ch = (e AND f) XOR (NOT e AND g);
          t1 = h + s1 + ch + k + w;
          s0 = word_rotr 2 a XOR word_rotr 13 a XOR word_rotr 22 a;
          maj = (a AND b) XOR (a AND c) XOR (b AND c)
      in [t1 + (s0 + maj), a, b, c, d + t1, e, f, g])"
| "sha256_round st _ = st"

fun sha256_words :: "bytes \<Rightarrow> u32 list" where
  "sha256_words (a # b # c # d # bs) = be_u32 [a, b, c, d] # sha256_words bs"
| "sha256_words _ = []"

definition sha256_block :: "u32 list \<Rightarrow> u32 list \<Rightarrow> u32 list" where
  "sha256_block st ws =
     map2 (+) st (foldl sha256_round st (zip sha256_K (sha256_extend 48 ws)))"

fun sha256_blocks :: "nat \<Rightarrow> u32 list \<Rightarrow> u32 list \<Rightarrow> u32 list" where
  "sha256_blocks 0 st ws = st"
| "sha256_blocks (Suc n) st ws = sha256_blocks n (sha256_block st (take 16 ws)) (drop 16 ws)"

definition Sum256 :: "bytes \<Rightarrow> bytes" where
  "Sum256 m = (let ws = sha256_words (sha256_pad m)
     in concat (map (\<lambda>w. be_bytes 4 (unat w)) (sha256_blocks (length ws div 16) sha256_H0 ws)))"

section \<open>The digest has 32 bytes\<close>

lemma length_sha256_round: "length st = 8 \<Longrightarrow> length (sha256_round st kw) = 8"
  by (cases kw, induction st kw rule: sha256_round.induct) (simp_all add: Let_def)

lemma length_sha256_rounds: "length st = 8 \<Longrightarrow> length (foldl sha256_round st kws) = 8"
  by (induction kws arbitrary: st) (simp_all add: length_sha256_round)

lemma length_sha256_blocks: "length st = 8 \<Longrightarrow> length (sha256_blocks n st ws) = 8"
  by (induction n st ws rule: sha256_blocks.induct) (simp_all add: sha256_block_def length_sha256_rounds)

lemma length_concat_const: "\<forall>x \<in> set xs. length (f x) = n \<Longrightarrow> length (concat (map f xs)) = n * length xs"
  by (induction xs) auto

lemma length_Sum256 [simp]: "length (Sum256 m) = 32"
  by (simp add: Sum256_def Let_def length_concat_const [of _ _ 4] be_bytes_def length_sha256_blocks sha256_H0_def)

end
