(* ===== verification/PageDelta.thy ===== *)
theory PageDelta
  imports Sha256 WalFormat
begin

text \<open>
  Page deltas, \<open>internal/wal/pagedelta.go\<close>: the byte ranges in which a page differs from
  its previously logged state. The encoder's loops are recursive functions over the page
  offset; the decoder and \<open>ApplyPageDelta\<close> are written with their bounds checks, so
  a Go panic is \<open>None\<close>.
\<close>

abbreviation (input) pageDeltaHeaderSize :: nat where "pageDeltaHeaderSize \<equiv> 43"
abbreviation (input) pageDeltaRunHeader :: nat where "pageDeltaRunHeader \<equiv> 4"
abbreviation (input) pageDeltaMergeGap :: nat where "pageDeltaMergeGap \<equiv> 8"
abbreviation (input) pageLSNOffset :: nat where "pageLSNOffset \<equiv> 16"
abbreviation (input) pageChecksumOffset :: nat where "pageChecksumOffset \<equiv> 40"

record PageDeltaRun =
  drOffset :: u16
  drData :: bytes

record PageDelta =
  pdBaseLSN :: LSN
  pdBaseSum :: bytes
  pdRuns :: "PageDeltaRun list"

definition PageDeltaRec :: "TxnID \<Rightarrow> LSN \<Rightarrow> PageID \<Rightarrow> bytes \<Rightarrow> Record" where
  "PageDeltaRec t prev pid body =
     \<lparr>rType = RecPageDelta, rFlags = 0, rLSN = 0, rTxnID = t, rPrevLSN = prev, rPageID = pid, rBody = body\<rparr>"

definition masked :: "nat \<Rightarrow> bool" where
  "masked i \<longleftrightarrow> i \<ge> pageLSNOffset \<and> i < pageLSNOffset + 8 \<or> i \<ge> pageChecksumOffset \<and> i < pageChecksumOffset + 4"

definition PageDeltaSum :: "bytes \<Rightarrow> bytes" where
  "PageDeltaSum page =
     (let buf = blit (replicate LogicalPageSize 0) 0 (take LogicalPageSize page);
          buf = blit buf pageLSNOffset (replicate 8 0);
          buf = blit buf pageChecksumOffset (replicate 4 0)
      in Sum256 buf)"

definition maskedBetween :: "nat \<Rightarrow> nat \<Rightarrow> bool" where
  "maskedBetween a b \<longleftrightarrow> list_ex masked [a..<b]"

section \<open>Encoding\<close>

function scanEnd :: "bytes \<Rightarrow> bytes \<Rightarrow> nat \<Rightarrow> nat" where
  "scanEnd base cur j =
     (if j < LogicalPageSize \<and> \<not> masked j \<and> base ! j \<noteq> cur ! j then scanEnd base cur (j + 1) else j)"
  by pat_completeness auto
termination by (relation "measure (\<lambda>(base, cur, j). LogicalPageSize - j)") auto

declare scanEnd.simps [simp del]

lemma scanEnd_ge: "j \<le> scanEnd base cur j"
proof (induction base cur j rule: scanEnd.induct)
  case (1 base cur j)
  then show ?case by (subst scanEnd.simps) auto
qed

definition addSpan :: "(nat \<times> nat) list \<Rightarrow> nat \<Rightarrow> nat \<Rightarrow> (nat \<times> nat) list" where
  "addSpan spans i j =
     (if spans \<noteq> [] \<and> int i - int (snd (last spans)) < int pageDeltaMergeGap \<and> \<not> maskedBetween (snd (last spans)) i
      then butlast spans @ [(fst (last spans), j)]
      else spans @ [(i, j)])"

function spanLoop :: "bytes \<Rightarrow> bytes \<Rightarrow> nat \<Rightarrow> (nat \<times> nat) list \<Rightarrow> (nat \<times> nat) list" where
  "spanLoop base cur i spans =
     (if i \<ge> LogicalPageSize then spans
      else if masked i \<or> base ! i = cur ! i then spanLoop base cur (i + 1) spans
      else spanLoop base cur (scanEnd base cur (i + 1)) (addSpan spans i (scanEnd base cur (i + 1))))"
  by pat_completeness auto
termination
proof (relation "measure (\<lambda>(base, cur, i, spans). LogicalPageSize - i)")
  fix base cur :: bytes and i :: nat and spans :: "(nat \<times> nat) list"
  assume "\<not> LogicalPageSize \<le> i"
  then show "((base, cur, scanEnd base cur (i + 1), addSpan spans i (scanEnd base cur (i + 1))), base, cur, i, spans)
      \<in> measure (\<lambda>(base, cur, i, spans). LogicalPageSize - i)"
    using scanEnd_ge [of "i + 1" base cur] by simp
qed auto

declare spanLoop.simps [simp del]

text \<open>The size loop returns early when the body would exceed the limit.\<close>

fun sizeLoop :: "nat \<Rightarrow> (nat \<times> nat) list \<Rightarrow> nat \<Rightarrow> nat option" where
  "sizeLoop maxBody [] sz = Some sz"
| "sizeLoop maxBody ((s, e) # sps) sz =
     (let sz = sz + pageDeltaRunHeader + (e - s) in if sz > maxBody then None else sizeLoop maxBody sps sz)"

fun runLoop :: "bytes \<Rightarrow> (nat \<times> nat) list \<Rightarrow> bytes \<Rightarrow> nat \<Rightarrow> bytes option" where
  "runLoop cur [] body off = Some body"
| "runLoop cur ((s, e) # sps) body off = do {
     body \<leftarrow> PutU16 body off (word_of_nat s);
     body \<leftarrow> PutU16 body (off + 2) (word_of_nat (e - s));
     d \<leftarrow> goSlice cur s e;
     body \<leftarrow> copyAt body (off + 4) d;
     runLoop cur sps body (off + pageDeltaRunHeader + (e - s))
   }"

definition EncodePageDelta :: "LSN \<Rightarrow> bytes \<Rightarrow> bytes \<Rightarrow> nat \<Rightarrow> bytes option option" where
  "EncodePageDelta baseLSN base cur maxBody =
     (if length base \<noteq> LogicalPageSize \<or> length cur \<noteq> LogicalPageSize \<or> baseLSN = 0 then Some None
      else (let spans = spanLoop base cur 0 [] in
        case sizeLoop maxBody spans pageDeltaHeaderSize of
          None \<Rightarrow> Some None
        | Some sz \<Rightarrow>
            if length spans > 65535 then Some None
            else do {
              body \<leftarrow> putB (replicate sz 0) 0 1;
              body \<leftarrow> PutU64 body 1 baseLSN;
              body \<leftarrow> copyRange body 9 41 (PageDeltaSum base);
              body \<leftarrow> PutU16 body 41 (word_of_nat (length spans));
              body \<leftarrow> runLoop cur spans body pageDeltaHeaderSize;
              Some (Some body)
            }))"

section \<open>Decoding and applying\<close>

definition deltaErr :: "string \<Rightarrow> 'a go" where
  "deltaErr msg = Some (Inl (New InvalidFormat ''wal.DecodePageDelta'' msg))"

fun decodeRuns :: "bytes \<Rightarrow> nat \<Rightarrow> nat \<Rightarrow> nat \<Rightarrow> PageDeltaRun list \<Rightarrow> (PageDeltaRun list \<times> nat) go" where
  "decodeRuns body 0 off prevEnd runs = Some (Inr (runs, off))"
| "decodeRuns body (Suc n) off prevEnd runs =
     (if int (length body) - int off < int pageDeltaRunHeader then deltaErr ''truncated page delta run''
      else do {
        s16 \<leftarrow> U16 body off;
        l16 \<leftarrow> U16 body (off + 2);
        let start = unat s16;
        let len = unat l16;
        let off = off + pageDeltaRunHeader;
        if len = 0 \<or> start < prevEnd \<or> start + len > LogicalPageSize \<or> int (length body) - int off < int len
        then deltaErr ''invalid page delta run''
        else if maskedBetween start (start + len)
        then deltaErr ''page delta run covers a page header field it may not change''
        else do {
          d \<leftarrow> goSlice body off (off + len);
          decodeRuns body n (off + len) (start + len) (runs @ [\<lparr>drOffset = word_of_nat start, drData = d\<rparr>])
        }
      })"

definition DecodePageDelta :: "bytes \<Rightarrow> PageDelta go" where
  "DecodePageDelta body =
     (if length body < pageDeltaHeaderSize then deltaErr ''truncated page delta''
      else do {
        v \<leftarrow> getB body 0;
        if v \<noteq> 1 then deltaErr ''unsupported page delta version''
        else do {
          lsn \<leftarrow> U64 body 1;
          if lsn = 0 then deltaErr ''page delta has no base''
          else do {
            sm \<leftarrow> goSlice body 9 41;
            n \<leftarrow> U16 body 41;
            gbind (decodeRuns body (unat n) pageDeltaHeaderSize 0 []) (\<lambda>(runs, off).
              if off \<noteq> length body then deltaErr ''trailing bytes after page delta runs''
              else Some (Inr \<lparr>pdBaseLSN = lsn, pdBaseSum = sm, pdRuns = runs\<rparr>))
          }
        }
      })"

fun applyRuns :: "bytes \<Rightarrow> PageDeltaRun list \<Rightarrow> bytes option" where
  "applyRuns page [] = Some page"
| "applyRuns page (r # rs) = do { page \<leftarrow> copyAt page (unat (drOffset r)) (drData r); applyRuns page rs }"

definition ApplyPageDelta :: "bytes \<Rightarrow> PageDelta \<Rightarrow> LSN \<Rightarrow> (bytes \<times> unit res) option" where
  "ApplyPageDelta page d lsn =
     (if length page \<noteq> LogicalPageSize
      then Some (page, Inl (New InvalidArgument ''wal.ApplyPageDelta'' ''logical page has wrong size''))
      else do {
        got \<leftarrow> U64 page pageLSNOffset;
        if got \<noteq> pdBaseLSN d
        then Some (page, Inl (New Corruption ''wal.ApplyPageDelta'' ''page is not at the delta's base LSN''))
        else if PageDeltaSum page \<noteq> pdBaseSum d
        then Some (page, Inl (New Corruption ''wal.ApplyPageDelta'' ''page content does not match the delta's base''))
        else do {
          page \<leftarrow> applyRuns page (pdRuns d);
          page \<leftarrow> PutU64 page pageLSNOffset lsn;
          Some (page, Inr ())
        }
      })"

end
