(* ===== verification/PageDeltaProps.thy ===== *)
theory PageDeltaProps
  imports PageDelta
begin

text \<open>
  The encoder finds every difference outside the two masked header fields, what it writes is
  what the decoder reads, and applying it rebuilds the page.
\<close>

section \<open>The spans\<close>

definition spans_ok :: "nat \<Rightarrow> (nat \<times> nat) list \<Rightarrow> bool" where
  "spans_ok k spans \<longleftrightarrow> sorted_wrt (\<lambda>a b. snd a \<le> fst b) spans \<and>
     (\<forall>(s, e) \<in> set spans. s < e \<and> e \<le> k \<and> \<not> maskedBetween s e)"

definition in_spans :: "(nat \<times> nat) list \<Rightarrow> nat \<Rightarrow> bool" where
  "in_spans spans i \<longleftrightarrow> (\<exists>(s, e) \<in> set spans. s \<le> i \<and> i < e)"

definition diff_covered :: "bytes \<Rightarrow> bytes \<Rightarrow> nat \<Rightarrow> (nat \<times> nat) list \<Rightarrow> bool" where
  "diff_covered base cur k spans \<longleftrightarrow> (\<forall>i < k. \<not> masked i \<longrightarrow> base ! i \<noteq> cur ! i \<longrightarrow> in_spans spans i)"

lemma maskedBetween_iff: "maskedBetween a b \<longleftrightarrow> (\<exists>i. a \<le> i \<and> i < b \<and> masked i)"
  by (auto simp: maskedBetween_def list_ex_iff)

lemma scanEnd_spec:
  "j \<le> 16384 \<Longrightarrow> scanEnd base cur j \<le> 16384 \<and> \<not> maskedBetween j (scanEnd base cur j)"
proof (induction base cur j rule: scanEnd.induct)
  case (1 base cur j)
  show ?case
  proof (cases "j < 16384 \<and> \<not> masked j \<and> base ! j \<noteq> cur ! j")
    case True
    then have eq: "scanEnd base cur j = scanEnd base cur (j + 1)" by (subst scanEnd.simps) simp
    have ih: "scanEnd base cur (j + 1) \<le> 16384" "\<not> maskedBetween (j + 1) (scanEnd base cur (j + 1))"
      using 1 True by auto
    then show ?thesis using True unfolding eq maskedBetween_iff
      by (metis Suc_eq_plus1 le_antisym not_less_eq_eq)
  next
    case False
    then have "scanEnd base cur j = j" by (subst scanEnd.simps) auto
    then show ?thesis using "1.prems" by (simp add: maskedBetween_iff)
  qed
qed

lemma spans_ok_snoc:
  "spans_ok i spans \<Longrightarrow> i < j \<Longrightarrow> \<not> maskedBetween i j \<Longrightarrow> spans_ok j (spans @ [(i, j)])"
  by (fastforce simp: spans_ok_def sorted_wrt_append)

lemma spans_ok_extend:
  assumes "spans_ok i (ss @ [(s, e)])" and "i < j" and "\<not> maskedBetween e i" and "\<not> maskedBetween i j"
  shows "spans_ok j (ss @ [(s, j)])"
proof -
  have "\<not> maskedBetween s e" "s < e" "e \<le> i" using assms(1) by (auto simp: spans_ok_def)
  then have "\<not> maskedBetween s j" using assms(3,4) unfolding maskedBetween_iff by (meson not_less)
  then show ?thesis using assms(1,2) \<open>s < e\<close> \<open>e \<le> i\<close> by (fastforce simp: spans_ok_def sorted_wrt_append)
qed

lemma addSpan_ok:
  assumes "spans_ok i spans" and "i < j" and "\<not> maskedBetween i j"
  shows "spans_ok j (addSpan spans i j)"
    and "in_spans spans x \<or> i \<le> x \<and> x < j \<Longrightarrow> in_spans (addSpan spans i j) x"
proof -
  show "spans_ok j (addSpan spans i j)"
  proof (cases spans rule: rev_cases)
    case (snoc ss se)
    obtain s e where "se = (s, e)" by (cases se)
    then show ?thesis using assms snoc spans_ok_extend [of i ss s e j] spans_ok_snoc [of i spans j]
      by (simp add: addSpan_def)
  qed (use assms spans_ok_snoc [of i spans j] in \<open>simp add: addSpan_def\<close>)
  show "in_spans (addSpan spans i j) x" if "in_spans spans x \<or> i \<le> x \<and> x < j"
  proof (cases spans rule: rev_cases)
    case (snoc ss se)
    obtain s e where "se = (s, e)" by (cases se)
    moreover have "s < e" "e \<le> i" using assms(1) snoc calculation by (auto simp: spans_ok_def)
    ultimately show ?thesis using that snoc assms(2) by (auto simp: addSpan_def in_spans_def)
  qed (use that in \<open>auto simp: addSpan_def in_spans_def\<close>)
qed

lemma spanLoop_ok:
  "spans_ok i spans \<Longrightarrow> diff_covered base cur i spans \<Longrightarrow> i \<le> 16384 \<Longrightarrow>
   spans_ok 16384 (spanLoop base cur i spans) \<and> diff_covered base cur 16384 (spanLoop base cur i spans)"
proof (induction base cur i spans rule: spanLoop.induct)
  case (1 base cur i spans)
  consider "16384 \<le> i" | "i < 16384" "masked i \<or> base ! i = cur ! i" | "i < 16384" "\<not> masked i" "base ! i \<noteq> cur ! i"
    by fastforce
  then show ?case
  proof cases
    case 1
    then show ?thesis using "1.prems" by (subst (1 2) spanLoop.simps) simp
  next
    case 2
    then have e: "spanLoop base cur i spans = spanLoop base cur (i + 1) spans" by (subst spanLoop.simps) simp
    have "spans_ok (i + 1) spans" using "1.prems"(1) by (fastforce simp: spans_ok_def)
    moreover have "diff_covered base cur (i + 1) spans"
      using "1.prems"(2) 2 by (auto simp: diff_covered_def less_Suc_eq)
    ultimately show ?thesis unfolding e using "1.IH"(1) 2 by simp
  next
    case 3
    let ?j = "scanEnd base cur (i + 1)"
    have e: "spanLoop base cur i spans = spanLoop base cur ?j (addSpan spans i ?j)" using 3 by (subst spanLoop.simps) simp
    have j: "i < ?j" "?j \<le> 16384" "\<not> maskedBetween (i + 1) ?j"
      using scanEnd_ge [of "i + 1" base cur] scanEnd_spec [of "i + 1" base cur] 3 by auto
    then have m: "\<not> maskedBetween i ?j" using 3 unfolding maskedBetween_iff by (metis Suc_eq_plus1 le_antisym not_less_eq_eq)
    have "diff_covered base cur ?j (addSpan spans i ?j)"
      unfolding diff_covered_def using "1.prems"(2) addSpan_ok(2) [OF "1.prems"(1) j(1) m]
      by (metis diff_covered_def not_less)
    then show ?thesis unfolding e using "1.IH"(2) 3 j addSpan_ok(1) [OF "1.prems"(1) j(1) m] by simp
  qed
qed

section \<open>The body\<close>

definition runBytes :: "bytes \<Rightarrow> nat \<times> nat \<Rightarrow> bytes" where
  "runBytes cur = (\<lambda>(s, e). le_bytes 2 s @ le_bytes 2 (e - s) @ slice cur s (e - s))"

definition toRun :: "bytes \<Rightarrow> nat \<times> nat \<Rightarrow> PageDeltaRun" where
  "toRun cur = (\<lambda>(s, e). \<lparr>drOffset = word_of_nat s, drData = slice cur s (e - s)\<rparr>)"

definition runsLen :: "(nat \<times> nat) list \<Rightarrow> nat" where
  "runsLen spans = (\<Sum>(s, e) \<leftarrow> spans. 4 + (e - s))"

lemma sizeLoop_eq: "sizeLoop mx spans sz = Some n \<Longrightarrow> n = sz + runsLen spans"
  by (induction mx spans sz rule: sizeLoop.induct) (auto simp: runsLen_def Let_def split: if_splits)

lemma spans_ok_Cons: "spans_ok k (x # xs) \<Longrightarrow> spans_ok k xs"
  by (auto simp: spans_ok_def)

lemma length_runBytes: "s < e \<Longrightarrow> e \<le> length cur \<Longrightarrow> length (runBytes cur (s, e)) = 4 + (e - s)"
  by (simp add: runBytes_def)

lemma length_runs: "spans_ok k spans \<Longrightarrow> k \<le> length cur \<Longrightarrow> length (concat (map (runBytes cur) spans)) = runsLen spans"
  by (induction spans) (auto simp: runsLen_def runBytes_def spans_ok_def)

lemma unat16: "n \<le> 16384 \<Longrightarrow> unat (word_of_nat n :: u16) = n"
  by (simp add: unat_of_nat)

lemma runLoop_step:
  assumes "0 < n" and "s + n \<le> 16384" and "length cur = 16384" and "off + (4 + n) \<le> length body"
  shows "runLoop cur ((s, s + n) # sps) body off = runLoop cur sps (blit body off (runBytes cur (s, s + n))) (off + (4 + n))"
proof -
  have v: "blit (blit (blit body off (le_bytes 2 s)) (off + 2) (le_bytes 2 n)) (off + 4) (slice cur s n)
      = blit body off (runBytes cur (s, s + n))"
    using assms by (simp add: blit_def runBytes_def add.commute [of n off])
  show ?thesis using assms unfolding v [symmetric]
    by (simp add: go_defs unat16 add.assoc)
qed

lemma runLoop_eq:
  "spans_ok 16384 spans \<Longrightarrow> length cur = 16384 \<Longrightarrow> length body = off + runsLen spans \<Longrightarrow>
   runLoop cur spans body off = Some (take off body @ concat (map (runBytes cur) spans))"
proof (induction spans arbitrary: body off)
  case (Cons sp sps)
  obtain s n where sp: "sp = (s, s + n)" "0 < n" "s + n \<le> 16384"
    using Cons.prems(1) by (cases sp) (fastforce simp: spans_ok_def dest: less_imp_add_positive)
  have len: "length body = off + (4 + n) + runsLen sps" using Cons.prems(3) by (simp add: runsLen_def sp)
  let ?v = "runBytes cur (s, s + n)"
  have lv: "length ?v = 4 + n" using length_runBytes [of s "s + n" cur] sp Cons.prems(2) by simp
  have "runLoop cur (sp # sps) body off = runLoop cur sps (blit body off ?v) (off + (4 + n))"
    unfolding sp(1) using sp len Cons.prems(2) by (intro runLoop_step) simp_all
  also have "\<dots> = Some (take (off + (4 + n)) (blit body off ?v) @ concat (map (runBytes cur) sps))"
    using Cons.prems len lv by (intro Cons.IH) (auto dest: spans_ok_Cons)
  also have "take (off + (4 + n)) (blit body off ?v) = take off body @ ?v" using len lv by (simp add: blit_def)
  finally show ?case by (simp add: sp(1))
qed (simp add: runsLen_def)

lemma decodeRuns_step:
  assumes n: "0 < n" "s + n \<le> 16384" "prevEnd \<le> s" "\<not> maskedBetween s (s + n)" and cur: "length cur = 16384"
  shows "decodeRuns (pre @ runBytes cur (s, s + n) @ rest) (Suc k) (length pre) prevEnd runs =
    decodeRuns (pre @ runBytes cur (s, s + n) @ rest) k (length pre + (4 + n)) (s + n) (runs @ [toRun cur (s, s + n)])"
proof -
  let ?b = "pre @ runBytes cur (s, s + n) @ rest"
  have l: "length (runBytes cur (s, s + n)) = 4 + n" using length_runBytes [of s "s + n" cur] n cur by simp
  have r: "U16 ?b (length pre) = Some (word_of_nat s)" "U16 ?b (length pre + 2) = Some (word_of_nat n)"
    "goSlice ?b (length pre + 4) (length pre + 4 + n) = Some (slice cur s n)"
    using n cur l by (simp_all add: U16_def goSlice_def runBytes_def slice_append_right slice_append_left)
  have u: "uint (word_of_nat n :: u16) = int n" using unat16 [of n] n by (metis add_leE of_nat_unat)
  show ?thesis using n l r u by (simp add: unat16 toRun_def add.assoc Let_def)
qed

lemma decodeRuns_bytes:
  "spans_ok 16384 spans \<Longrightarrow> length cur = 16384 \<Longrightarrow> \<forall>(s, e) \<in> set spans. prevEnd \<le> s \<Longrightarrow>
   decodeRuns (pre @ concat (map (runBytes cur) spans)) (length spans) (length pre) prevEnd runs =
     Some (Inr (runs @ map (toRun cur) spans, length pre + runsLen spans))"
proof (induction spans arbitrary: pre prevEnd runs)
  case (Cons sp sps)
  obtain s n where sp: "sp = (s, s + n)" "0 < n" "s + n \<le> 16384"
    using Cons.prems(1) by (cases sp) (fastforce simp: spans_ok_def dest: less_imp_add_positive)
  let ?v = "runBytes cur (s, s + n)"
  have lv: "length ?v = 4 + n" using length_runBytes [of s "s + n" cur] sp Cons.prems(2) by simp
  have "decodeRuns (pre @ ?v @ concat (map (runBytes cur) sps)) (Suc (length sps)) (length pre) prevEnd runs =
      decodeRuns ((pre @ ?v) @ concat (map (runBytes cur) sps)) (length sps) (length (pre @ ?v)) (s + n)
        (runs @ [toRun cur (s, s + n)])"
    using decodeRuns_step [of n s prevEnd cur] sp Cons.prems lv by (simp add: spans_ok_def)
  also have "\<dots> = Some (Inr ((runs @ [toRun cur (s, s + n)]) @ map (toRun cur) sps, length (pre @ ?v) + runsLen sps))"
    using Cons.prems sp(1) by (intro Cons.IH) (auto simp: spans_ok_def)
  finally show ?case using lv by (simp add: sp(1) runsLen_def)
qed (simp add: runsLen_def)

section \<open>Applying\<close>

lemma nth_copy: "off + length d \<le> length p \<Longrightarrow> copyAt p off d = Some (blit p off d)"
  by (simp add: copyAt_def)

lemma applyRuns_spans:
  "spans_ok 16384 spans \<Longrightarrow> length cur = 16384 \<Longrightarrow> length p = 16384 \<Longrightarrow>
   \<exists>p'. applyRuns p (map (toRun cur) spans) = Some p' \<and> length p' = 16384 \<and>
     (\<forall>i < 16384. p' ! i = (if in_spans spans i then cur ! i else p ! i))"
proof (induction spans arbitrary: p)
  case (Cons sp sps)
  obtain s n where sp: "sp = (s, s + n)" "0 < n" "s + n \<le> 16384"
    using Cons.prems(1) by (cases sp) (fastforce simp: spans_ok_def dest: less_imp_add_positive)
  let ?p = "blit p s (slice cur s n)"
  have lp: "length ?p = 16384" using sp Cons.prems by simp
  obtain p' where p': "applyRuns ?p (map (toRun cur) sps) = Some p'" "length p' = 16384"
      "\<forall>i < 16384. p' ! i = (if in_spans sps i then cur ! i else ?p ! i)"
    using Cons.IH [OF spans_ok_Cons [OF Cons.prems(1)] Cons.prems(2) lp] by blast
  have "applyRuns p (map (toRun cur) (sp # sps)) = Some p'"
    using sp Cons.prems p'(1) by (simp add: toRun_def unat16 nth_copy)
  moreover have "p' ! i = (if in_spans (sp # sps) i then cur ! i else p ! i)" if "i < 16384" for i
    using p'(3) that sp Cons.prems by (auto simp: in_spans_def nth_blit nth_slice)
  ultimately show ?case using p'(2) by blast
qed (simp add: in_spans_def)

lemma EncodePageDelta_bytes:
  assumes "EncodePageDelta baseLSN base cur maxBody = Some (Some body)"
  defines "spans \<equiv> spanLoop base cur 0 []"
  shows "length base = 16384" "length cur = 16384" "baseLSN \<noteq> 0" "length spans \<le> 65535" "spans_ok 16384 spans"
    "diff_covered base cur 16384 spans"
    "body = (1 # le_bytes 8 (unat baseLSN) @ PageDeltaSum base @ le_bytes 2 (length spans)) @ concat (map (runBytes cur) spans)"
proof -
  have len: "length base = 16384" "length cur = 16384" "baseLSN \<noteq> 0"
    using assms(1) by (auto simp: EncodePageDelta_def split: if_splits)
  have sp: "spans_ok 16384 spans \<and> diff_covered base cur 16384 spans"
    unfolding spans_def by (rule spanLoop_ok) (auto simp: spans_ok_def diff_covered_def)
  obtain sz where sz: "sizeLoop maxBody spans 43 = Some sz" "length spans \<le> 65535"
    using assms(1) len by (auto simp: EncodePageDelta_def spans_def [symmetric] Let_def split: option.splits if_splits)
  have n: "sz = 43 + runsLen spans" using sizeLoop_eq [OF sz(1)] .
  have ls: "length (PageDeltaSum base) = 32" by (simp add: PageDeltaSum_def Let_def)
  have ln: "unat (word_of_nat (length spans) :: u16) = length spans" using sz(2) by (simp add: unat_of_nat)
  let ?h = "1 # le_bytes 8 (unat baseLSN) @ PageDeltaSum base @ le_bytes 2 (length spans)"
  let ?b = "blit (blit (blit (blit (replicate sz 0) 0 [1]) 1 (le_bytes 8 (unat baseLSN))) 9 (PageDeltaSum base)) 41
      (le_bytes 2 (length spans))"
  have "EncodePageDelta baseLSN base cur maxBody = map_option Some (runLoop cur spans ?b 43)"
    using len sz n ls ln by (simp add: EncodePageDelta_def spans_def [symmetric] Let_def go_defs map_option_case split: option.splits)
  also have "runLoop cur spans ?b 43 = Some (take 43 ?b @ concat (map (runBytes cur) spans))"
    using sp len n ls by (intro runLoop_eq) simp_all
  also have "take 43 ?b = ?h" using n ls by (simp add: blit_def)
  finally have "body = ?h @ concat (map (runBytes cur) spans)" using assms(1) by simp
  then show "length base = 16384" "length cur = 16384" "baseLSN \<noteq> 0" "length spans \<le> 65535" "spans_ok 16384 spans"
    "diff_covered base cur 16384 spans" "body = ?h @ concat (map (runBytes cur) spans)"
    using len sz(2) sp by auto
qed

lemma DecodePageDelta_parts:
  assumes "length b = 43 + k" "getB b 0 = Some 1" "U64 b 1 = Some lsn" "goSlice b 9 41 = Some sm" "U16 b 41 = Some n"
    and "decodeRuns b (unat n) 43 0 [] = Some (Inr (rs, 43 + k))" "lsn \<noteq> 0"
  shows "DecodePageDelta b = Some (Inr \<lparr>pdBaseLSN = lsn, pdBaseSum = sm, pdRuns = rs\<rparr>)"
  using assms by (simp add: DecodePageDelta_def)

lemma DecodePageDelta_bytes:
  assumes "length sm = 32" "length spans \<le> 65535" "spans_ok 16384 spans" "length cur = 16384" "lsn \<noteq> 0"
  shows "DecodePageDelta ((1 # le_bytes 8 (unat lsn) @ sm @ le_bytes 2 (length spans)) @ concat (map (runBytes cur) spans)) =
    Some (Inr \<lparr>pdBaseLSN = lsn, pdBaseSum = sm, pdRuns = map (toRun cur) spans\<rparr>)"
proof -
  let ?h = "1 # le_bytes 8 (unat lsn) @ sm @ le_bytes 2 (length spans)"
  let ?b = "?h @ concat (map (runBytes cur) spans)"
  have lh: "length ?h = 43" using assms(1) by simp
  have ln: "unat (word_of_nat (length spans) :: u16) = length spans" using assms(2) by (simp add: unat_of_nat)
  have hs: "slice ?h 1 8 = le_bytes 8 (unat lsn)" "slice ?h 9 32 = sm" "slice ?h 41 2 = le_bytes 2 (length spans)"
    using assms(1) by (simp_all add: slice_def)
  have "getB ?b 0 = Some 1" by (simp add: getB_def)
  moreover have "U64 ?b 1 = Some lsn" "goSlice ?b 9 41 = Some sm" "U16 ?b 41 = Some (word_of_nat (length spans))"
    using lh hs assms(2) by (simp_all add: getB_def U64_def U16_def goSlice_def slice_append_left del: append_Cons)
  ultimately have rd: "getB ?b 0 = Some 1" "U64 ?b 1 = Some lsn" "goSlice ?b 9 41 = Some sm" "U16 ?b 41 = Some (word_of_nat (length spans))"
    by blast+
  have dr: "decodeRuns ?b (length spans) 43 0 [] = Some (Inr (map (toRun cur) spans, 43 + runsLen spans))"
    using decodeRuns_bytes [OF assms(3,4), of 0 ?h "[]"] lh by auto
  have lb: "length ?b = 43 + runsLen spans" using lh length_runs [OF assms(3)] assms(4) by simp
  show ?thesis by (rule DecodePageDelta_parts [OF lb rd]) (simp_all only: ln dr assms(5) not_False_eq_True)
qed

section \<open>The decoder is defensive\<close>

definition run_ok :: "PageDeltaRun \<Rightarrow> bool" where
  "run_ok r \<longleftrightarrow> unat (drOffset r) + length (drData r) \<le> 16384 \<and>
     \<not> maskedBetween (unat (drOffset r)) (unat (drOffset r) + length (drData r))"

lemma decodeRuns_safe:
  "\<forall>r \<in> set runs. run_ok r \<Longrightarrow>
   \<exists>res. decodeRuns body n off pe runs = Some res \<and> (\<forall>rs o'. res = Inr (rs, o') \<longrightarrow> (\<forall>r \<in> set rs. run_ok r))"
proof (induction n arbitrary: off pe runs)
  case (Suc n)
  show ?case
  proof (cases "off + 4 \<le> length body")
    case True
    obtain s l where sl: "U16 body off = Some s" "U16 body (off + 2) = Some l" using True by (auto simp: U16_def)
    have room: "int (length body) - (int off + 4) < uint l \<longleftrightarrow> length body < off + 4 + unat l"
      using True unfolding uint_nat by linarith
    show ?thesis
    proof (cases "unat l = 0 \<or> unat s < pe \<or> unat s + unat l > 16384 \<or> length body < off + 4 + unat l \<or>
        maskedBetween (unat s) (unat s + unat l)")
      case True
      then show ?thesis using \<open>off + 4 \<le> length body\<close> sl by (auto simp: deltaErr_def Let_def room)
    next
      case False
      let ?d = "slice body (off + 4) (unat l)"
      have d: "goSlice body (off + 4) (off + 4 + unat l) = Some ?d" "length ?d = unat l"
        using False by (simp_all add: goSlice_def)
      have "run_ok \<lparr>drOffset = s, drData = ?d\<rparr>" using False d(2) by (simp add: run_ok_def)
      then show ?thesis using \<open>off + 4 \<le> length body\<close> sl False d Suc.IH [of "runs @ [\<lparr>drOffset = s, drData = ?d\<rparr>]"] Suc.prems
        by (simp add: Let_def room)
    qed
  qed (auto simp: deltaErr_def)
qed simp

lemma applyRuns_safe:
  "\<forall>r \<in> set rs. run_ok r \<Longrightarrow> length p = 16384 \<Longrightarrow>
   \<exists>p'. applyRuns p rs = Some p' \<and> length p' = 16384 \<and> (\<forall>i < 16384. masked i \<longrightarrow> p' ! i = p ! i)"
proof (induction rs arbitrary: p)
  case (Cons r rs)
  let ?p = "blit p (unat (drOffset r)) (drData r)"
  have r: "unat (drOffset r) + length (drData r) \<le> length p" "\<not> maskedBetween (unat (drOffset r)) (unat (drOffset r) + length (drData r))"
    using Cons.prems by (auto simp: run_ok_def)
  then have "length ?p = 16384" and m: "\<forall>i < 16384. masked i \<longrightarrow> ?p ! i = p ! i"
    using Cons.prems(2) by (auto simp: nth_blit maskedBetween_iff)
  then obtain p' where "applyRuns ?p rs = Some p'" "length p' = 16384" "\<forall>i < 16384. masked i \<longrightarrow> p' ! i = ?p ! i"
    using Cons.IH [of ?p] Cons.prems(1) by auto
  then show ?case using r(1) m by (simp add: nth_copy)
qed simp

lemma DecodePageDelta_safe:
  "\<exists>res. DecodePageDelta body = Some res \<and> (\<forall>d. res = Inr d \<longrightarrow> (\<forall>r \<in> set (pdRuns d). run_ok r))"
proof (cases "length body < 43")
  case False
  then obtain v lsn sm n where rd: "getB body 0 = Some v" "U64 body 1 = Some lsn" "goSlice body 9 41 = Some sm" "U16 body 41 = Some n"
    by (force simp: getB_def U64_def U16_def goSlice_def)
  obtain res where res: "decodeRuns body (unat n) 43 0 [] = Some res"
      "\<forall>rs o'. res = Inr (rs, o') \<longrightarrow> (\<forall>r \<in> set rs. run_ok r)"
    using decodeRuns_safe [of "[]" body "unat n" 43 0] by auto
  show ?thesis using False rd res by (cases res) (auto simp: DecodePageDelta_def deltaErr_def)
qed (simp add: DecodePageDelta_def deltaErr_def)

lemma lsn_field:
  assumes "length p = 16384"
  shows "PutU64 p 16 lsn = Some (blit p 16 (le_bytes 8 (unat lsn)))"
    and "U64 (blit p 16 (le_bytes 8 (unat lsn))) 16 = Some lsn"
    and "i < 16384 \<Longrightarrow> \<not> (16 \<le> i \<and> i < 24) \<Longrightarrow> blit p 16 (le_bytes 8 (unat lsn)) ! i = p ! i"
  using assms by (auto simp: PutU64_def U64_def nth_blit slice_blit_same)

lemma sizeLoop_fits: "spans_ok k spans \<Longrightarrow> sz + runsLen spans \<le> maxBody \<Longrightarrow> sizeLoop maxBody spans sz = Some (sz + runsLen spans)"
proof (induction spans arbitrary: sz)
  case (Cons sp sps)
  obtain s e where "sp = (s, e)" by (cases sp)
  then show ?case using Cons.prems Cons.IH [OF spans_ok_Cons [OF Cons.prems(1)], of "sz + 4 + (e - s)"]
    by (simp add: runsLen_def Let_def)
qed (simp add: runsLen_def)

lemma spans_ok_length: "spans_ok k spans \<Longrightarrow> length spans \<le> k"
proof (induction spans arbitrary: k rule: rev_induct)
  case (snoc sp sps)
  obtain s e where sp: "sp = (s, e)" by (cases sp)
  have "spans_ok s sps" using snoc.prems sp unfolding spans_ok_def by (fastforce simp: sorted_wrt_append)
  moreover have "s < e" "e \<le> k" using snoc.prems sp by (auto simp: spans_ok_def)
  ultimately show ?case using snoc.IH [of s] by simp
qed simp

lemma EncodePageDelta_total:
  assumes "length base = 16384" "length cur = 16384" "baseLSN \<noteq> 0" "43 + runsLen (spanLoop base cur 0 []) \<le> maxBody"
  shows "\<exists>body. EncodePageDelta baseLSN base cur maxBody = Some (Some body)"
proof -
  let ?sps = "spanLoop base cur 0 []"
  have sp: "spans_ok 16384 ?sps" using spanLoop_ok [of 0 "[]" base cur] by (auto simp: spans_ok_def diff_covered_def)
  note sz = sizeLoop_fits [OF sp assms(4)]
  have ls: "length (PageDeltaSum base) = 32" by (simp add: PageDeltaSum_def Let_def)
  have run: "\<exists>b. runLoop cur ?sps body 43 \<bind> (\<lambda>b. Some (Some b)) = Some (Some b)" if "length body = 43 + runsLen ?sps" for body
    using runLoop_eq [OF sp assms(2) that] by simp
  have "unat (word_of_nat (length ?sps) :: u16) = length ?sps" using spans_ok_length [OF sp] by (simp add: unat_of_nat)
  then show ?thesis using assms sz ls spans_ok_length [OF sp] run by (simp add: EncodePageDelta_def Let_def go_defs)
qed

section \<open>Properties\<close>

text \<open>C15: a page delta reproduces the page it was taken from. Whenever \<^const>\<open>EncodePageDelta\<close> produces a
  body, decoding it succeeds, and applying the decoded delta to the base page succeeds and yields a page that agrees
  with the current page on every byte outside the two header fields the delta excludes: the LSN field then holds the
  record's own LSN, and the checksum field still holds the base's bytes.\<close>

theorem page_delta_roundtrip:
  assumes "EncodePageDelta baseLSN base cur maxBody = Some (Some body)" and "U64 base pageLSNOffset = Some baseLSN"
  shows "\<exists>d p'. DecodePageDelta body = Some (Inr d) \<and> ApplyPageDelta base d lsn = Some (p', Inr ()) \<and>
    length p' = LogicalPageSize \<and> (\<forall>i < LogicalPageSize. \<not> masked i \<longrightarrow> p' ! i = cur ! i) \<and>
    U64 p' pageLSNOffset = Some lsn \<and>
    slice p' pageChecksumOffset 4 = slice base pageChecksumOffset 4"
proof -
  let ?sps = "spanLoop base cur 0 []"
  note e = EncodePageDelta_bytes [OF assms(1)]
  let ?d = "\<lparr>pdBaseLSN = baseLSN, pdBaseSum = PageDeltaSum base, pdRuns = map (toRun cur) ?sps\<rparr>"
  have d: "DecodePageDelta body = Some (Inr ?d)"
    unfolding e(7) by (rule DecodePageDelta_bytes) (use e in \<open>simp_all add: PageDeltaSum_def Let_def\<close>)
  obtain q where q: "applyRuns base (pdRuns ?d) = Some q" "length q = 16384"
      "\<forall>i < 16384. q ! i = (if in_spans ?sps i then cur ! i else base ! i)"
    using applyRuns_spans [OF e(5,2,1)] by auto
  let ?p = "blit q 16 (le_bytes 8 (unat lsn))"
  have a: "ApplyPageDelta base ?d lsn = Some (?p, Inr ())"
    using q(1) lsn_field(1) [OF q(2)] assms(2) e(1) by (simp add: ApplyPageDelta_def)
  have cur: "?p ! i = cur ! i" if "i < 16384" "\<not> masked i" for i
    using that lsn_field(3) [OF q(2) that(1)] q(3) e(6) by (auto simp: diff_covered_def masked_def)
  have old: "?p ! i = base ! i" if i: "40 \<le> i" "i < 44" for i
  proof -
    have "\<not> in_spans ?sps i"
      using i e(5) unfolding spans_ok_def in_spans_def maskedBetween_iff masked_def by fastforce
    then show ?thesis using i lsn_field(3) [OF q(2), of i] q(3) by simp
  qed
  have "slice ?p 40 4 = slice base 40 4" using q(2) e(1) old by (simp add: list_eq_iff_nth_eq nth_slice)
  then show ?thesis using d a q(2) lsn_field(2) [OF q(2)] cur by (intro exI [of _ ?d] exI [of _ ?p]) simp
qed

theorem page_delta_roundtrip_witness:
  "\<exists>n body d p'. EncodePageDelta 7 (blit (replicate 16384 0) 16 (le_bytes 8 7)) (blit (replicate 16384 0) 64 [1, 2, 3]) n = Some (Some body) \<and>
     DecodePageDelta body = Some (Inr d) \<and> ApplyPageDelta (blit (replicate 16384 0) 16 (le_bytes 8 7)) d 9 = Some (p', Inr ()) \<and>
     p' ! 65 = 2 \<and> U64 p' 16 = Some 9"
proof -
  let ?b = "blit (replicate 16384 0) 16 (le_bytes 8 7) :: bytes" and ?c = "blit (replicate 16384 0) 64 [1, 2, 3] :: bytes"
  have len: "length ?b = 16384" "length ?c = 16384" by simp_all
  have lsn: "U64 ?b 16 = Some 7" using lsn_field(2) [of "replicate 16384 0" 7] by simp
  obtain body where e: "EncodePageDelta 7 ?b ?c (43 + runsLen (spanLoop ?b ?c 0 [])) = Some (Some body)"
    using EncodePageDelta_total [OF len, of 7] by auto
  obtain d p' where "DecodePageDelta body = Some (Inr d)" "ApplyPageDelta ?b d 9 = Some (p', Inr ())"
      "\<forall>i < 16384. \<not> masked i \<longrightarrow> p' ! i = ?c ! i" "U64 p' 16 = Some 9"
    using page_delta_roundtrip [OF e lsn, of 9] by auto
  moreover from this have "p' ! 65 = 2" by (simp add: masked_def nth_blit)
  ultimately show ?thesis using e by blast
qed

text \<open>C24: the page delta decoder and its application are safe on arbitrary input. \<^const>\<open>DecodePageDelta\<close> never
  panics. When it accepts a body, applying the delta to any full-size page never panics, keeps the page size and
  never touches the checksum field; and when the application reports an error (the page is not the delta's base)
  the page is unchanged.\<close>

theorem page_delta_decode_safe:
  "\<exists>res. DecodePageDelta body = Some res \<and>
     (\<forall>d page lsn. res = Inr d \<longrightarrow> length page = LogicalPageSize \<longrightarrow>
       (\<exists>p' r. ApplyPageDelta page d lsn = Some (p', r) \<and> length p' = LogicalPageSize \<and>
          slice p' pageChecksumOffset 4 = slice page pageChecksumOffset 4 \<and> (\<forall>e. r = Inl e \<longrightarrow> p' = page)))"
proof -
  obtain res where res: "DecodePageDelta body = Some res" "\<forall>d. res = Inr d \<longrightarrow> (\<forall>r \<in> set (pdRuns d). run_ok r)"
    using DecodePageDelta_safe by blast
  have "\<exists>p' r. ApplyPageDelta page d lsn = Some (p', r) \<and> length p' = 16384 \<and>
      slice p' 40 4 = slice page 40 4 \<and> (\<forall>e. r = Inl e \<longrightarrow> p' = page)"
    if d: "res = Inr d" "length page = 16384" for d page lsn
  proof -
    obtain q where q: "applyRuns page (pdRuns d) = Some q" "length q = 16384" "\<forall>i < 16384. masked i \<longrightarrow> q ! i = page ! i"
      using applyRuns_safe res(2) d by blast
    have "slice (blit q 16 (le_bytes 8 (unat lsn))) 40 4 = slice page 40 4"
      using q d(2) lsn_field(3) [OF q(2)] by (simp add: list_eq_iff_nth_eq nth_slice masked_def)
    moreover have "\<exists>v. U64 page 16 = Some v" using d(2) by (simp add: U64_def)
    ultimately show ?thesis using q d(2) lsn_field(1) [OF q(2)] by (auto simp: ApplyPageDelta_def)
  qed
  then show ?thesis using res(1) by auto
qed

theorem page_delta_decode_safe_witness:
  "\<exists>d p' r. DecodePageDelta (1 # le_bytes 8 7 @ replicate 32 0 @ [1, 0, 64, 0, 2, 0, 5, 6]) = Some (Inr d) \<and>
     ApplyPageDelta (replicate 16384 0) d 9 = Some (p', r) \<and> length p' = 16384"
proof -
  let ?body = "1 # le_bytes 8 7 @ replicate 32 0 @ [1, 0, 64, 0, 2, 0, 5, 6] :: bytes"
  let ?d = "\<lparr>pdBaseLSN = 7, pdBaseSum = replicate 32 0, pdRuns = [\<lparr>drOffset = 64, drData = [5, 6]\<rparr>]\<rparr>"
  have d: "DecodePageDelta ?body = Some (Inr ?d)" by code_simp
  have "\<exists>p' r. ApplyPageDelta (replicate 16384 0) ?d 9 = Some (p', r) \<and> length p' = 16384"
    using page_delta_decode_safe [of ?body, unfolded d] length_replicate [of 16384 "0 :: 8 word"] by (elim exE conjE) blast
  then show ?thesis using d by blast
qed

end
