(* ===== verification/Proc.thy ===== *)
theory Proc
  imports Binary "HOL-Library.List_Lexorder"
begin

text \<open>
  Stateful Go code with an error result: a procedure maps the state to the new state and a
  result, or to \<open>None\<close> when it panics. \<open>pbind\<close> is the sequence
  \<open>x, err := m(); if err != nil { return err }; f(x)\<close>; what \<open>m\<close> changed before it
  failed stays changed. Also the parts of \<open>fmt.Sprintf\<close> and \<open>bytes.Compare\<close> the
  storage packages use.
\<close>

type_synonym ('s, 'a) proc = "'s \<Rightarrow> ('s \<times> 'a res) option"

definition pret :: "'a \<Rightarrow> ('s, 'a) proc" where
  "pret x = (\<lambda>s. Some (s, Inr x))"

definition pfail :: "nerr \<Rightarrow> ('s, 'a) proc" where
  "pfail e = (\<lambda>s. Some (s, Inl e))"

definition pbind :: "('s, 'a) proc \<Rightarrow> ('a \<Rightarrow> ('s, 'b) proc) \<Rightarrow> ('s, 'b) proc" where
  "pbind m f = (\<lambda>s. case m s of
      None \<Rightarrow> None
    | Some (s', Inl e) \<Rightarrow> Some (s', Inl e)
    | Some (s', Inr x) \<Rightarrow> f x s')"

text \<open>The caller inspects the error itself.\<close>

definition ptry :: "('s, 'a) proc \<Rightarrow> ('a res \<Rightarrow> ('s, 'b) proc) \<Rightarrow> ('s, 'b) proc" where
  "ptry m f = (\<lambda>s. case m s of None \<Rightarrow> None | Some (s', r) \<Rightarrow> f r s')"

text \<open>A computation that does not touch the state, and access to the state.\<close>

definition pgo :: "'a go \<Rightarrow> ('s, 'a) proc" where
  "pgo g = (\<lambda>s. case g of None \<Rightarrow> None | Some r \<Rightarrow> Some (s, r))"

definition pget :: "('s \<Rightarrow> 'a) \<Rightarrow> ('s, 'a) proc" where
  "pget f = (\<lambda>s. Some (s, Inr (f s)))"

definition pmodify :: "('s \<Rightarrow> 's) \<Rightarrow> ('s, unit) proc" where
  "pmodify f = (\<lambda>s. Some (f s, Inr ()))"

named_theorems proc_simps \<open>evaluation of procedures\<close>

lemma pret_apply [proc_simps]: "pret x s = Some (s, Inr x)"
  by (simp add: pret_def)

lemma pfail_apply [proc_simps]: "pfail e s = Some (s, Inl e)"
  by (simp add: pfail_def)

lemma pget_apply [proc_simps]: "pget f s = Some (s, Inr (f s))"
  by (simp add: pget_def)

lemma pmodify_apply [proc_simps]: "pmodify f s = Some (f s, Inr ())"
  by (simp add: pmodify_def)

lemma pgo_apply [proc_simps]: "pgo (Some r) s = Some (s, r)"
  by (simp add: pgo_def)

lemma pbind_ok: "m s = Some (s', Inr x) \<Longrightarrow> pbind m f s = f x s'"
  by (simp add: pbind_def)

lemma pbind_err: "m s = Some (s', Inl e) \<Longrightarrow> pbind m f s = Some (s', Inl e)"
  by (simp add: pbind_def)

lemma ptry_apply: "m s = Some (s', r) \<Longrightarrow> ptry m f s = f r s'"
  by (simp add: ptry_def)

lemma pbind_simps [proc_simps]:
  "pbind (pret x) f s = f x s"
  "pbind (pfail e) f s = Some (s, Inl e)"
  "pbind (pget g) f s = f (g s) s"
  "pbind (pgo (Some (Inr x))) f s = f x s"
  "pbind (pgo (Some (Inl e))) f s = Some (s, Inl e)"
  by (simp_all add: pbind_def pret_def pfail_def pget_def pgo_def)

lemma pbind_pmodify [proc_simps]: "pbind (pmodify h) f s = f () (h s)"
  by (simp add: pbind_def pmodify_def)

lemma ptry_simps [proc_simps]:
  "ptry (pgo (Some r)) f' s = f' r s"
  by (simp add: ptry_def pgo_def)

lemma pbind_assoc: "pbind (pbind m f) g = pbind m (\<lambda>x. pbind (f x) g)"
  by (auto simp: pbind_def fun_eq_iff split: option.splits sum.splits)

section \<open>Formatting numbers and bytes\<close>

definition digitChar :: "nat \<Rightarrow> char" where
  "digitChar d = char_of (if d < 10 then 48 + d else 87 + d)"

fun fmtD :: "nat \<Rightarrow> string" where
  "fmtD n = (if n < 10 then [digitChar n] else fmtD (n div 10) @ [digitChar (n mod 10)])"

declare fmtD.simps [simp del]

definition fmtX :: "bytes \<Rightarrow> string" where
  "fmtX bs = concat (map (\<lambda>b. [digitChar (unat b div 16), digitChar (unat b mod 16)]) bs)"

section \<open>Byte strings in order\<close>

definition compare :: "bytes \<Rightarrow> bytes \<Rightarrow> int" where
  "compare a b = (if a < b then -1 else if a = b then 0 else 1)"

lemma compare_simps [simp]:
  "compare a b < 0 \<longleftrightarrow> a < b"
  "compare a b = 0 \<longleftrightarrow> a = b"
  "compare a b > 0 \<longleftrightarrow> b < a"
  "compare a b \<le> 0 \<longleftrightarrow> a \<le> b"
  "compare a b \<ge> 0 \<longleftrightarrow> b \<le> a"
  by (auto simp: compare_def)

end
