(* ===== verification/FileMgr.thy ===== *)
theory FileMgr
  imports PageValid Envelope Sha256 Proc
begin

text \<open>
  The data file: \<open>internal/storage/file/superblock.go\<close>, \<open>manager.go\<close>, the durable I/O
  seam \<open>internal/storage/io/io.go\<close>, the file authentication tag of
  \<open>internal/crypto/auth.go\<close> and the version catalogue \<open>internal/upgrade/compat\<close>.

  The disk holds the bytes of each physical page (the superblock is page 0; \<open>None\<close> lies beyond
  the end of the file) and a list of faults, one consumed by every read, write or barrier: a
  write that fails may have written a prefix. The key provider is the pair \<open>cur\<close> and \<open>ring\<close>
  of its two methods.
\<close>

section \<open>Format compatibility\<close>

record Spec =
  spFamily :: string
  spCurrent :: u16
  spMinReadable :: u16
  spMaxReadable :: u16

definition Catalog :: "Spec list" where
  "Catalog = map (\<lambda>(f, c, lo, hi). \<lparr>spFamily = f, spCurrent = c, spMinReadable = lo, spMaxReadable = hi\<rparr>)
     [(''page'', 1, 1, 1), (''envelope'', 1, 1, 1), (''wal'', 1, 1, 1), (''wal_control'', 2, 1, 2), (''undo'', 1, 1, 1),
      (''undo_control'', 1, 1, 1), (''catalog'', 13, 1, 14), (''backup'', 1, 1, 1), (''export'', 1, 1, 1),
      (''protocol'', 1, 1, 1), (''replication'', 2, 1, 2), (''isolated'', 1, 1, 1), (''keystore'', 1, 1, 2)]"

definition Lookup :: "string \<Rightarrow> Spec option" where
  "Lookup family = List.find (\<lambda>s. spFamily s = family) Catalog"

definition Check :: "string \<Rightarrow> u16 \<Rightarrow> unit res" where
  "Check family version = (case Lookup family of
      None \<Rightarrow> Inl (New InvalidFormat ''compat.Check'' (''unknown format family '' @ [CHR 0x22] @ family @ [CHR 0x22]))
    | Some s \<Rightarrow>
        if version < spMinReadable s
        then Inl (New InvalidFormat ''compat.Check'' (family @ '' format version '' @ fmtD (unat version) @
          '' is older than this binary supports (minimum '' @ fmtD (unat (spMinReadable s)) @
          ''); migrate via backup/restore into a freshly created database''))
        else if version > spMaxReadable s
        then Inl (New InvalidFormat ''compat.Check'' (family @ '' format version '' @ fmtD (unat version) @
          '' is newer than this binary supports (maximum '' @ fmtD (unat (spMaxReadable s)) @ ''); upgrade nextsqld''))
        else Inr ())"

section \<open>File authentication tag\<close>

text \<open>\<open>crypto/hmac\<close> with SHA-256: a key of at most one block is padded with zeros.\<close>

definition hmacSha256 :: "bytes \<Rightarrow> bytes \<Rightarrow> bytes" where
  "hmacSha256 key msg =
     (let k0 = (if length key > 64 then Sum256 key else key);
          k = k0 @ replicate (64 - length k0) 0
      in Sum256 (map (\<lambda>b. b XOR 0x5C) k @ Sum256 (map (\<lambda>b. b XOR 0x36) k @ msg)))"

definition FileAuthTag :: "DEK \<Rightarrow> Identity \<Rightarrow> bytes option" where
  "FileAuthTag dek ident = do {
     ver \<leftarrow> PutU32 (replicate 4 0) 0 (dVersion dek);
     Some (take 16 (hmacSha256 (dKey dek) (Database ident @ File ident @ ver)))
   }"

definition VerifyFileAuthTag :: "DEK option \<Rightarrow> Identity \<Rightarrow> bytes \<Rightarrow> unit go" where
  "VerifyFileAuthTag dek ident got = (case dek of
      None \<Rightarrow> Some (Inl (New InvalidArgument ''crypto.VerifyFileAuthTag'' ''nil DEK''))
    | Some d \<Rightarrow> do {
        want \<leftarrow> FileAuthTag d ident;
        if length got \<noteq> 16 \<or> want \<noteq> got
        then Some (Inl (New Crypto ''crypto.VerifyFileAuthTag'' ''key does not match file''))
        else Some (Inr ())
      })"

section \<open>Superblock\<close>

abbreviation (input) SuperblockSize :: nat where "SuperblockSize \<equiv> 256"
abbreviation (input) FirstAllocPageID :: PageID where "FirstAllocPageID \<equiv> 1"

definition nonceBatch :: u64 where "nonceBatch = 65536"

record Superblock =
  FormatVersion :: u16
  Flags :: u16
  sbIdentity :: Identity
  sbLogicalPageSize :: u32
  sbPhysicalPageSize :: u32
  sbCipherSuite :: CipherSuite
  EnvelopeVersion :: u16
  sbKeyVersion :: KeyVersion
  NextPageID :: PageID
  FreeListHead :: PageID
  FreeCount :: u64
  NextNonceGeneration :: u64
  CreatedUnixNano :: u64
  CheckpointLSN :: LSN
  RedoLSN :: LSN
  PrimaryRoot :: PageID
  PrimaryHeight :: u16
  PrimaryFlags :: u16

text \<open>The creation time is an argument; it is stored as the 64 bits of an \<open>int64\<close>.\<close>

definition newSuperblock :: "Identity \<Rightarrow> KeyVersion \<Rightarrow> u64 \<Rightarrow> Superblock" where
  "newSuperblock ident keyVer now =
     \<lparr>FormatVersion = CurrentFormatVersion, Flags = 0, sbIdentity = ident, sbLogicalPageSize = 16384, sbPhysicalPageSize = 16448,
      sbCipherSuite = CipherAES256GCM, EnvelopeVersion = CurrentEnvelopeVersion, sbKeyVersion = keyVer, NextPageID = FirstAllocPageID,
      FreeListHead = 0, FreeCount = 0, NextNonceGeneration = nonceBatch, CreatedUnixNano = now, CheckpointLSN = 0, RedoLSN = 0,
      PrimaryRoot = 0, PrimaryHeight = 0, PrimaryFlags = 0\<rparr>"

definition encodeSuperblock :: "Superblock \<Rightarrow> bytes \<Rightarrow> bytes option" where
  "encodeSuperblock sb auth = do {
     b \<leftarrow> PutMagic (replicate PhysicalPageSize 0) 0;
     b \<leftarrow> PutU16 b 4 (FormatVersion sb);
     b \<leftarrow> PutU16 b 6 (Flags sb);
     b \<leftarrow> copyRange b 8 24 (Database (sbIdentity sb));
     b \<leftarrow> copyRange b 24 40 (File (sbIdentity sb));
     b \<leftarrow> PutU32 b 40 (sbLogicalPageSize sb);
     b \<leftarrow> PutU32 b 44 (sbPhysicalPageSize sb);
     b \<leftarrow> PutU16 b 48 (sbCipherSuite sb);
     b \<leftarrow> PutU16 b 50 (EnvelopeVersion sb);
     b \<leftarrow> PutU32 b 52 (sbKeyVersion sb);
     b \<leftarrow> PutU64 b 56 (NextPageID sb);
     b \<leftarrow> PutU64 b 64 (FreeListHead sb);
     b \<leftarrow> PutU64 b 72 (FreeCount sb);
     b \<leftarrow> PutU64 b 80 (NextNonceGeneration sb);
     b \<leftarrow> PutU64 b 88 (CreatedUnixNano sb);
     b \<leftarrow> PutU64 b 116 (CheckpointLSN sb);
     b \<leftarrow> PutU64 b 124 (RedoLSN sb);
     b \<leftarrow> PutU64 b 236 (PrimaryRoot sb);
     b \<leftarrow> PutU16 b 244 (PrimaryHeight sb);
     b \<leftarrow> PutU16 b 246 (PrimaryFlags sb);
     b \<leftarrow> copyRange b 100 116 auth;
     hdr \<leftarrow> goSlice b 0 SuperblockSize;
     hdr \<leftarrow> checksumWrite hdr 252;
     Some (hdr @ drop SuperblockSize b)
   }"

definition validatePrimaryTree :: "PageID \<Rightarrow> u16 \<Rightarrow> PageID \<Rightarrow> unit res" where
  "validatePrimaryTree root height nxt =
     (if root = 0 then
        if height \<noteq> 0 then Inl (New Corruption ''file.decodeSuperblock'' ''primary tree height without root'') else Inr ()
      else (case UserData root of
          Some err \<Rightarrow> Inl (Wrap Corruption ''file.decodeSuperblock'' ''primary tree root'' err)
        | None \<Rightarrow>
            if height = 0 then Inl (New Corruption ''file.decodeSuperblock'' ''primary tree root without height'')
            else if root \<ge> nxt then Inl (New Corruption ''file.decodeSuperblock'' ''primary tree root is not allocated'')
            else Inr ()))"

definition decodeSuperblock :: "bytes \<Rightarrow> (Superblock \<times> bytes) go" where
  "decodeSuperblock buf =
     (if length buf < SuperblockSize then Some (Inl (New InvalidFormat ''file.decodeSuperblock'' ''truncated superblock''))
      else if \<not> HasMagic buf 0 then Some (Inl (New InvalidFormat ''file.decodeSuperblock'' ''bad file magic''))
      else do {
        hdr \<leftarrow> goSlice buf 0 SuperblockSize;
        sum \<leftarrow> checksumVerify hdr 252;
        case sum of
          Inl err \<Rightarrow> Some (Inl (Wrap Corruption ''file.decodeSuperblock'' ''checksum'' err))
        | Inr _ \<Rightarrow> do {
            ver \<leftarrow> U16 buf 4;
            case Check ''page'' ver of
              Inl err \<Rightarrow> Some (Inl (Wrap InvalidFormat ''file.decodeSuperblock'' ''unsupported database format version'' err))
            | Inr _ \<Rightarrow> do {
                flags \<leftarrow> U16 buf 6;
                logical \<leftarrow> U32 buf 40;
                physical \<leftarrow> U32 buf 44;
                suite \<leftarrow> U16 buf 48;
                env \<leftarrow> U16 buf 50;
                keyVer \<leftarrow> U32 buf 52;
                nxt \<leftarrow> U64 buf 56;
                freeHead \<leftarrow> U64 buf 64;
                freeCnt \<leftarrow> U64 buf 72;
                nonce \<leftarrow> U64 buf 80;
                created \<leftarrow> U64 buf 88;
                cp \<leftarrow> U64 buf 116;
                redo \<leftarrow> U64 buf 124;
                root \<leftarrow> U64 buf 236;
                height \<leftarrow> U16 buf 244;
                pflags \<leftarrow> U16 buf 246;
                db \<leftarrow> goSlice buf 8 24;
                fl \<leftarrow> goSlice buf 24 40;
                auth \<leftarrow> goSlice buf 100 116;
                let sb = \<lparr>FormatVersion = ver, Flags = flags, sbIdentity = \<lparr>Database = db, File = fl\<rparr>, sbLogicalPageSize = logical,
                  sbPhysicalPageSize = physical, sbCipherSuite = suite, EnvelopeVersion = env, sbKeyVersion = keyVer, NextPageID = nxt,
                  FreeListHead = freeHead, FreeCount = freeCnt, NextNonceGeneration = nonce, CreatedUnixNano = created,
                  CheckpointLSN = cp, RedoLSN = redo, PrimaryRoot = root, PrimaryHeight = height, PrimaryFlags = pflags\<rparr> in
                if logical \<noteq> 16384 \<or> physical \<noteq> 16448
                then Some (Inl (New InvalidFormat ''file.decodeSuperblock'' ''unexpected page size''))
                else if suite \<noteq> CipherAES256GCM then Some (Inl (New Crypto ''file.decodeSuperblock'' ''unsupported cipher suite''))
                else if env \<noteq> CurrentEnvelopeVersion
                then Some (Inl (New InvalidFormat ''file.decodeSuperblock'' ''unsupported envelope version''))
                else if nxt < FirstAllocPageID then Some (Inl (New Corruption ''file.decodeSuperblock'' ''invalid next page id''))
                else if nonce = 0 then Some (Inl (New Corruption ''file.decodeSuperblock'' ''invalid nonce generation''))
                else (case validatePrimaryTree root height nxt of
                    Inl err \<Rightarrow> Some (Inl err)
                  | Inr _ \<Rightarrow> Some (Inr (sb, auth)))
              }
          }
      })"

section \<open>Disk\<close>

datatype fault = NoFault | Fails nerr nat

record disk =
  dopen :: bool
  dpages :: "PageID \<Rightarrow> bytes option"
  faults :: "fault list"

definition nextFault :: "disk \<Rightarrow> fault \<times> disk" where
  "nextFault d = (case faults d of [] \<Rightarrow> (NoFault, d) | f # fs \<Rightarrow> (f, d\<lparr>faults := fs\<rparr>))"

text \<open>A read past the end of the file gives an unexpected end-of-file error of the runtime, and
  every access through a closed (nil) file its invalid-argument error.\<close>

definition errInvalid :: nerr where
  "errInvalid = New IO ''os'' ''invalid argument''"

definition ReadFullAt :: "PageID \<Rightarrow> (disk, bytes) proc" where
  "ReadFullAt pid d = (case nextFault d of
      (Fails e _, d) \<Rightarrow> Some (d, Inl (Wrap IO ''diskio.ReadFullAt'' ''injected read'' e))
    | (NoFault, d) \<Rightarrow>
        if \<not> dopen d then Some (d, Inl (Wrap IO ''diskio.ReadFullAt'' ''short read'' errInvalid))
        else (case dpages d pid of
          Some raw \<Rightarrow> Some (d, Inr raw)
        | None \<Rightarrow> Some (d, Inl (Wrap IO ''diskio.ReadFullAt'' ''short read'' (New IO ''io'' ''unexpected EOF'')))))"

text \<open>A failed write leaves the first \<open>n\<close> bytes of the buffer before what was there.\<close>

definition WriteFullAt :: "bytes \<Rightarrow> PageID \<Rightarrow> (disk, unit) proc" where
  "WriteFullAt buf pid d = (case nextFault d of
      (Fails e n, d) \<Rightarrow> Some (d\<lparr>dpages := (dpages d)(pid :=
          (if n = 0 \<or> \<not> dopen d then dpages d pid
           else Some (take n buf @ drop n (case dpages d pid of Some old \<Rightarrow> old | None \<Rightarrow> replicate PhysicalPageSize 0))))\<rparr>,
          Inl (Wrap IO ''diskio.WriteFullAt'' ''injected write'' e))
    | (NoFault, d) \<Rightarrow>
        if \<not> dopen d then Some (d, Inl (Wrap IO ''diskio.WriteFullAt'' ''short write'' errInvalid))
        else Some (d\<lparr>dpages := (dpages d)(pid \<mapsto> buf)\<rparr>, Inr ()))"

definition Sync :: "(disk, unit) proc" where
  "Sync d = (case nextFault d of
      (Fails e _, d) \<Rightarrow> Some (d, Inl (Wrap IO ''diskio.Sync'' ''injected sync'' e))
    | (NoFault, d) \<Rightarrow>
        if \<not> dopen d then Some (d, Inl (Wrap IO ''diskio.Sync'' ''fsync'' errInvalid)) else Some (d, Inr ()))"

section \<open>Manager\<close>

record FManager =
  fdisk :: disk
  sb :: Superblock
  genCursor :: u64
  genLimit :: u64

definition onDisk :: "(disk, 'a) proc \<Rightarrow> (FManager, 'a) proc" where
  "onDisk p m = (case p (fdisk m) of None \<Rightarrow> None | Some (d, r) \<Rightarrow> Some (m\<lparr>fdisk := d\<rparr>, r))"

definition writeSuperblockLocked :: "keyring \<Rightarrow> bool \<Rightarrow> (FManager, unit) proc" where
  "writeSuperblockLocked ring sync =
     pbind (pget sb) (\<lambda>s.
     pbind (pgo (Some (ring (sbKeyVersion s)))) (\<lambda>dek m. (case do { tag \<leftarrow> FileAuthTag dek (sbIdentity s); encodeSuperblock s tag } of
         None \<Rightarrow> None
       | Some raw \<Rightarrow> pbind (onDisk (WriteFullAt raw 0)) (\<lambda>_. if sync then onDisk Sync else pret ()) m)))"

definition reserveNonceBatchLocked :: "keyring \<Rightarrow> (FManager, unit) proc" where
  "reserveNonceBatchLocked ring =
     pbind (pget (\<lambda>m. NextNonceGeneration (sb m))) (\<lambda>start.
     pbind (pmodify (\<lambda>m. m\<lparr>sb := (sb m)\<lparr>NextNonceGeneration := start + nonceBatch\<rparr>\<rparr>)) (\<lambda>_.
     ptry (writeSuperblockLocked ring True) (\<lambda>r. case r of
         Inl err \<Rightarrow> pbind (pmodify (\<lambda>m. m\<lparr>sb := (sb m)\<lparr>NextNonceGeneration := start\<rparr>\<rparr>)) (\<lambda>_. pfail err)
       | Inr _ \<Rightarrow> pmodify (\<lambda>m. m\<lparr>genCursor := (if start = 0 then 1 else start), genLimit := NextNonceGeneration (sb m)\<rparr>))))"

definition nextGenerationLocked :: "keyring \<Rightarrow> (FManager, u64) proc" where
  "nextGenerationLocked ring =
     pbind (pget (\<lambda>m. genCursor m \<ge> genLimit m)) (\<lambda>full.
     pbind (if full then reserveNonceBatchLocked ring else pret ()) (\<lambda>_.
     pbind (pget genCursor) (\<lambda>g.
     pbind (pmodify (\<lambda>m. m\<lparr>genCursor := genCursor m + 1\<rparr>)) (\<lambda>_. pret g))))"

text \<open>\<open>Create\<close> and \<open>Open\<close> from the point where the operating system has given them the file.\<close>

definition FileCreate :: "DEK res \<Rightarrow> keyring \<Rightarrow> u64 \<Rightarrow> Identity \<Rightarrow> disk \<Rightarrow> (FManager \<times> unit res) option" where
  "FileCreate cur ring now ident d = (case cur of
      Inl err \<Rightarrow> Some (\<lparr>fdisk = d\<lparr>dopen := False\<rparr>, sb = newSuperblock ident 0 now, genCursor = 0, genLimit = 0\<rparr>, Inl err)
    | Inr dek \<Rightarrow>
        let s = newSuperblock ident (dVersion dek) now in
        writeSuperblockLocked ring True \<lparr>fdisk = d\<lparr>dopen := True\<rparr>, sb = s, genCursor = 1, genLimit = NextNonceGeneration s\<rparr>)"

definition FileOpen :: "keyring \<Rightarrow> disk \<Rightarrow> disk \<times> FManager go" where
  "FileOpen ring d = (case ReadFullAt 0 (d\<lparr>dopen := True\<rparr>) of
      None \<Rightarrow> (d, None)
    | Some (d, Inl err) \<Rightarrow> (d, Some (Inl err))
    | Some (d, Inr raw) \<Rightarrow> (case decodeSuperblock raw of
          None \<Rightarrow> (d, None)
        | Some (Inl err) \<Rightarrow> (d, Some (Inl err))
        | Some (Inr (s, auth)) \<Rightarrow> (case ring (sbKeyVersion s) of
              Inl err \<Rightarrow> (d, Some (Inl (Wrap Crypto ''file.Open'' ''key for file version'' err)))
            | Inr dek \<Rightarrow> (case VerifyFileAuthTag (Some dek) (sbIdentity s) auth of
                  None \<Rightarrow> (d, None)
                | Some (Inl err) \<Rightarrow> (d, Some (Inl err))
                | Some (Inr _) \<Rightarrow>
                    (case reserveNonceBatchLocked ring \<lparr>fdisk = d, sb = s, genCursor = 0, genLimit = 0\<rparr> of
                       None \<Rightarrow> (d, None)
                     | Some (m, Inl err) \<Rightarrow> (fdisk m, Some (Inl err))
                     | Some (m, Inr _) \<Rightarrow> (fdisk m, Some (Inr m)))))))"

definition AdoptCurrentKey :: "DEK res \<Rightarrow> keyring \<Rightarrow> (FManager, unit) proc" where
  "AdoptCurrentKey cur ring =
     pbind (pgo (Some cur)) (\<lambda>dek.
     pbind (pmodify (\<lambda>m. m\<lparr>sb := (sb m)\<lparr>sbKeyVersion := dVersion dek\<rparr>\<rparr>)) (\<lambda>_.
     writeSuperblockLocked ring True))"

definition AdvanceNonceTo :: "keyring \<Rightarrow> u64 \<Rightarrow> (FManager, unit) proc" where
  "AdvanceNonceTo ring n =
     pbind (pget (\<lambda>m. n \<le> NextNonceGeneration (sb m))) (\<lambda>low.
     if low then pret ()
     else pbind (pmodify (\<lambda>m. m\<lparr>sb := (sb m)\<lparr>NextNonceGeneration := n\<rparr>\<rparr>)) (\<lambda>_. writeSuperblockLocked ring True))"

definition ReadLogicalInto :: "opener \<Rightarrow> keyring \<Rightarrow> PageID \<Rightarrow> bytes \<Rightarrow> (FManager, bytes) proc" where
  "ReadLogicalInto opn ring pid dst = (case UserData pid of
      Some err \<Rightarrow> pfail err
    | None \<Rightarrow>
        if length dst \<noteq> LogicalPageSize then pfail (New InvalidArgument ''file.ReadLogical'' ''logical destination has wrong size'')
        else pbind (pget (\<lambda>m. dopen (fdisk m))) (\<lambda>f.
          if \<not> f then pfail (New IO ''file.ReadLogical'' ''file is closed'')
          else pbind (onDisk (ReadFullAt pid)) (\<lambda>raw.
            pbind (pgo (OpenPageInto opn (Some ring) pid raw dst)) (\<lambda>dst.
            pbind (pgo (VerifyChecksum dst)) (\<lambda>_.
            pbind (pgo (CheckID dst pid)) (\<lambda>_. pret dst))))))"

definition ReadLogical :: "opener \<Rightarrow> keyring \<Rightarrow> PageID \<Rightarrow> (FManager, bytes) proc" where
  "ReadLogical opn ring pid = ReadLogicalInto opn ring pid (replicate LogicalPageSize 0)"

text \<open>\<open>WriteLogical\<close> finalises the caller's buffer in place; the buffer comes back with the
  result.\<close>

definition WriteLogical :: "sealer \<Rightarrow> DEK res \<Rightarrow> keyring \<Rightarrow> PageID \<Rightarrow> bytes \<Rightarrow> FManager \<Rightarrow> (FManager \<times> bytes \<times> unit res) option" where
  "WriteLogical seal cur ring pid logical m = (case UserData pid of
      Some err \<Rightarrow> Some (m, logical, Inl err)
    | None \<Rightarrow>
        if length logical \<noteq> LogicalPageSize
        then Some (m, logical, Inl (New InvalidArgument ''file.WriteLogical'' ''logical page has wrong size''))
        else do {
          i \<leftarrow> IDOf logical;
          if i \<noteq> pid then Some (m, logical, Inl (New Corruption ''file.WriteLogical'' ''page id mismatch''))
          else do {
            logical \<leftarrow> FinalizeBuf logical;
            (m, r) \<leftarrow> pbind (pgo (Some cur)) (\<lambda>dek.
              pbind (nextGenerationLocked ring) (\<lambda>generation.
              pbind (pget (\<lambda>m. dopen (fdisk m))) (\<lambda>f.
                if \<not> f then pfail (New IO ''file.WriteLogical'' ''file is closed'')
                else pbind (pgo (SealPageInto seal (Some dek) pid generation logical [])) (\<lambda>physical.
                  onDisk (WriteFullAt physical pid))))) m;
            Some (m, logical, r)
          }
        })"

definition AllocState :: "FManager \<Rightarrow> PageID \<times> PageID \<times> u64" where
  "AllocState m = (NextPageID (sb m), FreeListHead (sb m), FreeCount (sb m))"

definition SetAllocStateMem :: "PageID \<Rightarrow> PageID \<Rightarrow> u64 \<Rightarrow> FManager \<Rightarrow> FManager" where
  "SetAllocStateMem nxt freeHead freeCnt m =
     m\<lparr>sb := (sb m)\<lparr>NextPageID := nxt, FreeListHead := freeHead, FreeCount := freeCnt\<rparr>\<rparr>"

definition SetAllocState :: "keyring \<Rightarrow> PageID \<Rightarrow> PageID \<Rightarrow> u64 \<Rightarrow> (FManager, unit) proc" where
  "SetAllocState ring nxt freeHead freeCnt =
     pbind (pmodify (SetAllocStateMem nxt freeHead freeCnt)) (\<lambda>_. writeSuperblockLocked ring True)"

definition PrimaryTree :: "FManager \<Rightarrow> PageID \<times> u16" where
  "PrimaryTree m = (PrimaryRoot (sb m), PrimaryHeight (sb m))"

definition SetPrimaryTreeMem :: "PageID \<Rightarrow> u16 \<Rightarrow> (FManager, unit) proc" where
  "SetPrimaryTreeMem root height =
     pbind (pget (\<lambda>m. NextPageID (sb m))) (\<lambda>nxt.
     pbind (pgo (Some (validatePrimaryTree root height nxt))) (\<lambda>_.
     pmodify (\<lambda>m. m\<lparr>sb := (sb m)\<lparr>PrimaryRoot := root, PrimaryHeight := height\<rparr>\<rparr>)))"

definition SetPrimaryTree :: "keyring \<Rightarrow> PageID \<Rightarrow> u16 \<Rightarrow> (FManager, unit) proc" where
  "SetPrimaryTree ring root height =
     pbind (SetPrimaryTreeMem root height) (\<lambda>_. writeSuperblockLocked ring True)"

definition SetCheckpoint :: "keyring \<Rightarrow> LSN \<Rightarrow> LSN \<Rightarrow> (FManager, unit) proc" where
  "SetCheckpoint ring cp redo =
     pbind (pmodify (\<lambda>m. m\<lparr>sb := (sb m)\<lparr>CheckpointLSN := cp, RedoLSN := redo\<rparr>\<rparr>)) (\<lambda>_. writeSuperblockLocked ring True)"

definition FileClose :: "(FManager, unit) proc" where
  "FileClose = pbind (pget (\<lambda>m. dopen (fdisk m))) (\<lambda>f.
     if \<not> f then pret ()
     else ptry (onDisk Sync) (\<lambda>r.
       pbind (pmodify (\<lambda>m. m\<lparr>fdisk := (fdisk m)\<lparr>dopen := False\<rparr>\<rparr>)) (\<lambda>_. pgo (Some r))))"

definition CrashClose :: "FManager \<Rightarrow> FManager" where
  "CrashClose m = m\<lparr>fdisk := (fdisk m)\<lparr>dopen := False\<rparr>\<rparr>"

section \<open>Re-encryption\<close>

definition zeroPage :: "bytes \<Rightarrow> bool" where
  "zeroPage b \<longleftrightarrow> list_all (\<lambda>v. v = 0) b"

definition reencryptPage :: "sealer \<Rightarrow> opener \<Rightarrow> DEK \<Rightarrow> keyring \<Rightarrow> PageID \<Rightarrow> (FManager, unit) proc" where
  "reencryptPage seal opn dek ring pid =
     pbind (onDisk (ReadFullAt pid)) (\<lambda>raw.
     if zeroPage raw then pret ()
     else pbind (pgo (OpenPage opn (Some ring) pid raw)) (\<lambda>logical.
       pbind (nextGenerationLocked ring) (\<lambda>generation.
       pbind (pgo (SealPage seal (Some dek) pid generation logical)) (\<lambda>physical.
       onDisk (WriteFullAt physical pid)))))"

fun reencryptLoop :: "sealer \<Rightarrow> opener \<Rightarrow> DEK \<Rightarrow> keyring \<Rightarrow> nat list \<Rightarrow> (FManager, unit) proc" where
  "reencryptLoop seal opn dek ring [] = pret ()"
| "reencryptLoop seal opn dek ring (i # is) =
     pbind (reencryptPage seal opn dek ring (word_of_nat i)) (\<lambda>_. reencryptLoop seal opn dek ring is)"

definition Reencrypt :: "sealer \<Rightarrow> opener \<Rightarrow> DEK res \<Rightarrow> keyring \<Rightarrow> (FManager, unit) proc" where
  "Reencrypt seal opn cur ring =
     pbind (pgo (Some cur)) (\<lambda>dek.
     pbind (pget (\<lambda>m. NextPageID (sb m))) (\<lambda>nxt.
     pbind (reencryptLoop seal opn dek ring [1..<unat nxt]) (\<lambda>_.
     pbind (pmodify (\<lambda>m. m\<lparr>sb := (sb m)\<lparr>sbKeyVersion := dVersion dek\<rparr>\<rparr>)) (\<lambda>_.
     writeSuperblockLocked ring True))))"

end
