(* ===== verification/Allocator.thy ===== *)
theory Allocator
  imports FileMgr
begin

text \<open>
  The page allocator of \<open>internal/storage/allocator/allocator.go\<close>: page numbers from a free
  list or from the high-water mark, a free list persisted in a chain of metadata pages, and the
  mirror of its counters in the superblock. The allocator holds the file manager it writes to.
\<close>

abbreviation (input) idsPerMetaPage :: nat where "idsPerMetaPage \<equiv> 1024"

record Alloc =
  afile :: FManager
  anext :: PageID
  free :: "PageID list"
  fset :: "PageID set"
  meta :: "PageID list"
  dirty :: bool
  capPages :: PageID

record AState =
  stNext :: PageID
  stFree :: "PageID list"
  stMetadata :: "PageID list"

definition onFile :: "(FManager, 'a) proc \<Rightarrow> (Alloc, 'a) proc" where
  "onFile p a = (case p (afile a) of None \<Rightarrow> None | Some (m, r) \<Rightarrow> Some (a\<lparr>afile := m\<rparr>, r))"

definition SetCapPages :: "u64 \<Rightarrow> Alloc \<Rightarrow> Alloc" where
  "SetCapPages n a = a\<lparr>capPages := n\<rparr>"

definition freeHeadLocked :: "Alloc \<Rightarrow> PageID" where
  "freeHeadLocked a = (if length (free a) = 0 \<or> length (meta a) = 0 then 0 else meta a ! 0)"

definition mirror :: "Alloc \<Rightarrow> Alloc" where
  "mirror a = a\<lparr>afile := SetAllocStateMem (anext a) (freeHeadLocked a) (word_of_nat (length (free a))) (afile a)\<rparr>"

text \<open>Preallocation extends the file with zero bytes up to the given page; its error is ignored.\<close>

definition EnsureCapacity :: "u64 \<Rightarrow> PageID \<Rightarrow> FManager \<Rightarrow> FManager" where
  "EnsureCapacity ahead nxt m =
     (if \<not> dopen (fdisk m) then m
      else m\<lparr>fdisk := (fdisk m)\<lparr>dpages := (\<lambda>i. if dpages (fdisk m) i = None \<and> i < nxt + ahead
          then Some (replicate PhysicalPageSize 0) else dpages (fdisk m) i)\<rparr>\<rparr>)"

definition AllocPage :: "u64 \<Rightarrow> (Alloc, PageID) proc" where
  "AllocPage ahead a =
     (if length (free a) > 0 then
        let pid = last (free a);
            a = a\<lparr>free := butlast (free a), fset := fset a - {pid}, dirty := True\<rparr>
        in Some (mirror a, Inr pid)
      else if capPages a \<noteq> 0 \<and> anext a \<ge> capPages a
      then Some (a, Inl (New Exhausted ''allocator.Alloc'' ''storage cap exceeded''))
      else let pid = anext a in (case UserData pid of
          Some err \<Rightarrow> Some (a, Inl err)
        | None \<Rightarrow>
            let a = a\<lparr>anext := anext a + 1\<rparr>;
                a = (if pid = FirstAllocPageID \<or> pid mod 1024 = 0 then a\<lparr>afile := EnsureCapacity ahead (anext a) (afile a)\<rparr> else a);
                a = a\<lparr>dirty := True\<rparr>
            in Some (mirror a, Inr pid)))"

definition Free :: "PageID \<Rightarrow> (Alloc, unit) proc" where
  "Free pid a = (case UserData pid of
      Some err \<Rightarrow> Some (a, Inl err)
    | None \<Rightarrow>
        if pid \<ge> anext a then Some (a, Inl (New InvalidArgument ''allocator.Free'' ''page id was never allocated''))
        else if pid \<in> fset a then Some (a, Inl (New InvalidArgument ''allocator.Free'' ''page id is already free''))
        else if List.member (meta a) pid
        then Some (a, Inl (New InvalidArgument ''allocator.Free'' ''cannot free allocator metadata page''))
        else Some (mirror (a\<lparr>free := free a @ [pid], fset := insert pid (fset a), dirty := True\<rparr>), Inr ()))"

definition AllocStateOf :: "Alloc \<Rightarrow> AState" where
  "AllocStateOf a = \<lparr>stNext = anext a, stFree = free a, stMetadata = meta a\<rparr>"

section \<open>Persisting\<close>

fun insertIDs :: "page \<Rightarrow> PageID list \<Rightarrow> page go" where
  "insertIDs p [] = Some (Inr p)"
| "insertIDs p (i # is) = do {
     rcd \<leftarrow> PutU64 (replicate 8 0) 0 i;
     (p, r) \<leftarrow> pageInsert p rcd;
     case r of Inl err \<Rightarrow> Some (Inl err) | Inr _ \<Rightarrow> insertIDs p is
   }"

text \<open>The page of metadata slot \<open>i\<close>: at most 1024 free ids and the link to the next page.\<close>

definition metaPage :: "PageID \<Rightarrow> PageID list \<Rightarrow> PageID \<Rightarrow> page go" where
  "metaPage pid ids nxt = do {
     p \<leftarrow> pageNew pid PageTypeFreeList;
     gbind (insertIDs p ids) (\<lambda>p. map_option Inr (SetTxnMeta p nxt))
   }"

fun persistLoop :: "sealer \<Rightarrow> DEK res \<Rightarrow> keyring \<Rightarrow> PageID list \<Rightarrow> PageID list \<Rightarrow> (FManager, unit) proc" where
  "persistLoop seal cur ring [] ids = pret ()"
| "persistLoop seal cur ring (pid # pids) ids =
     pbind (pgo (metaPage pid (take idsPerMetaPage ids) (case pids of [] \<Rightarrow> 0 | q # _ \<Rightarrow> q))) (\<lambda>p.
     pbind (\<lambda>m. case WriteLogical seal cur ring pid p m of None \<Rightarrow> None | Some (m, _, r) \<Rightarrow> Some (m, r)) (\<lambda>_.
     persistLoop seal cur ring pids (drop idsPerMetaPage ids)))"

definition metaNeed :: "Alloc \<Rightarrow> nat" where
  "metaNeed a =
     (let need = (if length (free a) > 0 then (length (free a) + idsPerMetaPage - 1) div idsPerMetaPage else 0);
          need = (if need = 0 \<and> length (meta a) > 0 then 1 else need)
      in if need < length (meta a) then length (meta a) else need)"

definition persist :: "sealer \<Rightarrow> DEK res \<Rightarrow> keyring \<Rightarrow> (Alloc, unit) proc" where
  "persist seal cur ring =
     pbind (pmodify (\<lambda>a. let k = metaNeed a - length (meta a) in
       a\<lparr>meta := meta a @ map (\<lambda>i. anext a + word_of_nat i) [0..<k], anext := anext a + word_of_nat k\<rparr>)) (\<lambda>_.
     pbind (pget (\<lambda>a. (anext a, meta a, free a))) (\<lambda>(nxt, mt, fr).
     pbind (onFile (persistLoop seal cur ring mt fr)) (\<lambda>_.
     onFile (SetAllocState ring nxt (case mt of [] \<Rightarrow> 0 | h # _ \<Rightarrow> h) (word_of_nat (length fr))))))"

definition AllocFlush :: "sealer \<Rightarrow> DEK res \<Rightarrow> keyring \<Rightarrow> (Alloc, unit) proc" where
  "AllocFlush seal cur ring =
     pbind (pget dirty) (\<lambda>d.
     if \<not> d then pret ()
     else pbind (persist seal cur ring) (\<lambda>_. pmodify (\<lambda>a. a\<lparr>dirty := False\<rparr>)))"

section \<open>Loading\<close>

fun readIDs :: "page \<Rightarrow> PageID \<Rightarrow> nat list \<Rightarrow> PageID list \<Rightarrow> PageID set \<Rightarrow> (PageID list \<times> PageID set) go" where
  "readIDs p nxt [] fr st = Some (Inr (fr, st))"
| "readIDs p nxt (i # is) fr st = do {
     r \<leftarrow> pageGet p (word_of_nat i);
     case r of
       Inl err \<Rightarrow> if HasCode err NotFound then readIDs p nxt is fr st else Some (Inl err)
     | Inr rcd \<Rightarrow>
         if length rcd \<noteq> 8 then Some (Inl (New Corruption ''allocator.Open'' ''freelist record has wrong size''))
         else do {
           pid \<leftarrow> U64 rcd 0;
           case UserData pid of
             Some err \<Rightarrow> Some (Inl err)
           | None \<Rightarrow>
               if pid \<ge> nxt
               then Some (Inl (New Corruption ''allocator.Open'' ''free page id is beyond the allocation high-water mark''))
               else if pid \<in> st then Some (Inl (New Corruption ''allocator.Open'' ''duplicate free page id''))
               else readIDs p nxt is (fr @ [pid]) (insert pid st)
         }
   }"

definition readMetaPage :: "page \<Rightarrow> PageID \<Rightarrow> PageID list \<Rightarrow> PageID set \<Rightarrow> (PageID list \<times> PageID set \<times> PageID) go" where
  "readMetaPage p nxt fr st = do {
     t \<leftarrow> pageType p;
     if t \<noteq> PageTypeFreeList then Some (Inl (New Corruption ''allocator.Open'' ''freelist page has wrong type''))
     else do {
       n \<leftarrow> SlotCount p;
       gbind (readIDs p nxt [0..<n] fr st) (\<lambda>(fr, st). do { cur \<leftarrow> TxnMeta p; Some (Inr (fr, st, cur)) })
     }
   }"

lemma card_unseen: "cur \<notin> seen \<Longrightarrow> card (UNIV - insert cur seen) < card (UNIV - (seen :: PageID set))"
  by (rule psubset_card_mono) auto

text \<open>The walk of the metadata chain ends because a page seen twice is an error.\<close>

function walkChain :: "opener \<Rightarrow> keyring \<Rightarrow> PageID \<Rightarrow> PageID \<Rightarrow> PageID set \<Rightarrow> PageID list \<Rightarrow> PageID list \<Rightarrow> PageID set \<Rightarrow>
    (FManager, PageID list \<times> PageID list \<times> PageID set) proc" where
  "walkChain opn ring nxt cur seen mt fr st =
     (if cur = 0 then pret (mt, fr, st)
      else if cur \<in> seen then pfail (New Corruption ''allocator.Open'' ''freelist cycle'')
      else pbind (ReadLogical opn ring cur) (\<lambda>raw.
        pbind (pgo (ParseID raw cur)) (\<lambda>p.
        pbind (pgo (readMetaPage p nxt fr st)) (\<lambda>(fr, st, cur').
        walkChain opn ring nxt cur' (insert cur seen) (mt @ [cur]) fr st))))"
  by pat_completeness auto

termination walkChain
  by (relation "measure (\<lambda>(_, _, _, _, seen, _, _, _). card (UNIV - seen))", simp)
    (unfold in_measure split_conv, erule card_unseen)

declare walkChain.simps [simp del]

definition reloadLocked :: "opener \<Rightarrow> keyring \<Rightarrow> (Alloc, unit) proc" where
  "reloadLocked opn ring =
     pbind (pget (\<lambda>a. AllocState (afile a))) (\<lambda>(nxt, head, cnt).
     if head = 0 \<and> cnt \<noteq> 0 then pfail (New Corruption ''allocator.Open'' ''freelist count without head'')
     else pbind (onFile (walkChain opn ring nxt head {} [] [] {})) (\<lambda>(mt, fr, st).
       if list_ex (\<lambda>i. i \<in> st) mt then pfail (New Corruption ''allocator.Open'' ''freelist metadata page is listed as free'')
       else if word_of_nat (length fr) \<noteq> cnt then pfail (New Corruption ''allocator.Open'' ''freelist count mismatch'')
       else pmodify (\<lambda>a. a\<lparr>anext := nxt, free := fr, meta := mt, fset := st, dirty := False\<rparr>)))"

definition AllocOpen :: "opener \<Rightarrow> keyring \<Rightarrow> FManager \<Rightarrow> (Alloc \<times> unit res) option" where
  "AllocOpen opn ring f = reloadLocked opn ring
     \<lparr>afile = f, anext = 0, free = [], fset = {}, meta = [], dirty = False, capPages = 0\<rparr>"

end
