(* ===== verification/Engine.thy ===== *)
theory Engine
  imports Allocator
begin

text \<open>
  The part of \<open>internal/storage/engine.go\<close> the B+tree runs on: pinning, new and dropped pages,
  the primary tree and crash injection (\<open>internal/wal/crash.go\<close>). \<open>epages\<close> is the page every
  pin yields, from the buffer pool or else from the data file (\<open>filed\<close>). A handle is the
  number of its page: the frame is shared, so a change through one is seen by the next pin
  whether or not the handle is released dirty; dirtiness only drives the write-back.
\<close>

datatype Point =
    PointNone | PointBeforeWALWrite | PointAfterWALWriteBeforeSync | PointBeforeCommitRecord
  | PointAfterCommitRecordBeforeSync | PointDuringSplit | PointDuringMerge | PointBeforeCheckpoint
  | PointAfterCheckpointRecordBeforeControl | PointDuringPageFlush | PointBeforeRotation
  | PointAfterRotationBeforeSync | PointBeforeRollback | PointAfterRollback | PointDuringInsert
  | PointDuringUpdate | PointDuringDelete | PointDuringIndexBuild | PointDuringPageReclaim
  | PointAfterPageReclaimBeforeIntentClear | PointAfterCommitRecordHeld
  | PointAfterHoldReleaseDiscardBeforeAbortAppend

record Injector =
  point :: Point
  fired :: bool

record Engine =
  epages :: "PageID \<Rightarrow> page res"
  filed :: "PageID \<Rightarrow> page res"
  cached :: "PageID set"
  ealloc :: Alloc
  capacityAhead :: u64
  crash :: "Injector option"
  treeLog :: "(PageID \<times> u16) list"

definition ErrCrash :: nerr where
  "ErrCrash = New Unavailable ''wal.crash'' ''injected crash''"

definition Arm :: "Point \<Rightarrow> Injector \<Rightarrow> Injector" where
  "Arm p i = i\<lparr>point := p, fired := False\<rparr>"

definition Hit :: "Point \<Rightarrow> Injector option \<Rightarrow> Injector option \<times> unit res" where
  "Hit p ij = (case ij of
      None \<Rightarrow> (ij, Inr ())
    | Some i \<Rightarrow>
        if p = PointNone then (ij, Inr ())
        else if point i = p \<and> \<not> fired i then (Some (i\<lparr>fired := True\<rparr>), Inl ErrCrash)
        else (ij, Inr ()))"

definition CrashAt :: "Point \<Rightarrow> (Engine, unit) proc" where
  "CrashAt p e = (case Hit p (crash e) of (ij, r) \<Rightarrow> Some (e\<lparr>crash := ij\<rparr>, r))"

definition onAlloc :: "(Alloc, 'a) proc \<Rightarrow> (Engine, 'a) proc" where
  "onAlloc p e = (case p (ealloc e) of None \<Rightarrow> None | Some (a, r) \<Rightarrow> Some (e\<lparr>ealloc := a\<rparr>, r))"

text \<open>Frames are never short in the model: eviction is the subject of the buffer pool.\<close>

definition InstallNew :: "PageID \<Rightarrow> u16 \<Rightarrow> (Engine, PageID) proc" where
  "InstallNew pid typ e = (case UserData pid of
      Some err \<Rightarrow> Some (e, Inl err)
    | None \<Rightarrow>
        if pid \<in> cached e
        then Some (e, Inl (New Corruption ''buffer.InstallNew''
          ''page already cached: the allocator issued a page that is in use; run nextsql check-pages''))
        else do {
          p \<leftarrow> pageNew pid typ;
          Some (e\<lparr>epages := (epages e)(pid := Inr p), cached := insert pid (cached e)\<rparr>, Inr pid)
        })"

definition NewPage :: "u16 \<Rightarrow> (Engine, PageID) proc" where
  "NewPage typ =
     (if \<not> Known typ \<or> typ = PageTypeSuperblock then pfail (New InvalidArgument ''storage.NewPage'' ''invalid page type'')
      else pbind (pget capacityAhead) (\<lambda>ahead.
        pbind (onAlloc (AllocPage ahead)) (\<lambda>pid.
        ptry (InstallNew pid typ) (\<lambda>r. case r of
            Inr h \<Rightarrow> pret h
          | Inl err \<Rightarrow>
              if \<not> HasCode err Corruption then ptry (onAlloc (Free pid)) (\<lambda>_. pfail err) else pfail err))))"

definition EngDrop :: "PageID \<Rightarrow> (Engine, unit) proc" where
  "EngDrop pid =
     pbind (pmodify (\<lambda>e. if pid \<in> cached e
       then e\<lparr>epages := (epages e)(pid := filed e pid), cached := cached e - {pid}\<rparr> else e)) (\<lambda>_.
     onAlloc (Free pid))"

definition EngPin :: "PageID \<Rightarrow> (Engine, PageID) proc" where
  "EngPin pid e = (case UserData pid of
      Some err \<Rightarrow> Some (e, Inl err)
    | None \<Rightarrow> (case epages e pid of
          Inl err \<Rightarrow> Some (e, Inl err)
        | Inr _ \<Rightarrow> Some (e\<lparr>cached := insert pid (cached e)\<rparr>, Inr pid)))"

text \<open>\<open>NoteTree\<close> inside a write transaction: a tree record in the log, then the superblock in
  memory.\<close>

definition NoteTree :: "PageID \<Rightarrow> u16 \<Rightarrow> (Engine, unit) proc" where
  "NoteTree root height =
     pbind (pmodify (\<lambda>e. e\<lparr>treeLog := treeLog e @ [(root, height)]\<rparr>)) (\<lambda>_.
     onAlloc (onFile (SetPrimaryTreeMem root height)))"

definition EngPrimaryTree :: "Engine \<Rightarrow> PageID \<times> u16" where
  "EngPrimaryTree e = PrimaryTree (afile (ealloc e))"

definition SetStorageCapBytes :: "u64 \<Rightarrow> Engine \<Rightarrow> Engine" where
  "SetStorageCapBytes capBytes e =
     (let pages = (if capBytes > 0 then (let n = capBytes div 16448 in if n = 0 then 1 else n) else 0)
      in e\<lparr>ealloc := SetCapPages pages (ealloc e)\<rparr>)"

definition StorageCapBytes :: "Engine \<Rightarrow> u64" where
  "StorageCapBytes e = capPages (ealloc e) * 16448"

text \<open>The pinned page, and an operation on it.\<close>

definition hpage :: "PageID \<Rightarrow> (Engine, page) proc" where
  "hpage h e = (case epages e h of Inl _ \<Rightarrow> None | Inr p \<Rightarrow> Some (e, Inr p))"

definition hdo :: "PageID \<Rightarrow> (page \<Rightarrow> (page \<times> 'a res) option) \<Rightarrow> (Engine, 'a) proc" where
  "hdo h f e = (case epages e h of Inl _ \<Rightarrow> None
    | Inr p \<Rightarrow> (case f p of None \<Rightarrow> None | Some (p', r) \<Rightarrow> Some (e\<lparr>epages := (epages e)(h := Inr p')\<rparr>, r)))"

end
