(* ===== verification/BNode.thy ===== *)
theory BNode
  imports Proc PageValid
begin

text \<open>
  B+tree nodes on slotted pages, \<open>internal/storage/btree/node.go\<close>. Slot 0 of a node page is
  the node header; every other live slot is one record, in no particular order. A leaf record
  is a key and a value, an internal record a separator key and a child page. The callback of
  \<open>forEachSlot\<close> becomes a function on the variables it captures.
\<close>

abbreviation (input) headerSize :: nat where "headerSize \<equiv> 28"
abbreviation (input) MaxKeySize :: nat where "MaxKeySize \<equiv> 2048"

definition maxPayload :: nat where
  "maxPayload = LogicalPageSize - PageHeaderSize - headerSize - 2 * SlotSize"

definition maxLeafRecord :: nat where
  "maxLeafRecord = (LogicalPageSize - PageHeaderSize - headerSize - 3 * SlotSize) div 2"

definition MaxTxnValueSize :: "int \<Rightarrow> int" where
  "MaxTxnValueSize keyLen = int maxLeafRecord - 4 - keyLen - 30"

record nodeHeader =
  nhPrev :: PageID
  nhNext :: PageID
  nhLeftmost :: PageID

text \<open>Entries are pairs: \<open>leafEntry\<close> of key and value, \<open>internalEntry\<close> of key and child.\<close>

type_synonym leafEntry = "bytes \<times> bytes"
type_synonym internalEntry = "bytes \<times> PageID"

section \<open>The node header\<close>

definition encodeHeader :: "nodeHeader \<Rightarrow> bytes option" where
  "encodeHeader h = do {
     buf \<leftarrow> putB (replicate headerSize 0) 0 1;
     buf \<leftarrow> PutU64 buf 4 (nhPrev h);
     buf \<leftarrow> PutU64 buf 12 (nhNext h);
     PutU64 buf 20 (nhLeftmost h)
   }"

definition decodeHeader :: "bytes \<Rightarrow> nodeHeader go" where
  "decodeHeader rec =
     (if length rec \<noteq> headerSize then Some (Inl (New Corruption ''btree.decodeHeader'' ''wrong header size''))
      else do {
        v \<leftarrow> getB rec 0;
        if v \<noteq> 1 then Some (Inl (New InvalidFormat ''btree.decodeHeader'' ''unsupported node header version''))
        else do {
          p \<leftarrow> U64 rec 4;
          n \<leftarrow> U64 rec 12;
          l \<leftarrow> U64 rec 20;
          Some (Inr \<lparr>nhPrev = p, nhNext = n, nhLeftmost = l\<rparr>)
        }
      })"

definition initNode :: "page \<Rightarrow> nodeHeader \<Rightarrow> (page \<times> unit res) option" where
  "initNode p h = do {
     n \<leftarrow> SlotCount p;
     if n \<noteq> 0 then Some (p, Inl (New Internal ''btree.initNode'' ''page already has slots''))
     else do {
       rec \<leftarrow> encodeHeader h;
       (p, r) \<leftarrow> pageInsert p rec;
       Some (p, case r of
          Inl err \<Rightarrow> Inl err
        | Inr sl \<Rightarrow> if sl \<noteq> 0 then Inl (New Internal ''btree.initNode'' ''node header is not slot 0'') else Inr ())
     }
   }"

definition readHeader :: "page \<Rightarrow> nodeHeader go" where
  "readHeader p = do {
     r \<leftarrow> GetView p 0;
     case r of
       Inl err \<Rightarrow> Some (Inl (Wrap Corruption ''btree.readHeader'' ''missing node header'' err))
     | Inr rec \<Rightarrow> decodeHeader rec
   }"

definition writeHeader :: "page \<Rightarrow> nodeHeader \<Rightarrow> (page \<times> unit res) option" where
  "writeHeader p h = do { rec \<leftarrow> encodeHeader h; pageUpdate p 0 rec }"

section \<open>Records\<close>

definition checkKey :: "bytes \<Rightarrow> unit res" where
  "checkKey key =
     (if length key = 0 then Inl (New InvalidArgument ''btree.checkKey'' ''key must not be empty'')
      else if length key > MaxKeySize then Inl (New InvalidArgument ''btree.checkKey'' ''key exceeds maximum size'')
      else Inr ())"

text \<open>\<open>buf\<close> is the array handed in for reuse; its old contents are overwritten.\<close>

definition encodeLeafInto :: "bytes \<Rightarrow> bytes \<Rightarrow> bytes \<Rightarrow> bytes go" where
  "encodeLeafInto buf key value = gbind (Some (checkKey key)) (\<lambda>_.
     let n = 4 + length key + length value in
     if n > maxLeafRecord
     then Some (Inl (New InvalidArgument ''btree.encodeLeaf'' ''record exceeds page capacity''))
     else do {
       let buf = (if length buf < n then replicate n 0 else take n buf);
       buf \<leftarrow> PutU16 buf 0 (word_of_nat (length key));
       buf \<leftarrow> PutU16 buf 2 (word_of_nat (length value));
       buf \<leftarrow> copyAt buf 4 key;
       buf \<leftarrow> copyAt buf (4 + length key) value;
       Some (Inr buf)
     })"

definition encodeLeaf :: "bytes \<Rightarrow> bytes \<Rightarrow> bytes go" where
  "encodeLeaf key value = encodeLeafInto [] key value"

definition leafLenErr :: "bytes \<Rightarrow> nat \<Rightarrow> nat \<Rightarrow> nerr" where
  "leafLenErr rec klen vlen =
     New Corruption ''btree.decodeLeaf''
       (''invalid leaf record length rec='' @ fmtD (length rec) @ '' klen='' @ fmtD klen @ '' vlen='' @ fmtD vlen @
        '' head='' @ fmtX (take 16 rec))"

definition decodeLeaf :: "bytes \<Rightarrow> leafEntry go" where
  "decodeLeaf rec =
     (if length rec < 4 then Some (Inl (New Corruption ''btree.decodeLeaf'' ''truncated leaf record''))
      else do {
        kl \<leftarrow> U16 rec 0;
        vl \<leftarrow> U16 rec 2;
        let klen = unat kl;
        let vlen = unat vl;
        if klen < 1 \<or> 4 + klen + vlen \<noteq> length rec then Some (Inl (leafLenErr rec klen vlen))
        else do {
          k \<leftarrow> goSlice rec 4 (4 + klen);
          v \<leftarrow> goSlice rec (4 + klen) (length rec);
          Some (Inr (k, v))
        }
      })"

definition encodeInternal :: "bytes \<Rightarrow> PageID \<Rightarrow> bytes go" where
  "encodeInternal key child = gbind (Some (checkKey key)) (\<lambda>_.
     case UserData child of
       Some err \<Rightarrow> Some (Inl err)
     | None \<Rightarrow> do {
         buf \<leftarrow> PutU16 (replicate (2 + length key + 8) 0) 0 (word_of_nat (length key));
         buf \<leftarrow> copyAt buf 2 key;
         buf \<leftarrow> PutU64 buf (2 + length key) child;
         if length buf > maxPayload
         then Some (Inl (New InvalidArgument ''btree.encodeInternal'' ''separator exceeds page capacity''))
         else Some (Inr buf)
       })"

definition decodeInternal :: "bytes \<Rightarrow> internalEntry go" where
  "decodeInternal rec =
     (if length rec < 2 + 8 then Some (Inl (New Corruption ''btree.decodeInternal'' ''truncated internal record''))
      else do {
        kl \<leftarrow> U16 rec 0;
        let klen = unat kl;
        if klen < 1 \<or> 2 + klen + 8 \<noteq> length rec
        then Some (Inl (New Corruption ''btree.decodeInternal'' ''invalid internal record length''))
        else do {
          child \<leftarrow> U64 rec (2 + klen);
          case UserData child of
            Some err \<Rightarrow> Some (Inl (Wrap Corruption ''btree.decodeInternal'' ''child page id'' err))
          | None \<Rightarrow> do { k \<leftarrow> goSlice rec 2 (2 + klen); Some (Inr (k, child)) }
        }
      })"

section \<open>Walking the slots\<close>

fun forEachLoop :: "page \<Rightarrow> (u16 \<Rightarrow> bytes \<Rightarrow> 's \<Rightarrow> 's go) \<Rightarrow> nat list \<Rightarrow> 's \<Rightarrow> 's go" where
  "forEachLoop p fn [] s = Some (Inr s)"
| "forEachLoop p fn (i # is) s = do {
     r \<leftarrow> GetView p (word_of_nat i);
     case r of
       Inl err \<Rightarrow> if HasCode err NotFound then forEachLoop p fn is s else Some (Inl err)
     | Inr rec \<Rightarrow> gbind (fn (word_of_nat i) rec s) (\<lambda>s. forEachLoop p fn is s)
   }"

definition forEachSlot :: "page \<Rightarrow> (u16 \<Rightarrow> bytes \<Rightarrow> 's \<Rightarrow> 's go) \<Rightarrow> 's \<Rightarrow> 's go" where
  "forEachSlot p fn s = do { n \<leftarrow> SlotCount p; forEachLoop p fn [1..<n] s }"

definition maxStep :: "bytes \<Rightarrow> bytes option \<Rightarrow> bytes option" where
  "maxStep k m = (case m of None \<Rightarrow> Some k | Some m' \<Rightarrow> if compare k m' > 0 then Some k else m)"

definition maxLeafKey :: "page \<Rightarrow> bytes option go" where
  "maxLeafKey p = forEachSlot p (\<lambda>_ rec m. gbind (decodeLeaf rec) (\<lambda>(k, _). Some (Inr (maxStep k m)))) None"

definition maxInternalKey :: "page \<Rightarrow> bytes option go" where
  "maxInternalKey p = forEachSlot p (\<lambda>_ rec m. gbind (decodeInternal rec) (\<lambda>(k, _). Some (Inr (maxStep k m)))) None"

definition sortLeaves :: "leafEntry list \<Rightarrow> leafEntry list" where
  "sortLeaves ents = insertionSort (\<lambda>a b. compare (fst a) (fst b) < 0) ents"

definition sortInternals :: "internalEntry list \<Rightarrow> internalEntry list" where
  "sortInternals ents = insertionSort (\<lambda>a b. compare (fst a) (fst b) < 0) ents"

definition leafViewErr :: "page \<Rightarrow> u16 \<Rightarrow> nerr \<Rightarrow> leafEntry list go" where
  "leafViewErr p sl err = do {
     i \<leftarrow> pageID p;
     t \<leftarrow> pageType p;
     n \<leftarrow> SlotCount p;
     Some (Inl (Wrap Corruption ''btree.collectLeafViews''
       (''page='' @ fmtD (unat i) @ '' type='' @ fmtD (unat t) @ '' slots='' @ fmtD n @ '' slot='' @ fmtD (unat sl)) err))
   }"

definition collectLeafViews :: "page \<Rightarrow> leafEntry list go" where
  "collectLeafViews p = gbind (forEachSlot p (\<lambda>sl rec ents. do {
       r \<leftarrow> decodeLeaf rec;
       case r of
         Inl err \<Rightarrow> leafViewErr p sl err
       | Inr kv \<Rightarrow> Some (Inr (ents @ [kv]))
     }) []) (\<lambda>ents. Some (Inr (sortLeaves ents)))"

text \<open>\<open>collectLeaves\<close> copies the entries out of the page.\<close>

definition collectLeaves :: "page \<Rightarrow> leafEntry list go" where
  "collectLeaves p = collectLeafViews p"

definition collectInternals :: "page \<Rightarrow> internalEntry list go" where
  "collectInternals p = gbind (forEachSlot p (\<lambda>_ rec ents.
       gbind (decodeInternal rec) (\<lambda>kc. Some (Inr (ents @ [kc])))) [])
     (\<lambda>ents. Some (Inr (sortInternals ents)))"

fun findLeafFrom :: "nat \<Rightarrow> leafEntry list \<Rightarrow> bytes \<Rightarrow> nat \<times> bool" where
  "findLeafFrom i [] key = (i, False)"
| "findLeafFrom i (e # es) key =
     (let c = compare (fst e) key in
      if c = 0 then (i, True) else if c > 0 then (i, False) else findLeafFrom (Suc i) es key)"

definition findLeaf :: "leafEntry list \<Rightarrow> bytes \<Rightarrow> nat \<times> bool" where
  "findLeaf ents key = findLeafFrom 0 ents key"

text \<open>The last matching slot wins, with its value; \<open>None\<close> stands for \<open>found = false\<close>.\<close>

definition findLeafSlot :: "page \<Rightarrow> bytes \<Rightarrow> (u16 \<times> bytes) option go" where
  "findLeafSlot p key = forEachSlot p (\<lambda>s rec f. gbind (decodeLeaf rec) (\<lambda>(k, v).
     Some (Inr (if compare k key = 0 then Some (s, v) else f)))) None"

fun childLoop :: "PageID \<Rightarrow> internalEntry list \<Rightarrow> bytes \<Rightarrow> PageID" where
  "childLoop child [] key = child"
| "childLoop child (e # es) key = (if compare key (fst e) \<ge> 0 then childLoop (snd e) es key else child)"

definition childForKey :: "nodeHeader \<Rightarrow> internalEntry list \<Rightarrow> bytes \<Rightarrow> PageID" where
  "childForKey hdr ents key = childLoop (nhLeftmost hdr) ents key"

section \<open>Rebuilding pages\<close>

fun insertRecs :: "page \<Rightarrow> ('e \<Rightarrow> bytes go) \<Rightarrow> 'e list \<Rightarrow> page go" where
  "insertRecs p enc [] = Some (Inr p)"
| "insertRecs p enc (e # es) = gbind (enc e) (\<lambda>rec. do {
     (p, r) \<leftarrow> pageInsert p rec;
     case r of Inl err \<Rightarrow> Some (Inl err) | Inr _ \<Rightarrow> insertRecs p enc es
   })"

definition rebuildLeaf :: "PageID \<Rightarrow> nodeHeader \<Rightarrow> leafEntry list \<Rightarrow> page go" where
  "rebuildLeaf pid hdr ents = do {
     p \<leftarrow> pageNew pid PageTypeBTreeLeaf;
     (p, r) \<leftarrow> initNode p hdr;
     case r of Inl err \<Rightarrow> Some (Inl err) | Inr _ \<Rightarrow> insertRecs p (\<lambda>(k, v). encodeLeaf k v) ents
   }"

definition rebuildInternal :: "PageID \<Rightarrow> nodeHeader \<Rightarrow> internalEntry list \<Rightarrow> page go" where
  "rebuildInternal pid hdr ents = do {
     p \<leftarrow> pageNew pid PageTypeBTreeInternal;
     (p, r) \<leftarrow> initNode p hdr;
     case r of Inl err \<Rightarrow> Some (Inl err) | Inr _ \<Rightarrow> insertRecs p (\<lambda>(k, c). encodeInternal k c) ents
   }"

definition overwrite :: "page \<Rightarrow> page \<Rightarrow> (page \<times> unit res) option" where
  "overwrite dst src = do {
     d \<leftarrow> pageID dst;
     s \<leftarrow> pageID src;
     if d \<noteq> s then Some (dst, Inl (New Internal ''btree.overwrite'' ''page id mismatch''))
     else do { r \<leftarrow> pageValidate src; Some (src, r) }
   }"

section \<open>Sizes\<close>

definition leafRecordSize :: "leafEntry \<Rightarrow> nat" where
  "leafRecordSize e = 4 + length (fst e) + length (snd e)"

definition leafPageBytes :: "leafEntry list \<Rightarrow> nat" where
  "leafPageBytes ents = PageHeaderSize + SlotSize * (1 + length ents) + headerSize + sum_list (map leafRecordSize ents)"

definition leafFits :: "leafEntry list \<Rightarrow> bool" where
  "leafFits ents \<longleftrightarrow> list_all (\<lambda>e. leafRecordSize e \<le> maxLeafRecord) ents \<and> leafPageBytes ents \<le> LogicalPageSize"

definition internalRecordSize :: "internalEntry \<Rightarrow> nat" where
  "internalRecordSize e = 2 + length (fst e) + 8"

definition internalPageBytes :: "internalEntry list \<Rightarrow> nat" where
  "internalPageBytes ents = PageHeaderSize + SlotSize * (1 + length ents) + headerSize + sum_list (map internalRecordSize ents)"

definition internalFits :: "nodeHeader \<Rightarrow> internalEntry list \<Rightarrow> bool" where
  "internalFits hdr ents \<longleftrightarrow>
     list_all (\<lambda>e. (case checkKey (fst e) of Inl _ \<Rightarrow> False | Inr _ \<Rightarrow> internalRecordSize e \<le> maxPayload)) ents \<and>
     internalPageBytes ents \<le> LogicalPageSize"

end
