(* ===== verification/BTree.thy ===== *)
theory BTree
  imports Engine BNode RowVersion
begin

text \<open>
  The clustered B+tree of \<open>internal/storage/btree\<close>: \<open>btree.go\<close>, \<open>meta.go\<close>,
  \<open>insert.go\<close>, \<open>insert_batch.go\<close>, \<open>update.go\<close> and the tree side of \<open>mvcc.go\<close>. The
  methods run under the tree lock, so each is one state function. A path is the list of page
  numbers from the root to a leaf.
\<close>

record Tree =
  eng :: Engine
  root :: PageID
  height :: int
  tmeta :: PageID
  hintRight :: PageID
  hintMax :: bytes
  hintParent :: PageID
  liveRows :: int
  liveKnown :: bool

definition onEng :: "(Engine, 'a) proc \<Rightarrow> (Tree, 'a) proc" where
  "onEng p t = (case p (eng t) of None \<Rightarrow> None | Some (e, r) \<Rightarrow> Some (t\<lparr>eng := e\<rparr>, r))"

definition pin :: "PageID \<Rightarrow> (Tree, PageID) proc" where
  "pin pid = onEng (EngPin pid)"

abbreviation pageOf :: "PageID \<Rightarrow> (Tree, page) proc" where
  "pageOf h \<equiv> onEng (hpage h)"

abbreviation pageDo :: "PageID \<Rightarrow> (page \<Rightarrow> (page \<times> 'a res) option) \<Rightarrow> (Tree, 'a) proc" where
  "pageDo h f \<equiv> onEng (hdo h f)"

text \<open>Reading something of the pinned page.\<close>

abbreviation pageRead :: "PageID \<Rightarrow> (page \<Rightarrow> 'a go) \<Rightarrow> (Tree, 'a) proc" where
  "pageRead h f \<equiv> pbind (pageOf h) (\<lambda>p. pgo (f p))"

definition expectType :: "page \<Rightarrow> u16 \<Rightarrow> unit go" where
  "expectType p want = do {
     t \<leftarrow> pageType p;
     if t \<noteq> want then Some (Inl (New Corruption ''btree.expectType'' ''unexpected page type'')) else Some (Inr ())
   }"

definition addLive :: "int \<Rightarrow> Tree \<Rightarrow> Tree" where
  "addLive n t = (if liveKnown t then t\<lparr>liveRows := liveRows t + n\<rparr> else t)"

section \<open>Metadata\<close>

definition treeMetaMagic :: bytes where "treeMetaMagic = [0x4E, 0x53, 0x54, 0x4D]"

abbreviation (input) treeMetaSize :: nat where "treeMetaSize \<equiv> 16"

definition encodeMeta :: "PageID \<Rightarrow> u16 \<Rightarrow> bytes option" where
  "encodeMeta rt ht = do {
     b \<leftarrow> copyRange (replicate treeMetaSize 0) 0 4 treeMetaMagic;
     b \<leftarrow> PutU16 b 4 1;
     b \<leftarrow> PutU64 b 6 rt;
     PutU16 b 14 ht
   }"

definition decodeMeta :: "bytes \<Rightarrow> (PageID \<times> u16) go" where
  "decodeMeta rec =
     (if length rec < treeMetaSize then Some (Inl (New InvalidFormat ''btree.decodeTreeMeta'' ''truncated tree meta''))
      else do {
        m \<leftarrow> goSlice rec 0 4;
        if m \<noteq> treeMetaMagic then Some (Inl (New InvalidFormat ''btree.decodeTreeMeta'' ''bad tree meta magic''))
        else do {
          v \<leftarrow> U16 rec 4;
          if v \<noteq> 1 then Some (Inl (New InvalidFormat ''btree.decodeTreeMeta'' ''unsupported tree meta version''))
          else do { rt \<leftarrow> U64 rec 6; ht \<leftarrow> U16 rec 14; Some (Inr (rt, ht)) }
        }
      })"

text \<open>Whether the metadata page already holds the record.\<close>

definition metaUnchanged :: "page \<Rightarrow> bytes \<Rightarrow> bool option" where
  "metaUnchanged p rec = do {
     n \<leftarrow> SlotCount p;
     if n > 0 then do { cur \<leftarrow> pageGet p 0; Some (cur = Inr rec) } else Some False
   }"

definition writeMeta :: "(Tree, unit) proc" where
  "writeMeta =
     pbind (pget (\<lambda>t. (tmeta t, root t, height t))) (\<lambda>(mt, rt, ht).
     pbind (pin mt) (\<lambda>h.
     pbind (pgo (map_option Inr (encodeMeta rt (word_of_int ht)))) (\<lambda>rec.
     pbind (pageRead h (\<lambda>p. map_option Inr (metaUnchanged p rec))) (\<lambda>same.
     if same then pret ()
     else pbind (pageRead h (\<lambda>p. map_option Inr (SlotCount p))) (\<lambda>n.
       if n = 0 then pbind (pageDo h (\<lambda>p. pageInsert p rec)) (\<lambda>_. pret ())
       else pageDo h (\<lambda>p. pageUpdate p 0 rec))))))"

definition readTreeMeta :: "PageID \<Rightarrow> (Engine, PageID \<times> u16) proc" where
  "readTreeMeta mt =
     pbind (EngPin mt) (\<lambda>h.
     pbind (hpage h) (\<lambda>p.
     pbind (pgo (pageGet p 0)) (\<lambda>rec. pgo (decodeMeta rec))))"

definition persistTree :: "(Tree, unit) proc" where
  "persistTree =
     pbind (pget (\<lambda>t. (tmeta t, root t, height t))) (\<lambda>(mt, rt, ht).
     if mt = 0 then onEng (NoteTree rt (word_of_int ht)) else writeMeta)"

section \<open>Creating and opening\<close>

definition emptyHdr :: nodeHeader where
  "emptyHdr = \<lparr>nhPrev = 0, nhNext = 0, nhLeftmost = 0\<rparr>"

definition newTree :: "Engine \<Rightarrow> PageID \<Rightarrow> int \<Rightarrow> PageID \<Rightarrow> bool \<Rightarrow> Tree" where
  "newTree e rt ht mt lk = \<lparr>eng = e, root = rt, height = ht, tmeta = mt, hintRight = 0, hintMax = [], hintParent = 0,
     liveRows = 0, liveKnown = lk\<rparr>"

definition CreateDetached :: "(Engine, Engine \<Rightarrow> Tree) proc" where
  "CreateDetached =
     pbind (NewPage PageTypeBTreeLeaf) (\<lambda>h.
     pbind (hdo h (\<lambda>p. initNode p emptyHdr)) (\<lambda>_.
     pbind (NewPage PageTypeSlotted) (\<lambda>mh.
     pbind (pgo (map_option Inr (encodeMeta h 1))) (\<lambda>rec.
     pbind (hdo mh (\<lambda>p. pageInsert p rec)) (\<lambda>_.
     pret (\<lambda>e. newTree e h 1 mh True))))))"

definition checkRootType :: "string \<Rightarrow> u16 \<Rightarrow> u16 \<Rightarrow> unit res" where
  "checkRootType op ht typ =
     (if ht = 1 \<and> typ \<noteq> PageTypeBTreeLeaf then Inl (New Corruption op ''height-1 root is not a leaf'')
      else if ht > 1 \<and> typ \<noteq> PageTypeBTreeInternal then Inl (New Corruption op ''internal root has wrong page type'')
      else Inr ())"

definition OpenDetached :: "PageID \<Rightarrow> (Engine, Engine \<Rightarrow> Tree) proc" where
  "OpenDetached mt =
     (if mt = 0 then pfail (New InvalidArgument ''btree.OpenDetached'' ''meta page is required'')
      else pbind (readTreeMeta mt) (\<lambda>(rt, ht).
        if rt = 0 \<or> ht = 0 then pfail (New Corruption ''btree.OpenDetached'' ''empty tree meta'')
        else pbind (EngPin rt) (\<lambda>h.
          pbind (hpage h) (\<lambda>p.
          pbind (pgo (map_option Inr (pageType p))) (\<lambda>typ.
          pbind (pgo (Some (checkRootType ''btree.OpenDetached'' ht typ))) (\<lambda>_.
          pret (\<lambda>e. newTree e rt (int (unat ht)) mt False)))))))"

definition OpenTree :: "(Engine, Engine \<Rightarrow> Tree) proc" where
  "OpenTree =
     pbind (pget EngPrimaryTree) (\<lambda>(rt, ht).
     if rt = 0 \<or> ht = 0 then pfail (New NotFound ''btree.Open'' ''no primary tree'')
     else pbind (EngPin rt) (\<lambda>h.
       pbind (hpage h) (\<lambda>p.
       pbind (pgo (map_option Inr (pageType p))) (\<lambda>typ.
       pbind (pgo (Some (checkRootType ''btree.Open'' ht typ))) (\<lambda>_.
       pret (\<lambda>e. newTree e rt (int (unat ht)) 0 False))))))"

section \<open>Hints\<close>

definition noteRight :: "PageID \<Rightarrow> bytes \<Rightarrow> Tree \<Rightarrow> Tree" where
  "noteRight pid key t =
     (if hintRight t = 0 \<or> hintRight t = pid \<or> length (hintMax t) = 0 \<or> compare key (hintMax t) > 0
      then t\<lparr>hintRight := pid, hintMax := key\<rparr> else t)"

definition clearHint :: "Tree \<Rightarrow> Tree" where
  "clearHint t = t\<lparr>hintRight := 0, hintMax := [], hintParent := 0\<rparr>"

text \<open>The two boolean results of \<open>leafRawHint\<close>, found and ok: \<open>None\<close> when the hint does not apply,
  otherwise the leaf and the value if the key is there.\<close>

definition leafRawHint :: "bytes \<Rightarrow> (Tree, (PageID \<times> bytes option) option) proc" where
  "leafRawHint key =
     pbind (pget (\<lambda>t. (hintRight t, hintMax t))) (\<lambda>(hr, hm).
     if hr = 0 \<or> length hm = 0 \<or> compare key hm \<le> 0 then pret None
     else ptry (pin hr) (\<lambda>r. case r of
         Inl _ \<Rightarrow> pbind (pmodify clearHint) (\<lambda>_. pret None)
       | Inr h \<Rightarrow> ptry (pageRead h (\<lambda>p. expectType p PageTypeBTreeLeaf)) (\<lambda>r. case r of
           Inl _ \<Rightarrow> pbind (pmodify clearHint) (\<lambda>_. pret None)
         | Inr _ \<Rightarrow> ptry (pageRead h readHeader) (\<lambda>r.
             if (case r of Inl _ \<Rightarrow> True | Inr hdr \<Rightarrow> nhNext hdr \<noteq> 0)
             then pbind (pmodify clearHint) (\<lambda>_. pret None)
             else ptry (pageRead h (\<lambda>p. findLeafSlot p key)) (\<lambda>r. case r of
                 Inl _ \<Rightarrow> pret None
               | Inr (Some (_, val)) \<Rightarrow> pret (Some (hr, Some val))
               | Inr None \<Rightarrow> pret (Some (hr, None)))))))"

section \<open>Descending\<close>

fun descendLoop :: "nat \<Rightarrow> PageID \<Rightarrow> bytes \<Rightarrow> PageID list \<Rightarrow> (Tree, PageID list) proc" where
  "descendLoop 0 pid key path = pret (path @ [pid])"
| "descendLoop (Suc level) pid key path =
     pbind (pin pid) (\<lambda>h.
     pbind (pageRead h (\<lambda>p. expectType p PageTypeBTreeInternal)) (\<lambda>_.
     pbind (pageRead h readHeader) (\<lambda>hdr.
     pbind (pageRead h collectInternals) (\<lambda>ents.
     let child = childForKey hdr ents key in
     if child = 0 then pfail (New Corruption ''btree.descend'' ''internal node has no child'')
     else descendLoop level child key (path @ [pid])))))"

definition descend :: "bytes \<Rightarrow> (Tree, PageID list) proc" where
  "descend key = pbind (pget (\<lambda>t. (height t, root t))) (\<lambda>(ht, rt). descendLoop (nat (ht - 1)) rt key [])"

definition leafRaw :: "bytes \<Rightarrow> (Tree, PageID \<times> bytes option) proc" where
  "leafRaw key =
     pbind (leafRawHint key) (\<lambda>hint. case hint of
         Some r \<Rightarrow> pret r
       | None \<Rightarrow> pbind (descend key) (\<lambda>path.
           let leafID = last path in
           pbind (pin leafID) (\<lambda>h.
           pbind (pageRead h (\<lambda>p. expectType p PageTypeBTreeLeaf)) (\<lambda>_.
           pbind (pageRead h (\<lambda>p. findLeafSlot p key)) (\<lambda>r. case r of
               None \<Rightarrow> pret (leafID, None)
             | Some (_, val) \<Rightarrow> pret (leafID, Some val))))))"

section \<open>Splitting\<close>

definition splitStep :: "leafEntry list \<Rightarrow> nat \<Rightarrow> (nat \<times> nat) option \<Rightarrow> (nat \<times> nat) option" where
  "splitStep ents mid best =
     (if \<not> leafFits (take mid ents) \<or> \<not> leafFits (drop mid ents) then best
      else let target = length ents div 2;
               delta = (if mid < target then target - mid else mid - target)
           in (case best of None \<Rightarrow> Some (mid, delta) | Some (_, d) \<Rightarrow> if delta < d then Some (mid, delta) else best))"

definition splitLeafIndex :: "leafEntry list \<Rightarrow> nat res" where
  "splitLeafIndex ents = (case fold (splitStep ents) [1..<length ents] None of
      None \<Rightarrow> Inl (New InvalidArgument ''btree.splitLeaf'' ''records cannot be split across two pages'')
    | Some (best, _) \<Rightarrow> Inr best)"

definition setSiblingPrev :: "PageID \<Rightarrow> PageID \<Rightarrow> (Tree, unit) proc" where
  "setSiblingPrev pid prv =
     pbind (pin pid) (\<lambda>h.
     pbind (pageRead h readHeader) (\<lambda>hdr.
     pageDo h (\<lambda>p. writeHeader p (hdr\<lparr>nhPrev := prv\<rparr>))))"

definition setSiblingNext :: "PageID \<Rightarrow> PageID \<Rightarrow> (Tree, unit) proc" where
  "setSiblingNext pid nxt =
     pbind (pin pid) (\<lambda>h.
     pbind (pageRead h readHeader) (\<lambda>hdr.
     pageDo h (\<lambda>p. writeHeader p (hdr\<lparr>nhNext := nxt\<rparr>))))"

definition newRoot :: "PageID \<Rightarrow> bytes \<Rightarrow> PageID \<Rightarrow> (Tree, unit) proc" where
  "newRoot left sep right =
     pbind (onEng (NewPage PageTypeBTreeInternal)) (\<lambda>h.
     pbind (pgo (rebuildInternal h (emptyHdr\<lparr>nhLeftmost := left\<rparr>) [(sep, right)])) (\<lambda>rebuilt.
     pbind (pageDo h (\<lambda>p. overwrite p rebuilt)) (\<lambda>_.
     pbind (pmodify (\<lambda>t. t\<lparr>root := h, height := height t + 1\<rparr>)) (\<lambda>_.
     persistTree))))"

text \<open>\<open>splitInternalAndInsert\<close> up to its tail call: the separator to promote and the new page.\<close>

definition splitInternal :: "PageID \<Rightarrow> nodeHeader \<Rightarrow> internalEntry list \<Rightarrow> internalEntry \<Rightarrow> (Tree, bytes \<times> PageID) proc" where
  "splitInternal leftID hdr ents neu =
     (let al = sortInternals (ents @ [neu]) in
      if length al < 1 then pfail (New Internal ''btree.splitInternal'' ''empty internal node'')
      else let mid = (let m = length al div 2 in if m \<ge> length al then length al - 1 else m);
               promote = fst (al ! mid);
               leftEnts = take mid al;
               rightLeftmost = snd (al ! mid);
               rightEnts = drop (mid + 1) al
           in pbind (onEng (NewPage PageTypeBTreeInternal)) (\<lambda>rightID.
              pbind (pgo (rebuildInternal leftID (emptyHdr\<lparr>nhLeftmost := nhLeftmost hdr\<rparr>) leftEnts)) (\<lambda>leftPage.
              pbind (pgo (rebuildInternal rightID (emptyHdr\<lparr>nhLeftmost := rightLeftmost\<rparr>) rightEnts)) (\<lambda>rightPage.
              pbind (pageDo rightID (\<lambda>p. overwrite p rightPage)) (\<lambda>_.
              pbind (pin leftID) (\<lambda>h.
              pbind (pageDo h (\<lambda>p. overwrite p leftPage)) (\<lambda>_.
              pret (promote, rightID))))))))"

text \<open>\<open>insertSeparator\<close> without its recursion: \<open>None\<close> when the parent took the separator.\<close>

definition putSeparator :: "PageID \<Rightarrow> bytes \<Rightarrow> PageID \<Rightarrow> (Tree, (bytes \<times> PageID) option) proc" where
  "putSeparator parentID sep right =
     pbind (pin parentID) (\<lambda>h.
     pbind (pageRead h (\<lambda>p. expectType p PageTypeBTreeInternal)) (\<lambda>_.
     pbind (pageRead h readHeader) (\<lambda>hdr.
     pbind (pgo (encodeInternal sep right)) (\<lambda>rec.
     pbind (pageRead h maxInternalKey) (\<lambda>mx.
     let slow = pbind (pageRead h collectInternals) (\<lambda>ents.
           let nxt = sortInternals (ents @ [(sep, right)]) in
           if internalFits hdr nxt
           then pbind (pgo (rebuildInternal parentID hdr nxt)) (\<lambda>rebuilt.
             pbind (pageDo h (\<lambda>p. overwrite p rebuilt)) (\<lambda>_. pret None))
           else pbind (splitInternal parentID hdr ents (sep, right)) (\<lambda>up. pret (Some up)))
     in if (case mx of None \<Rightarrow> True | Some m \<Rightarrow> compare m sep < 0)
        then ptry (pageDo h (\<lambda>p. pageAppend p rec)) (\<lambda>r. case r of
            Inr _ \<Rightarrow> pret None
          | Inl err \<Rightarrow> if HasCode err PageFull then slow else pfail err)
        else slow)))))"

function insertSeparator :: "PageID list \<Rightarrow> bytes \<Rightarrow> PageID \<Rightarrow> (Tree, unit) proc" where
  "insertSeparator parentPath sep right =
     (if parentPath = [] then pbind (pget root) (\<lambda>rt. newRoot rt sep right)
      else pbind (putSeparator (last parentPath) sep right) (\<lambda>up. case up of
          None \<Rightarrow> pret ()
        | Some (promote, rightID) \<Rightarrow> insertSeparator (butlast parentPath) promote rightID))"
  by pat_completeness auto

termination
  by (relation "measure (\<lambda>(path, _, _). length path)") auto

declare insertSeparator.simps [simp del]

definition splitLeafAndInsert :: "PageID list \<Rightarrow> nodeHeader \<Rightarrow> leafEntry list \<Rightarrow> leafEntry \<Rightarrow> (Tree, unit) proc" where
  "splitLeafAndInsert path hdr ents neu =
     pbind (pmodify clearHint) (\<lambda>_.
     let al = sortLeaves (ents @ [neu]) in
     if length al < 2 then pfail (New InvalidArgument ''btree.splitLeaf'' ''cannot split a single record'')
     else pbind (pgo (Some (splitLeafIndex al))) (\<lambda>mid.
       let leftEnts = take mid al;
           rightEnts = drop mid al;
           sep = fst (rightEnts ! 0);
           leftID = last path
       in pbind (onEng (NewPage PageTypeBTreeLeaf)) (\<lambda>rightID.
          pbind (pgo (rebuildLeaf leftID (emptyHdr\<lparr>nhPrev := nhPrev hdr, nhNext := rightID\<rparr>) leftEnts)) (\<lambda>leftPage.
          pbind (pgo (rebuildLeaf rightID (emptyHdr\<lparr>nhPrev := leftID, nhNext := nhNext hdr\<rparr>) rightEnts)) (\<lambda>rightPage.
          pbind (pageDo rightID (\<lambda>p. overwrite p rightPage)) (\<lambda>_.
          pbind (onEng (CrashAt PointDuringSplit)) (\<lambda>_.
          pbind (pin leftID) (\<lambda>h.
          pbind (pageDo h (\<lambda>p. overwrite p leftPage)) (\<lambda>_.
          pbind (if nhNext hdr \<noteq> 0 then setSiblingPrev (nhNext hdr) rightID else pret ()) (\<lambda>_.
          insertSeparator (butlast path) sep rightID))))))))))"

section \<open>Appending on the right\<close>

fun lastKeyLoop :: "page \<Rightarrow> nat \<Rightarrow> bytes option go" where
  "lastKeyLoop p i =
     (if i < 1 then Some (Inr None)
      else do {
        r \<leftarrow> GetView p (word_of_nat i);
        case r of
          Inl _ \<Rightarrow> lastKeyLoop p (i - 1)
        | Inr rec \<Rightarrow> gbind (decodeInternal rec) (\<lambda>(k, _). Some (Inr (Some k)))
      })"

declare lastKeyLoop.simps [simp del]

definition lastInternalKey :: "page \<Rightarrow> bytes option go" where
  "lastInternalKey p = do { n \<leftarrow> SlotCount p; lastKeyLoop p (n - 1) }"

definition tryAppendSeparator :: "PageID \<Rightarrow> bytes \<Rightarrow> PageID \<Rightarrow> (Tree, bool) proc" where
  "tryAppendSeparator parentID sep right =
     ptry (pin parentID) (\<lambda>r. case r of
         Inl _ \<Rightarrow> pret False
       | Inr h \<Rightarrow> ptry (pageRead h (\<lambda>p. expectType p PageTypeBTreeInternal)) (\<lambda>r. case r of
           Inl _ \<Rightarrow> pret False
         | Inr _ \<Rightarrow>
             pbind (pgo (encodeInternal sep right)) (\<lambda>rec.
             pbind (pageRead h lastInternalKey) (\<lambda>mx.
             if (case mx of None \<Rightarrow> False | Some m \<Rightarrow> compare m sep \<ge> 0) then pret False
             else ptry (pageDo h (\<lambda>p. pageAppend p rec)) (\<lambda>r. case r of
                 Inl err \<Rightarrow> if HasCode err PageFull then pret False else pfail err
               | Inr _ \<Rightarrow> pret True)))))"

definition attachSlow :: "bytes \<Rightarrow> bytes \<Rightarrow> PageID \<Rightarrow> (Tree, unit) proc" where
  "attachSlow leftMax sep rightID =
     pbind (descend leftMax) (\<lambda>path.
     let parentPath = (if length path > 1 then butlast path else []) in
     ptry (insertSeparator parentPath sep rightID) (\<lambda>r. case r of
         Inl err \<Rightarrow> pbind (pmodify (\<lambda>t. t\<lparr>hintParent := 0\<rparr>)) (\<lambda>_. pfail err)
       | Inr _ \<Rightarrow>
           if parentPath = [] then pmodify (\<lambda>t. t\<lparr>hintParent := root t\<rparr>)
           else ptry (descend sep) (\<lambda>r. case r of
               Inl _ \<Rightarrow> pret ()
             | Inr p2 \<Rightarrow>
                 if length p2 < 2 then pret ()
                 else pmodify (\<lambda>t. t\<lparr>hintParent := p2 ! (length p2 - 2)\<rparr>))))"

definition attachRight :: "bytes \<Rightarrow> bytes \<Rightarrow> PageID \<Rightarrow> (Tree, unit) proc" where
  "attachRight leftMax sep rightID =
     pbind (pget hintParent) (\<lambda>hp.
     if hp \<noteq> 0
     then pbind (tryAppendSeparator hp sep rightID) (\<lambda>ok.
       if ok then pret ()
       else pbind (pmodify (\<lambda>t. t\<lparr>hintParent := 0\<rparr>)) (\<lambda>_. attachSlow leftMax sep rightID))
     else attachSlow leftMax sep rightID)"

definition splitLeafAppend :: "PageID \<Rightarrow> nodeHeader \<Rightarrow> bytes \<Rightarrow> bytes \<Rightarrow> bytes \<Rightarrow> (Tree, unit) proc" where
  "splitLeafAppend leafID hdr leftMax key rec =
     pbind (pmodify (\<lambda>t. t\<lparr>hintRight := 0, hintMax := []\<rparr>)) (\<lambda>_.
     pbind (onEng (NewPage PageTypeBTreeLeaf)) (\<lambda>rightID.
     pbind (pageDo rightID (\<lambda>p. initNode p (emptyHdr\<lparr>nhPrev := leafID, nhNext := nhNext hdr\<rparr>))) (\<lambda>_.
     pbind (pageDo rightID (\<lambda>p. pageAppend p rec)) (\<lambda>_.
     let oldNext = nhNext hdr in
     pbind (pageDo leafID (\<lambda>p. writeHeader p (hdr\<lparr>nhNext := rightID\<rparr>))) (\<lambda>_.
     pbind (onEng (CrashAt PointDuringSplit)) (\<lambda>_.
     pbind (if oldNext \<noteq> 0 then setSiblingPrev oldNext rightID else pret ()) (\<lambda>_.
     pbind (pmodify (noteRight rightID key)) (\<lambda>_.
     attachRight leftMax key rightID))))))))"

section \<open>Inserting\<close>

text \<open>What \<open>insertAt\<close> and \<open>splitPinnedAndInsert\<close> do on a full leaf, up to the general split: the
  append split when the key is beyond the leaf's maximum, cached or computed.\<close>

definition appendSplit :: "PageID \<Rightarrow> nodeHeader \<Rightarrow> bytes \<Rightarrow> bytes \<Rightarrow> (Tree, unit) proc \<Rightarrow> (Tree, unit) proc" where
  "appendSplit leafID hdr key rec general =
     pbind (pget (\<lambda>t. (hintRight t, hintMax t))) (\<lambda>(hr, hm).
     if hr = leafID \<and> length hm > 0 \<and> compare hm key < 0 then splitLeafAppend leafID hdr hm key rec
     else pbind (pageRead leafID maxLeafKey) (\<lambda>mx.
       (case mx of
          Some m \<Rightarrow> if compare m key < 0 then splitLeafAppend leafID hdr m key rec else general
        | None \<Rightarrow> general)))"

definition insertAt :: "bytes \<Rightarrow> bytes \<Rightarrow> bool \<Rightarrow> (Tree, unit) proc" where
  "insertAt key val checkDup =
     pbind (descend key) (\<lambda>path.
     let leafID = last path in
     pbind (pin leafID) (\<lambda>h.
     pbind (pageRead h (\<lambda>p. expectType p PageTypeBTreeLeaf)) (\<lambda>_.
     pbind (if checkDup then pageRead h (\<lambda>p. findLeafSlot p key) else pret None) (\<lambda>dup.
     if dup \<noteq> None then pfail (New AlreadyExists ''btree.Insert'' ''duplicate key'')
     else pbind (pgo (encodeLeaf key val)) (\<lambda>rec.
       ptry (pageDo h (\<lambda>p. pageInsert p rec)) (\<lambda>r. case r of
           Inr _ \<Rightarrow> pmodify (noteRight leafID key)
         | Inl err \<Rightarrow>
             if \<not> HasCode err PageFull then pfail err
             else pbind (pageRead h readHeader) (\<lambda>hdr.
               appendSplit leafID hdr key rec
                 (pbind (pageRead h collectLeaves) (\<lambda>ents.
                  if length ents = 0 then pfail (New InvalidArgument ''btree.Insert'' ''record exceeds page capacity'')
                  else splitLeafAndInsert path hdr ents (key, val))))))))))"

definition insertLocked :: "bytes \<Rightarrow> bytes \<Rightarrow> (Tree, unit) proc" where
  "insertLocked key val = insertAt key val True"

definition insertLockedAbsent :: "bytes \<Rightarrow> bytes \<Rightarrow> (Tree, unit) proc" where
  "insertLockedAbsent key val = insertAt key val False"

definition insertOnLeaf :: "PageID \<Rightarrow> bytes \<Rightarrow> bytes \<Rightarrow> (Tree, unit) proc" where
  "insertOnLeaf leafID key val =
     ptry (pin leafID) (\<lambda>r. case r of
         Inl _ \<Rightarrow> insertAt key val False
       | Inr h \<Rightarrow> ptry (pageRead h (\<lambda>p. expectType p PageTypeBTreeLeaf)) (\<lambda>r. case r of
           Inl _ \<Rightarrow> pbind (pmodify clearHint) (\<lambda>_. insertAt key val False)
         | Inr _ \<Rightarrow> pbind (pgo (encodeLeaf key val)) (\<lambda>rec.
             ptry (pageDo h (\<lambda>p. pageInsert p rec)) (\<lambda>r. case r of
                 Inr _ \<Rightarrow> pmodify (noteRight leafID key)
               | Inl err \<Rightarrow>
                   if \<not> HasCode err PageFull then pfail err
                   else pbind (pmodify clearHint) (\<lambda>_. insertAt key val False)))))"

definition splitPinnedAndInsert :: "PageID \<Rightarrow> bytes \<Rightarrow> bytes \<Rightarrow> (Tree, unit) proc" where
  "splitPinnedAndInsert leafID key rec =
     pbind (pageRead leafID readHeader) (\<lambda>hdr.
     appendSplit leafID hdr key rec
       (pbind (pageRead leafID collectLeaves) (\<lambda>ents.
        pbind (pgo (decodeLeaf rec)) (\<lambda>(k, v).
        pbind (descend key) (\<lambda>path.
        if last path \<noteq> leafID then insertAt k v False
        else splitLeafAndInsert path hdr ents (k, v))))))"

text \<open>The closure \<open>put\<close> of \<open>insertBatchLocked\<close>: the pinned leaf, if any, goes in and comes out.\<close>

definition repin :: "(Tree, PageID option) proc" where
  "repin = pbind (pget hintRight) (\<lambda>hr.
     if hr = 0 then pret None
     else ptry (pin hr) (\<lambda>r. case r of Inl _ \<Rightarrow> pret None | Inr h \<Rightarrow> pret (Some h)))"

definition appendOrSplit :: "PageID \<Rightarrow> bytes \<Rightarrow> bytes \<Rightarrow> (Tree, PageID option) proc" where
  "appendOrSplit leafID key rec =
     ptry (pageDo leafID (\<lambda>p. pageAppend p rec)) (\<lambda>r. case r of
         Inr _ \<Rightarrow> pbind (pmodify (noteRight leafID key)) (\<lambda>_. pret (Some leafID))
       | Inl err \<Rightarrow>
           if \<not> HasCode err PageFull then pfail err
           else pbind (splitPinnedAndInsert leafID key rec) (\<lambda>_. repin))"

definition put :: "PageID option \<Rightarrow> bytes \<Rightarrow> bytes \<Rightarrow> (Tree, PageID option) proc" where
  "put h key rec = (case h of
      Some leafID \<Rightarrow> appendOrSplit leafID key rec
    | None \<Rightarrow> pbind (leafRaw key) (\<lambda>(pid, val).
        if val \<noteq> None then pfail (New AlreadyExists ''btree.InsertBatch'' ''duplicate key'')
        else pbind (pin pid) (\<lambda>h.
          pbind (pageRead h (\<lambda>p. expectType p PageTypeBTreeLeaf)) (\<lambda>_.
          appendOrSplit pid key rec))))"

fun batchLoop :: "TxnID \<Rightarrow> bytes \<Rightarrow> bytes \<Rightarrow> PageID option \<Rightarrow> int \<Rightarrow> (bytes \<times> bytes) list \<Rightarrow> (Tree, unit) proc" where
  "batchLoop xmin verBuf recBuf h added [] = pmodify (addLive added)"
| "batchLoop xmin verBuf recBuf h added ((key, val) # kvs) =
     pbind (pgo (map_option Inr (EncodeInto verBuf \<lparr>vXmin = xmin, vXmax = 0, vUndo = 0, vPayload = val\<rparr>))) (\<lambda>verBuf.
     ptry (pgo (encodeLeafInto recBuf key verBuf)) (\<lambda>r. case r of
         Inl err \<Rightarrow> pbind (pmodify (addLive added)) (\<lambda>_. pfail err)
       | Inr recBuf \<Rightarrow> ptry (put h key recBuf) (\<lambda>r. case r of
           Inl err \<Rightarrow> pbind (pmodify (addLive added)) (\<lambda>_. pfail err)
         | Inr h \<Rightarrow> batchLoop xmin verBuf recBuf h (added + 1) kvs)))"

definition insertBatchLocked :: "TxnID \<Rightarrow> bytes list \<Rightarrow> bytes list \<Rightarrow> (Tree, unit) proc" where
  "insertBatchLocked xmin keys vals = batchLoop xmin [] [] None 0 (zip keys vals)"

section \<open>Updating\<close>

definition updateLocked :: "bytes \<Rightarrow> bytes \<Rightarrow> (Tree, unit) proc" where
  "updateLocked key val =
     pbind (descend key) (\<lambda>path.
     let leafID = last path in
     pbind (pin leafID) (\<lambda>h.
     pbind (pageRead h (\<lambda>p. expectType p PageTypeBTreeLeaf)) (\<lambda>_.
     pbind (pageRead h (\<lambda>p. findLeafSlot p key)) (\<lambda>f. case f of
         None \<Rightarrow> pfail (New NotFound ''btree.Update'' ''key not found'')
       | Some (sl, _) \<Rightarrow> pbind (pgo (encodeLeaf key val)) (\<lambda>rec.
           ptry (pageDo h (\<lambda>p. pageUpdate p sl rec)) (\<lambda>r. case r of
               Inr _ \<Rightarrow> pret ()
             | Inl err \<Rightarrow>
                 if \<not> HasCode err PageFull then pfail err
                 else pbind (pageRead h readHeader) (\<lambda>hdr.
                   pbind (pageRead h collectLeaves) (\<lambda>ents.
                   case findLeaf ents key of (i, ok) \<Rightarrow>
                   if \<not> ok then pfail (New NotFound ''btree.Update'' ''key not found'')
                   else splitLeafAndInsert path hdr (take i ents @ drop (i + 1) ents) (key, val)))))))))"

end
