(* ===== verification/BTreeDelete.thy ===== *)
theory BTreeDelete
  imports BTree
begin

text \<open>
  Deleting from the tree and checking it: \<open>delete.go\<close>, \<open>check.go\<close> and the leaf walks of
  \<open>insert.go\<close> and \<open>scan.go\<close>.
\<close>

section \<open>Removing a child\<close>

definition payloadSize :: "leafEntry list \<Rightarrow> nat" where
  "payloadSize ents = sum_list (map (\<lambda>e. 4 + length (fst e) + length (snd e)) ents)"

definition shouldMerge :: "leafEntry list \<Rightarrow> bool" where
  "shouldMerge ents \<longleftrightarrow> payloadSize ents \<le> maxPayload div 4"

definition parentHasChild :: "nodeHeader \<Rightarrow> internalEntry list \<Rightarrow> PageID \<Rightarrow> bool" where
  "parentHasChild hdr ents pid \<longleftrightarrow> nhLeftmost hdr = pid \<or> list_ex (\<lambda>e. snd e = pid) ents"

text \<open>The first entry with the child, and the list without it or with another key.\<close>

fun dropChild :: "internalEntry list \<Rightarrow> PageID \<Rightarrow> internalEntry list option" where
  "dropChild [] child = None"
| "dropChild (e # es) child = (if snd e = child then Some es else map_option (Cons e) (dropChild es child))"

fun rekeyChild :: "internalEntry list \<Rightarrow> PageID \<Rightarrow> bytes \<Rightarrow> internalEntry list option" where
  "rekeyChild [] child sep = None"
| "rekeyChild (e # es) child sep =
     (if snd e = child then Some ((sep, snd e) # es) else map_option (Cons e) (rekeyChild es child sep))"

fun swapChild :: "internalEntry list \<Rightarrow> PageID \<Rightarrow> PageID \<Rightarrow> internalEntry list option" where
  "swapChild [] old neu = None"
| "swapChild (e # es) old neu =
     (if snd e = old then Some ((fst e, neu) # es) else map_option (Cons e) (swapChild es old neu))"

definition putInternal :: "PageID \<Rightarrow> nodeHeader \<Rightarrow> internalEntry list \<Rightarrow> (Tree, unit) proc" where
  "putInternal parentID hdr ents =
     pbind (pgo (rebuildInternal parentID hdr ents)) (\<lambda>rebuilt. pageDo parentID (\<lambda>p. overwrite p rebuilt))"

function setChildSeparator :: "PageID list \<Rightarrow> PageID \<Rightarrow> bytes \<Rightarrow> (Tree, unit) proc" where
  "setChildSeparator parentPath child sep =
     (if parentPath = [] then pret ()
      else let parentID = last parentPath in
        pbind (pin parentID) (\<lambda>h.
        pbind (pageRead h readHeader) (\<lambda>hdr.
        pbind (pageRead h collectInternals) (\<lambda>ents.
        if nhLeftmost hdr = child then setChildSeparator (butlast parentPath) parentID sep
        else (case rekeyChild ents child sep of
            None \<Rightarrow> pfail (New Corruption ''btree.setChildSeparator'' ''parent does not reference child'')
          | Some ents \<Rightarrow> putInternal parentID hdr ents)))))"
  by pat_completeness auto

termination
  by (relation "measure (\<lambda>(path, _, _). length path)") auto

declare setChildSeparator.simps [simp del]

text \<open>The last part of \<open>removeChild\<close>, with the header and entries that remain.\<close>

definition shrinkParent :: "PageID \<Rightarrow> nodeHeader \<Rightarrow> internalEntry list \<Rightarrow> (Tree, unit) proc" where
  "shrinkParent parentID hdr ents =
     pbind (pget root) (\<lambda>rt.
     if length ents = 0 \<and> parentID = rt
     then pbind (pmodify (\<lambda>t. t\<lparr>root := nhLeftmost hdr, height := height t - 1\<rparr>)) (\<lambda>_.
       pbind (onEng (EngDrop parentID)) (\<lambda>_. persistTree))
     else putInternal parentID hdr ents)"

function removeChild :: "PageID list \<Rightarrow> PageID \<Rightarrow> (Tree, unit) proc" where
  "removeChild parentPath child =
     (if parentPath = [] then pfail (New Internal ''btree.removeChild'' ''cannot remove child of missing parent'')
      else let parentID = last parentPath in
        pbind (pin parentID) (\<lambda>h.
        pbind (pageRead h (\<lambda>p. expectType p PageTypeBTreeInternal)) (\<lambda>_.
        pbind (pageRead h readHeader) (\<lambda>hdr.
        pbind (pageRead h collectInternals) (\<lambda>ents.
        if nhLeftmost hdr = child \<and> length ents = 0
        then pbind (pget root) (\<lambda>rt.
          if parentID = rt
          then pbind (onEng (EngDrop parentID)) (\<lambda>_. pmodify (\<lambda>t. t\<lparr>root := 0, height := 0\<rparr>))
          else pbind (removeChild (butlast parentPath) parentID) (\<lambda>_. onEng (EngDrop parentID)))
        else if nhLeftmost hdr = child
        then shrinkParent parentID (hdr\<lparr>nhLeftmost := snd (ents ! 0)\<rparr>) (drop 1 ents)
        else (case dropChild ents child of
            None \<Rightarrow> pfail (New Corruption ''btree.removeChild'' ''parent does not reference child'')
          | Some ents \<Rightarrow> shrinkParent parentID hdr ents))))))"
  by pat_completeness auto

termination
  by (relation "measure (\<lambda>(path, _). length path)") auto

declare removeChild.simps [simp del]

definition replaceChild :: "PageID list \<Rightarrow> PageID \<Rightarrow> PageID \<Rightarrow> (Tree, unit) proc" where
  "replaceChild parentPath old neu =
     (if parentPath = [] then pbind (pmodify (\<lambda>t. t\<lparr>root := neu, height := height t - 1\<rparr>)) (\<lambda>_. persistTree)
      else let parentID = last parentPath in
        pbind (pin parentID) (\<lambda>h.
        pbind (pageRead h readHeader) (\<lambda>hdr.
        pbind (pageRead h collectInternals) (\<lambda>ents.
        if nhLeftmost hdr = old then putInternal parentID (hdr\<lparr>nhLeftmost := neu\<rparr>) ents
        else (case swapChild ents old neu of
            None \<Rightarrow> pfail (New Corruption ''btree.replaceChild'' ''parent does not reference child'')
          | Some ents \<Rightarrow> putInternal parentID hdr ents)))))"

section \<open>Merging leaves\<close>

text \<open>One round of the sibling loop of \<open>maybeMergeLeaf\<close>: whether the leaf was merged. The parent is
  \<open>None\<close> for a path of one page.\<close>

definition mergeWith :: "PageID list \<Rightarrow> nodeHeader \<Rightarrow> leafEntry list \<Rightarrow> (nodeHeader \<times> internalEntry list) option \<Rightarrow> PageID \<Rightarrow>
    (Tree, bool) proc" where
  "mergeWith path hdr ents parent sibID =
     (if sibID = 0 then pret False
      else if (case parent of None \<Rightarrow> False | Some (phdr, pents) \<Rightarrow> \<not> parentHasChild phdr pents sibID) then pret False
      else pbind (pin sibID) (\<lambda>h.
        pbind (pageRead h (\<lambda>p. map_option Inr (pageType p))) (\<lambda>typ.
        if typ \<noteq> PageTypeBTreeLeaf then pfail (New Corruption ''btree.maybeMergeLeaf'' ''sibling is not a leaf'')
        else pbind (pageRead h readHeader) (\<lambda>sibHdr.
          pbind (pageRead h collectLeaves) (\<lambda>sibEnts.
          let right = (sibID = nhNext hdr);
              combined = (if right then ents @ sibEnts else sibEnts @ ents)
          in if \<not> leafFits combined then pret False
             else let keepHdr = (if right then sibHdr\<lparr>nhPrev := nhPrev hdr\<rparr> else sibHdr\<lparr>nhNext := nhNext hdr\<rparr>) in
               pbind (pgo (rebuildLeaf sibID keepHdr combined)) (\<lambda>rebuilt.
               pbind (pageDo h (\<lambda>p. overwrite p rebuilt)) (\<lambda>_.
               pbind (onEng (CrashAt PointDuringMerge)) (\<lambda>_.
               pbind (if right \<and> nhPrev hdr \<noteq> 0 then setSiblingNext (nhPrev hdr) sibID else pret ()) (\<lambda>_.
               pbind (if sibID = nhPrev hdr \<and> nhNext hdr \<noteq> 0 then setSiblingPrev (nhNext hdr) sibID else pret ()) (\<lambda>_.
               pbind (if right \<and> length combined > 0 then setChildSeparator (butlast path) sibID (fst (combined ! 0)) else pret ()) (\<lambda>_.
               pbind (removeChild (butlast path) (last path)) (\<lambda>_.
               pbind (onEng (EngDrop (last path))) (\<lambda>_. pret True)))))))))))))"

definition parentOf :: "PageID list \<Rightarrow> (Tree, (nodeHeader \<times> internalEntry list) option) proc" where
  "parentOf path =
     (if length path \<ge> 2
      then pbind (pin (path ! (length path - 2))) (\<lambda>ph.
        pbind (pageRead ph readHeader) (\<lambda>phdr.
        pbind (pageRead ph collectInternals) (\<lambda>pents. pret (Some (phdr, pents)))))
      else pret None)"

definition maybeMergeLeaf :: "PageID list \<Rightarrow> nodeHeader \<Rightarrow> leafEntry list \<Rightarrow> (Tree, unit) proc" where
  "maybeMergeLeaf path hdr ents =
     pbind (parentOf path) (\<lambda>parent.
     pbind (mergeWith path hdr ents parent (nhNext hdr)) (\<lambda>merged.
     if merged then pret ()
     else pbind (mergeWith path hdr ents parent (nhPrev hdr)) (\<lambda>_. pret ())))"

definition removeEmptyLeaf :: "PageID list \<Rightarrow> nodeHeader \<Rightarrow> (Tree, unit) proc" where
  "removeEmptyLeaf path hdr =
     (let leafID = last path in
      pbind (if nhPrev hdr \<noteq> 0 then setSiblingNext (nhPrev hdr) (nhNext hdr) else pret ()) (\<lambda>_.
      pbind (if nhNext hdr \<noteq> 0 then setSiblingPrev (nhNext hdr) (nhPrev hdr) else pret ()) (\<lambda>_.
      pbind (removeChild (butlast path) leafID) (\<lambda>_.
      pbind (pget root) (\<lambda>rt.
      if rt = leafID then pret ()
      else if rt = 0 then pbind (pmodify (\<lambda>t. t\<lparr>root := leafID, height := 1\<rparr>)) (\<lambda>_. persistTree)
      else onEng (EngDrop leafID))))))"

definition deleteLocked :: "bytes \<Rightarrow> (Tree, unit) proc" where
  "deleteLocked key =
     pbind (pmodify clearHint) (\<lambda>_.
     pbind (descend key) (\<lambda>path.
     let leafID = last path in
     pbind (pin leafID) (\<lambda>h.
     pbind (pageRead h (\<lambda>p. expectType p PageTypeBTreeLeaf)) (\<lambda>_.
     pbind (pageRead h readHeader) (\<lambda>hdr.
     pbind (pageRead h (\<lambda>p. findLeafSlot p key)) (\<lambda>f. case f of
         None \<Rightarrow> pfail (New NotFound ''btree.Delete'' ''key not found'')
       | Some (sl, _) \<Rightarrow>
           pbind (pageRead h (\<lambda>p. map_option Inr (LiveSlots p))) (\<lambda>live.
           pbind (pget root) (\<lambda>rt.
           if live = 2 \<and> leafID \<noteq> rt then removeEmptyLeaf path hdr
           else pbind (pageDo h (\<lambda>p. pageDelete p sl)) (\<lambda>_.
             if leafID = rt then pret ()
             else pbind (pageRead h collectLeafViews) (\<lambda>views.
               if \<not> shouldMerge views then pret ()
               else pbind (pageRead h collectLeaves) (\<lambda>ents. maybeMergeLeaf path hdr ents)))))))))))"

section \<open>Checking\<close>

text \<open>The bounds a child of an internal node is checked against; \<open>None\<close> is a nil bound.\<close>

definition childBounds :: "nodeHeader \<Rightarrow> internalEntry list \<Rightarrow> bytes option \<Rightarrow> bytes option \<Rightarrow>
    (PageID \<times> bytes option \<times> bytes option) list" where
  "childBounds hdr ents lo hi =
     (let los = lo # map (\<lambda>e. Some (fst e)) ents;
          his = map (\<lambda>e. Some (fst e)) ents @ [hi];
          cs = nhLeftmost hdr # map snd ents
      in zip cs (zip los his))"

fun increasing :: "(bytes \<times> 'a) list \<Rightarrow> bool" where
  "increasing (a # b # xs) \<longleftrightarrow> compare (fst a) (fst b) < 0 \<and> increasing (b # xs)"
| "increasing _ \<longleftrightarrow> True"

definition checkLeaf :: "PageID \<Rightarrow> PageID \<Rightarrow> leafEntry list \<Rightarrow> bytes option \<Rightarrow> bytes option \<Rightarrow> unit res" where
  "checkLeaf rt pid ents lo hi =
     (if pid \<noteq> rt \<and> length ents = 0 then Inl (New Corruption ''btree.Check'' ''empty non-root leaf'')
      else if \<not> increasing ents then Inl (New Corruption ''btree.Check'' ''leaf keys are not strictly increasing'')
      else if length ents = 0 then Inr ()
      else if (case lo of None \<Rightarrow> False | Some l \<Rightarrow> compare (fst (ents ! 0)) l < 0)
      then Inl (New Corruption ''btree.Check'' ''leaf key is below separator'')
      else if (case hi of None \<Rightarrow> False | Some u \<Rightarrow> compare (fst (ents ! (length ents - 1))) u \<ge> 0)
      then Inl (New Corruption ''btree.Check'' ''leaf key is not below high separator'')
      else Inr ())"

text \<open>\<open>walk\<close> gives the leaves in order and the pages seen; the minimal and maximal keys it also
  returns are not used by its caller.\<close>

fun walk :: "nat \<Rightarrow> PageID \<Rightarrow> bytes option \<Rightarrow> bytes option \<Rightarrow> PageID set \<Rightarrow> (Tree, PageID list \<times> PageID set) proc"
  and walkKids :: "nat \<Rightarrow> (PageID \<times> bytes option \<times> bytes option) list \<Rightarrow> PageID set \<Rightarrow> (Tree, PageID list \<times> PageID set) proc" where
  "walk ht pid lo hi seen =
     (if pid \<in> seen then pfail (New Corruption ''btree.Check'' ''page cycle'')
      else pbind (pin pid) (\<lambda>h.
        if ht \<le> 1
        then pbind (pageRead h (\<lambda>p. expectType p PageTypeBTreeLeaf)) (\<lambda>_.
          pbind (pageRead h collectLeaves) (\<lambda>ents.
          pbind (pget root) (\<lambda>rt.
          pbind (pgo (Some (checkLeaf rt pid ents lo hi))) (\<lambda>_.
          pret ([pid], insert pid seen)))))
        else pbind (pageRead h (\<lambda>p. expectType p PageTypeBTreeInternal)) (\<lambda>_.
          pbind (pageRead h readHeader) (\<lambda>hdr.
          pbind (pageRead h collectInternals) (\<lambda>ents.
          if nhLeftmost hdr = 0 then pfail (New Corruption ''btree.Check'' ''internal node missing leftmost child'')
          else if \<not> increasing ents then pfail (New Corruption ''btree.Check'' ''internal separators are not strictly increasing'')
          else walkKids (ht - 1) (childBounds hdr ents lo hi) (insert pid seen))))))"
| "walkKids ht [] seen = pret ([], seen)"
| "walkKids ht ((child, lo, hi) # cs) seen =
     pbind (walk ht child lo hi seen) (\<lambda>(ls, seen).
     pbind (walkKids ht cs seen) (\<lambda>(ls', seen). pret (ls @ ls', seen)))"

fun chainLoop :: "PageID \<Rightarrow> PageID list \<Rightarrow> (Tree, unit) proc" where
  "chainLoop prv [] = pret ()"
| "chainLoop prv (pid # pids) =
     pbind (pin pid) (\<lambda>h.
     pbind (pageRead h readHeader) (\<lambda>hdr.
     if nhPrev hdr \<noteq> prv
     then pfail (New Corruption ''btree.Check'' (''leaf '' @ fmtD (unat pid) @ '' prev pointer got '' @ fmtD (unat (nhPrev hdr)) @
       '' want '' @ fmtD (unat prv)))
     else if nhNext hdr \<noteq> (case pids of [] \<Rightarrow> 0 | q # _ \<Rightarrow> q)
     then pfail (New Corruption ''btree.Check'' (''leaf '' @ fmtD (unat pid) @ '' next pointer''))
     else chainLoop pid pids))"

definition checkLeafChain :: "PageID list \<Rightarrow> (Tree, unit) proc" where
  "checkLeafChain leaves =
     (if leaves = [] then pfail (New Corruption ''btree.Check'' ''tree has no leaves'') else chainLoop 0 leaves)"

definition checkLocked :: "(Tree, unit) proc" where
  "checkLocked =
     pbind (pget (\<lambda>t. (height t, tmeta t, root t, EngPrimaryTree (eng t)))) (\<lambda>(ht, mt, rt, prt, pht).
     if ht < 1 then pfail (New Corruption ''btree.Check'' ''invalid height'')
     else if mt = 0 \<and> (prt \<noteq> rt \<or> int (unat pht) \<noteq> ht)
     then pfail (New Corruption ''btree.Check'' ''in-memory root does not match superblock'')
     else pbind (walk (nat ht) rt None None {}) (\<lambda>(leaves, _). checkLeafChain leaves))"

section \<open>Finding the outer leaves\<close>

text \<open>The loops end only if the pages form a tree: a chain of pages that comes back to itself never
  returns, which is \<open>None\<close> here.\<close>

partial_function (option) leftmostFrom :: "PageID \<Rightarrow> Tree \<Rightarrow> (Tree \<times> PageID res) option" where
  "leftmostFrom pid t = (case pin pid t of
      None \<Rightarrow> None
    | Some (t, Inl err) \<Rightarrow> Some (t, Inl err)
    | Some (t, Inr h) \<Rightarrow> (case pageRead h (\<lambda>p. map_option Inr (pageType p)) t of
          None \<Rightarrow> None
        | Some (t, Inl err) \<Rightarrow> Some (t, Inl err)
        | Some (t, Inr typ) \<Rightarrow>
            if typ = PageTypeBTreeLeaf then Some (t, Inr pid)
            else if typ \<noteq> PageTypeBTreeInternal
            then Some (t, Inl (New Corruption ''btree.leftmostLeaf'' ''unexpected page type''))
            else (case pageRead h readHeader t of
                None \<Rightarrow> None
              | Some (t, Inl err) \<Rightarrow> Some (t, Inl err)
              | Some (t, Inr hdr) \<Rightarrow>
                  if nhLeftmost hdr = 0
                  then Some (t, Inl (New Corruption ''btree.leftmostLeaf'' ''internal node missing leftmost child''))
                  else leftmostFrom (nhLeftmost hdr) t)))"

definition leftmostLeaf :: "(Tree, PageID) proc" where
  "leftmostLeaf t = leftmostFrom (root t) t"

partial_function (option) rightmostFrom :: "PageID \<Rightarrow> Tree \<Rightarrow> (Tree \<times> PageID res) option" where
  "rightmostFrom pid t = (case pin pid t of
      None \<Rightarrow> None
    | Some (t, Inl err) \<Rightarrow> Some (t, Inl err)
    | Some (t, Inr h) \<Rightarrow> (case pageRead h (\<lambda>p. map_option Inr (pageType p)) t of
          None \<Rightarrow> None
        | Some (t, Inl err) \<Rightarrow> Some (t, Inl err)
        | Some (t, Inr typ) \<Rightarrow>
            if typ = PageTypeBTreeLeaf then Some (t, Inr pid)
            else if typ \<noteq> PageTypeBTreeInternal
            then Some (t, Inl (New Corruption ''btree.rightmostLeaf'' ''unexpected page type''))
            else (case pbind (pageRead h collectInternals) (\<lambda>ents. pbind (pageRead h readHeader) (\<lambda>hdr. pret (ents, hdr))) t of
                None \<Rightarrow> None
              | Some (t, Inl err) \<Rightarrow> Some (t, Inl err)
              | Some (t, Inr (ents, hdr)) \<Rightarrow>
                  let pid = (if length ents > 0 then snd (last ents) else nhLeftmost hdr) in
                  if pid = 0
                  then Some (t, Inl (New Corruption ''btree.rightmostLeaf'' ''internal node missing rightmost child''))
                  else rightmostFrom pid t)))"

definition rightmostLeaf :: "(Tree, PageID) proc" where
  "rightmostLeaf t = rightmostFrom (root t) t"

end
