(* ===== verification/BNodeProps.thy ===== *)
theory BNodeProps
  imports BNode
begin

text \<open>
  What a node page holds: its header and the multiset of its records. The record layouts are
  given as concatenations, the slot walks as folds over the live slots, and every page
  operation of the tree as an update of the multiset.
\<close>

section \<open>Layouts\<close>

definition hdrBytes :: "nodeHeader \<Rightarrow> bytes" where
  "hdrBytes h = (1 # replicate 3 0) @ le_bytes 8 (unat (nhPrev h)) @ le_bytes 8 (unat (nhNext h)) @ le_bytes 8 (unat (nhLeftmost h))"

definition leafBytes :: "leafEntry \<Rightarrow> bytes" where
  "leafBytes e = le_bytes 2 (length (fst e)) @ le_bytes 2 (length (snd e)) @ fst e @ snd e"

definition internalBytes :: "internalEntry \<Rightarrow> bytes" where
  "internalBytes e = le_bytes 2 (length (fst e)) @ fst e @ le_bytes 8 (unat (snd e))"

definition keyOK :: "bytes \<Rightarrow> bool" where
  "keyOK k \<longleftrightarrow> 1 \<le> length k \<and> length k \<le> 2048"

definition leafOK :: "leafEntry \<Rightarrow> bool" where
  "leafOK e \<longleftrightarrow> keyOK (fst e) \<and> 4 + length (fst e) + length (snd e) \<le> 8148"

definition internalOK :: "internalEntry \<Rightarrow> bool" where
  "internalOK e \<longleftrightarrow> keyOK (fst e) \<and> snd e \<noteq> 0"

lemma checkKey_iff: "checkKey k = Inr () \<longleftrightarrow> keyOK k"
  by (auto simp: checkKey_def keyOK_def Suc_le_eq)

lemma checkKey_ok [simp]: "keyOK k \<Longrightarrow> checkKey k = Inr ()"
  by (simp add: checkKey_iff)

lemma UserData_ok: "c \<noteq> 0 \<Longrightarrow> UserData c = None"
  by simp

lemma maxes [simp]: "maxPayload = 16300" "maxLeafRecord = 8148"
  by (simp_all add: maxPayload_def maxLeafRecord_def)

lemma length_hdrBytes [simp]: "length (hdrBytes h) = 28"
  by (simp add: hdrBytes_def)

lemma length_leafBytes: "length (leafBytes e) = leafRecordSize e"
  by (simp add: leafBytes_def leafRecordSize_def)

lemma length_internalBytes: "length (internalBytes e) = internalRecordSize e"
  by (simp add: internalBytes_def internalRecordSize_def)

lemma encodeHeader_eq: "encodeHeader h = Some (hdrBytes h)"
  by (simp add: encodeHeader_def hdrBytes_def go_defs blit_def)

lemma decodeHeader_hdrBytes: "decodeHeader (hdrBytes h) = Some (Inr h)"
proof -
  have "slice (hdrBytes h) 4 8 = le_bytes 8 (unat (nhPrev h))" "slice (hdrBytes h) 12 8 = le_bytes 8 (unat (nhNext h))"
    "slice (hdrBytes h) 20 8 = le_bytes 8 (unat (nhLeftmost h))" "hdrBytes h ! 0 = 1"
    by (simp_all add: hdrBytes_def slice_def)
  then show ?thesis by (simp add: decodeHeader_def go_defs)
qed

lemma unat_len16: "n < 65536 \<Longrightarrow> unat (word_of_nat n :: u16) = n"
  by (simp add: unat_of_nat)

lemma blit_zero_prefix: "length xs = off \<Longrightarrow> length ys = length ws \<Longrightarrow> blit (xs @ ws @ zs) off ys = xs @ ys @ zs"
  by (simp add: blit_def)

lemma encodeLeafInto_eq:
  "encodeLeafInto buf k v = Some (if \<not> keyOK k then (case checkKey k of Inl e \<Rightarrow> Inl e | Inr _ \<Rightarrow> Inr [])
     else if \<not> leafOK (k, v) then Inl (New InvalidArgument ''btree.encodeLeaf'' ''record exceeds page capacity'')
     else Inr (leafBytes (k, v)))"
proof (cases "keyOK k \<and> leafOK (k, v)")
  case True
  let ?n = "4 + length k + length v"
  define b where "b = (if length buf < ?n then replicate ?n 0 else take ?n buf)"
  have lb: "length b = ?n" by (simp add: b_def)
  have sz: "length k < 65536" "length v < 65536" using True by (auto simp: leafOK_def)
  have "blit (blit (blit (blit b 0 (le_bytes 2 (length k))) 2 (le_bytes 2 (length v))) 4 k) (4 + length k) v = leafBytes (k, v)"
    using lb by (simp add: blit_def leafBytes_def)
  then show ?thesis
    using True lb sz unfolding encodeLeafInto_def Let_def b_def [symmetric]
    by (simp add: gbind_def go_defs unat_len16 leafOK_def)
next
  case False
  then show ?thesis using checkKey_iff [of k]
    by (cases "checkKey k") (auto simp: encodeLeafInto_def gbind_def leafOK_def Let_def keyOK_def checkKey_def)
qed

lemma encodeLeaf_ok: "leafOK e \<Longrightarrow> encodeLeaf (fst e) (snd e) = Some (Inr (leafBytes e))"
  by (simp add: encodeLeaf_def encodeLeafInto_eq leafOK_def)

lemma encodeLeaf_Inr: "encodeLeaf k v = Some (Inr rec) \<Longrightarrow> leafOK (k, v) \<and> rec = leafBytes (k, v)"
  using checkKey_iff [of k] by (auto simp: encodeLeaf_def encodeLeafInto_eq split: if_splits sum.splits)

lemma encodeLeaf_total: "\<exists>r. encodeLeaf k v = Some r"
  by (simp add: encodeLeaf_def encodeLeafInto_eq)

lemma decodeLeaf_leafBytes:
  assumes "leafOK e"
  shows "decodeLeaf (leafBytes e) = Some (Inr e)"
proof -
  let ?b = "leafBytes e"
  have sz: "length (fst e) < 65536" "length (snd e) < 65536" "fst e \<noteq> []" using assms by (auto simp: leafOK_def keyOK_def)
  have "slice ?b 0 2 = le_bytes 2 (length (fst e))" "slice ?b 2 2 = le_bytes 2 (length (snd e))"
    "slice ?b 4 (length (fst e)) = fst e" "slice ?b (4 + length (fst e)) (length (snd e)) = snd e"
    by (simp_all add: leafBytes_def slice_def)
  moreover have "length ?b = 4 + length (fst e) + length (snd e)" by (simp add: length_leafBytes leafRecordSize_def)
  ultimately show ?thesis using sz by (simp add: decodeLeaf_def go_defs unat_len16 Let_def)
qed

lemma encodeInternal_ok:
  assumes "internalOK e"
  shows "encodeInternal (fst e) (snd e) = Some (Inr (internalBytes e))"
proof -
  have sz: "length (fst e) < 65536" "length (fst e) \<le> 2048" using assms by (auto simp: internalOK_def keyOK_def)
  have "keyOK (fst e)" "UserData (snd e) = None" using assms by (auto simp: internalOK_def)
  then show ?thesis using sz
    by (simp add: encodeInternal_def gbind_def go_defs unat_len16 internalBytes_def blit_def del: UserData_None)
qed

lemma decodeInternal_internalBytes:
  assumes "internalOK e"
  shows "decodeInternal (internalBytes e) = Some (Inr e)"
proof -
  let ?b = "internalBytes e"
  have sz: "length (fst e) < 65536" "fst e \<noteq> []" "snd e \<noteq> 0" using assms by (auto simp: internalOK_def keyOK_def)
  have "slice ?b 0 2 = le_bytes 2 (length (fst e))" "slice ?b 2 (length (fst e)) = fst e"
    "slice ?b (2 + length (fst e)) 8 = le_bytes 8 (unat (snd e))"
    by (simp_all add: internalBytes_def slice_def)
  moreover have "length ?b = 10 + length (fst e)" by (simp add: length_internalBytes internalRecordSize_def)
  ultimately show ?thesis using sz UserData_ok [OF sz(3)] by (simp add: decodeInternal_def go_defs unat_len16 Let_def UserData_ok del: UserData_None)
qed

end
