(* ===== verification/BNodePage.thy ===== *)
theory BNodePage
  imports BNodeProps
begin

text \<open>
  A node page as a header and a multiset of entries: \<open>node_page\<close> relates the bytes to that
  view, and every page operation the tree performs is described on it.
\<close>

section \<open>Live slots\<close>

definition slotRecs :: "page \<Rightarrow> (nat \<times> bytes) list" where
  "slotRecs p = List.map_filter (\<lambda>i. map_option (Pair i) (page_map p i)) [1..<scount p]"

definition dataDom :: "page \<Rightarrow> nat set" where
  "dataDom p = {i \<in> dom (page_map p). 1 \<le> i}"

definition recsM :: "page \<Rightarrow> bytes multiset" where
  "recsM p = image_mset (\<lambda>i. the (page_map p i)) (mset_set (dataDom p))"

lemma dom_page_map: "dom (page_map p) \<subseteq> {..<scount p}"
  by (auto simp: page_map_def split: if_splits)

lemma finite_dataDom [simp]: "finite (dataDom p)"
  using dom_page_map [of p] by (auto simp: dataDom_def intro: finite_subset [of _ "{..<scount p}"])

lemma slotRecs_alt: "slotRecs p = map (\<lambda>i. (i, the (page_map p i))) (filter (\<lambda>i. page_map p i \<noteq> None) [1..<scount p])"
  by (auto simp: slotRecs_def List.map_filter_def comp_def)

lemma mset_slotRecs: "mset (map snd (slotRecs p)) = recsM p"
proof -
  have "{i. 1 \<le> i \<and> i < scount p \<and> page_map p i \<noteq> None} = dataDom p"
    using dom_page_map [of p] by (auto simp: dataDom_def)
  then have "mset (filter (\<lambda>i. page_map p i \<noteq> None) [1..<scount p]) = mset_set (dataDom p)"
    by (simp add: mset_filter filter_mset_mset_set conj_assoc flip: mset_set_upto_eq_mset_upto)
  then show ?thesis by (simp add: slotRecs_alt recsM_def comp_def)
qed

lemma slotRecs_props:
  "distinct (map fst (slotRecs p))"
  "(i, rcd) \<in> set (slotRecs p) \<longleftrightarrow> 1 \<le> i \<and> page_map p i = Some rcd"
  using dom_page_map [of p] by (auto simp: slotRecs_alt comp_def intro!: image_eqI [where x = i])

lemma scount_bound: "page_inv p \<Longrightarrow> scount p \<le> 4084"
  using page_inv_bounds [of p] by linarith

lemma SlotCount_inv: "page_inv p \<Longrightarrow> SlotCount p = Some (scount p)"
  using header_read [of p] page_inv_length [of p] by (simp add: SlotCount_def)

section \<open>Slot walks as folds\<close>

fun foldGo :: "('a \<Rightarrow> 's \<Rightarrow> 's go) \<Rightarrow> 'a list \<Rightarrow> 's \<Rightarrow> 's go" where
  "foldGo f [] s = Some (Inr s)"
| "foldGo f (x # xs) s = gbind (f x s) (foldGo f xs)"

lemma foldGo_pure: "(\<And>x s. x \<in> set xs \<Longrightarrow> f x s = Some (Inr (g x s))) \<Longrightarrow> foldGo f xs s = Some (Inr (fold g xs s))"
  by (induction xs arbitrary: s) (simp_all add: gbind_def)

lemma forEachLoop_fold:
  assumes "page_inv p" and "\<forall>i \<in> set is. i < 65536"
  shows "forEachLoop p fn is s =
    foldGo (\<lambda>(i, rcd). fn (word_of_nat i) rcd) (List.map_filter (\<lambda>i. map_option (Pair i) (page_map p i)) is) s"
  using assms(2)
proof (induction "is" arbitrary: s)
  case (Cons i "is")
  then have "unat (word_of_nat i :: u16) = i" by (simp add: unat_len16)
  then show ?case using Cons GetView_spec [OF assms(1), of "word_of_nat i"]
    by (cases "page_map p i") (auto simp: HasCode_def List.map_filter_def gbind_def split: option.splits sum.splits)
qed (simp add: List.map_filter_def)

lemma forEachSlot_fold:
  "page_inv p \<Longrightarrow> forEachSlot p fn s = foldGo (\<lambda>(i, rcd). fn (word_of_nat i) rcd) (slotRecs p) s"
  using scount_bound [of p] by (simp add: forEachSlot_def SlotCount_inv forEachLoop_fold slotRecs_def)

section \<open>The view of a node page\<close>

definition node_page :: "('e \<Rightarrow> bytes) \<Rightarrow> page \<Rightarrow> PageID \<Rightarrow> u16 \<Rightarrow> nodeHeader \<Rightarrow> 'e multiset \<Rightarrow> bool" where
  "node_page enc p pid ty hdr M \<longleftrightarrow> page_inv p \<and> page_header_ok p \<and> pageID p = Some pid \<and> pageType p = Some ty \<and>
     page_map p 0 = Some (hdrBytes hdr) \<and> recsM p = image_mset enc M"

lemma node_page_inv: "node_page enc p pid ty hdr M \<Longrightarrow> page_inv p"
  by (simp add: node_page_def)

text \<open>Pages that keep the identity of a node page.\<close>

lemma node_page_update:
  assumes "node_page enc p pid ty hdr M" and "page_inv r" and "same_header r p"
    and "page_map r 0 = Some (hdrBytes hdr')" and "recsM r = image_mset enc M'"
  shows "node_page enc r pid ty hdr' M'"
proof -
  have "same_identity r p"
    using assms page_inv_length by (auto simp: node_page_def intro: same_header_identity)
  then show ?thesis using assms same_identity_fields [of r p] by (simp add: node_page_def)
qed

lemma recsM_upd_new:
  assumes "page_map r = (page_map p)(i \<mapsto> rcd)" and "page_map p i = None" and "1 \<le> i"
  shows "recsM r = add_mset rcd (recsM p)"
proof -
  have d: "dataDom r = insert i (dataDom p)" "i \<notin> dataDom p" using assms by (auto simp: dataDom_def)
  have "image_mset (\<lambda>j. the (page_map r j)) (mset_set (dataDom p)) = recsM p"
    unfolding recsM_def using assms(1) d(2) by (intro image_mset_cong) (auto simp: elem_mset_set)
  then show ?thesis using d assms(1) by (simp add: recsM_def)
qed

lemma recsM_upd_0: "page_map r = (page_map p)(0 := x) \<Longrightarrow> recsM r = recsM p"
proof -
  assume a: "page_map r = (page_map p)(0 := x)"
  then have "dataDom r = dataDom p" by (auto simp: dataDom_def)
  moreover have "image_mset (\<lambda>i. the (page_map r i)) (mset_set (dataDom p)) = image_mset (\<lambda>i. the (page_map p i)) (mset_set (dataDom p))"
  proof (intro image_mset_cong)
    fix i assume "i \<in># mset_set (dataDom p)"
    then have "1 \<le> i" by (simp add: elem_mset_set) (simp add: dataDom_def)
    then show "the (page_map r i) = the (page_map p i)" using a by simp
  qed
  ultimately show ?thesis by (simp add: recsM_def)
qed

lemma recsM_remove:
  assumes "page_map r = (page_map p)(i := None)" and "page_map p i = Some rcd" and "1 \<le> i"
  shows "recsM p = add_mset rcd (recsM r)"
proof -
  have "page_map p = (page_map r)(i \<mapsto> rcd)" "page_map r i = None" using assms by auto
  then show ?thesis using assms(3) by (rule recsM_upd_new)
qed

lemma recsM_replace:
  assumes "page_map r = (page_map p)(i \<mapsto> rcd')" and "page_map p i = Some rcd" and "1 \<le> i"
  shows "recsM r = add_mset rcd' (recsM p - {#rcd#})"
proof -
  have d: "dataDom r = dataDom p" "i \<in> dataDom p" using assms by (auto simp: dataDom_def)
  then have m: "mset_set (dataDom p) = add_mset i (mset_set (dataDom p - {i}))"
    by (simp add: mset_set.remove)
  have "image_mset (\<lambda>j. the (page_map r j)) (mset_set (dataDom p - {i})) = image_mset (\<lambda>j. the (page_map p j)) (mset_set (dataDom p - {i}))"
    using assms(1) by (intro image_mset_cong) (auto simp: elem_mset_set)
  then show ?thesis unfolding recsM_def d(1) using m assms by simp
qed

section \<open>Size accounting\<close>

lemma live_bytes_records: "live_bytes p = (\<Sum>i\<in>dom (page_map p). length (the (page_map p i)))" if "page_inv p"
proof -
  have "snd (slotn p i) = (case page_map p i of None \<Rightarrow> 0 | Some r \<Rightarrow> length r)" if "i < scount p" for i
    using that page_inv_slot [OF \<open>page_inv p\<close> that] page_inv_length [OF \<open>page_inv p\<close>] by (auto simp: page_map_def)
  then have "live_bytes p = (\<Sum>i\<in>{..<scount p}. (case page_map p i of None \<Rightarrow> 0 | Some r \<Rightarrow> length r))"
    unfolding cum_def by (intro sum.cong) auto
  also have "\<dots> = (\<Sum>i\<in>dom (page_map p). (case page_map p i of None \<Rightarrow> 0 | Some r \<Rightarrow> length r))"
    using dom_page_map [of p] by (intro sum.mono_neutral_right) (auto simp: domIff)
  also have "\<dots> = (\<Sum>i\<in>dom (page_map p). length (the (page_map p i)))" by (intro sum.cong) auto
  finally show ?thesis .
qed

lemma node_page_live:
  assumes "node_page enc p pid ty hdr M"
  shows "live_bytes p = 28 + sum_mset (image_mset (\<lambda>e. length (enc e)) M)" and "1 + size M \<le> scount p"
proof -
  have inv: "page_inv p" and h: "page_map p 0 = Some (hdrBytes hdr)" and r: "recsM p = image_mset enc M"
    using assms by (auto simp: node_page_def)
  have d: "dom (page_map p) = insert 0 (dataDom p)" "0 \<notin> dataDom p" using h by (auto simp: dataDom_def)
  have "(\<Sum>i\<in>dataDom p. length (the (page_map p i))) = sum_mset (image_mset length (recsM p))"
    by (simp add: recsM_def sum_unfold_sum_mset image_mset.compositionality comp_def)
  then show "live_bytes p = 28 + sum_mset (image_mset (\<lambda>e. length (enc e)) M)"
    using live_bytes_records [OF inv] d h r by (simp add: image_mset.compositionality comp_def)
  have "size M = card (dataDom p)" using arg_cong [OF r, of size] by (simp add: recsM_def)
  then have "1 + size M = card (dom (page_map p))" using d by simp
  also have "\<dots> \<le> scount p" using card_mono [OF _ dom_page_map [of p]] by simp
  finally show "1 + size M \<le> scount p" .
qed

lemma node_page_room:
  assumes "node_page enc p pid ty hdr M"
  shows "48 + 4 * (1 + size M) + 28 + sum_mset (image_mset (\<lambda>e. length (enc e)) M) \<le> 16384"
  using node_page_live [OF assms] live_bytes_bound [OF node_page_inv [OF assms]] page_inv_bounds [OF node_page_inv [OF assms]]
  by auto

section \<open>Operations on node pages\<close>

lemma node_readHeader: "node_page enc p pid ty hdr M \<Longrightarrow> readHeader p = Some (Inr hdr)"
  using GetView_spec [OF node_page_inv, of enc p pid ty hdr M 0]
  by (simp add: readHeader_def node_page_def decodeHeader_hdrBytes)

lemma node_inserted:
  assumes n: "node_page enc p pid ty hdr M" and i: "inserted p i (enc e) r" and free: "page_map p i = None"
  shows "node_page enc r pid ty hdr (add_mset e M)"
proof -
  have h: "page_map p 0 = Some (hdrBytes hdr)" and rM: "recsM p = image_mset enc M" using n by (auto simp: node_page_def)
  then have "i \<noteq> 0" using free by (metis option.distinct(1))
  moreover have m: "page_map r = (page_map p)(i \<mapsto> enc e)" using i by (simp add: inserted_def)
  ultimately have "recsM r = image_mset enc (add_mset e M)" using recsM_upd_new [OF m free] rM by simp
  then show ?thesis using i h m \<open>i \<noteq> 0\<close> by (intro node_page_update [OF n]) (auto simp: inserted_def)
qed

lemma node_same: "node_page enc p pid ty hdr M \<Longrightarrow> same_contents r p \<Longrightarrow> node_page enc r pid ty hdr M"
  by (rule node_page_update) (auto simp: same_contents_def node_page_def recsM_def dataDom_def)

lemma node_insert:
  assumes "node_page enc p pid ty hdr M" and "length (enc e) \<le> 16332"
  obtains r where "pageInsert p (enc e) = Some (r, Inr (target p))" "fits p (enc e)"
      "node_page enc r pid ty hdr (add_mset e M)" "inserted p (target p) (enc e) r"
  | r where "pageInsert p (enc e) = Some (r, Inl (New PageFull ''page.Insert'' ''page is full''))" "\<not> fits p (enc e)"
      "node_page enc r pid ty hdr M"
proof (cases "fits p (enc e)")
  case True
  then obtain r where "pageInsert p (enc e) = Some (r, Inr (target p))" "inserted p (target p) (enc e) r"
    using pageInsert_spec [OF node_page_inv [OF assms(1)] assms(2)] by auto
  then show thesis using that(1) True node_inserted [OF assms(1) _ target_free] by blast
next
  case False
  then obtain r where "pageInsert p (enc e) = Some (r, Inl (New PageFull ''page.Insert'' ''page is full''))" "same_contents r p"
    using pageInsert_spec [OF node_page_inv [OF assms(1)] assms(2)] by auto
  then show thesis using that(2) False node_same [OF assms(1)] by blast
qed

lemma node_append:
  assumes "node_page enc p pid ty hdr M" and "length (enc e) \<le> 16332"
  obtains r i where "pageAppend p (enc e) = Some (r, Inr i)" "node_page enc r pid ty hdr (add_mset e M)"
  | "pageAppend p (enc e) = Some (p, Inl (New PageFull ''page.Append'' ''page is full''))"
proof -
  have "page_map p (scount p) = None" by (simp add: page_map_def)
  then show thesis
    using pageAppend_spec [OF node_page_inv [OF assms(1)] assms(2)] that node_inserted [OF assms(1)]
    by (metis (full_types))
qed

lemma node_update:
  assumes n: "node_page enc p pid ty hdr M" and s: "page_map p (unat s) = Some (enc e)" "1 \<le> unat s"
    and e: "e \<in># M"
  obtains r where "pageUpdate p s (enc e') = Some (r, Inr ())" "node_page enc r pid ty hdr (add_mset e' (M - {#e#}))"
      "48 + 4 * scount p + (live_bytes p - length (enc e)) + length (enc e') \<le> 16384"
  | "pageUpdate p s (enc e') = Some (p, Inl (New PageFull ''page.Update'' ''page is full''))"
      "48 + 4 * scount p + (live_bytes p - length (enc e)) + length (enc e') > 16384"
proof (cases "48 + 4 * scount p + (live_bytes p - length (enc e)) + length (enc e') \<le> 16384")
  case True
  then obtain r where r: "pageUpdate p s (enc e') = Some (r, Inr ())" "page_inv r" "page_map r = (page_map p)(unat s \<mapsto> enc e')"
      "same_header r p"
    using pageUpdate_spec [OF node_page_inv [OF n] s(1)] by metis
  have "recsM r = image_mset enc (add_mset e' (M - {#e#}))"
    using recsM_replace [OF r(3) s] e n by (simp add: node_page_def image_mset_Diff)
  moreover have "page_map r 0 = Some (hdrBytes hdr)" using r(3) s(2) n by (simp add: node_page_def)
  ultimately show thesis using that(1) True r node_page_update [OF n r(2,4)] by blast
next
  case False
  then show thesis using pageUpdate_spec [OF node_page_inv [OF n] s(1)] that(2) by (metis not_le)
qed

lemma node_delete:
  assumes n: "node_page enc p pid ty hdr M" and s: "page_map p (unat s) = Some (enc e)" "1 \<le> unat s"
    and e: "e \<in># M"
  shows "\<exists>r. pageDelete p s = Some (r, Inr ()) \<and> node_page enc r pid ty hdr (M - {#e#})"
proof -
  let ?r = "wslot p (unat s) 0 0"
  have i: "unat s < scount p" using s(1) page_map_Some_slot by blast
  note w = wslot_delete [OF node_page_inv [OF n] i]
  have a: "add_mset (enc e) (recsM ?r) = image_mset enc M"
    using recsM_remove [OF w(2) s] n by (simp add: node_page_def)
  have "recsM ?r = image_mset enc (M - {#e#})"
    using arg_cong [OF a, of "\<lambda>X. X - {#enc e#}"] e by (simp add: image_mset_Diff)
  moreover have "page_map ?r 0 = Some (hdrBytes hdr)" using w(2) s(2) n by (simp add: node_page_def)
  ultimately have "node_page enc ?r pid ty hdr (M - {#e#})" by (intro node_page_update [OF n w(1,5)])
  then show ?thesis using pageDelete_spec [OF node_page_inv [OF n], of s] s(1) by simp
qed

lemma node_writeHeader:
  assumes n: "node_page enc p pid ty hdr M"
  shows "\<exists>r. writeHeader p hdr' = Some (r, Inr ()) \<and> node_page enc r pid ty hdr' M"
proof -
  have h: "page_map p (unat (0 :: u16)) = Some (hdrBytes hdr)" using n by (simp add: node_page_def)
  have "48 + 4 * scount p + (live_bytes p - length (hdrBytes hdr)) + length (hdrBytes hdr') \<le> 16384"
    using node_page_live(1) [OF n] live_bytes_bound [OF node_page_inv [OF n]] page_inv_bounds [OF node_page_inv [OF n]]
    by auto
  then obtain r where r: "pageUpdate p 0 (hdrBytes hdr') = Some (r, Inr ())" "page_inv r" "page_map r = (page_map p)(0 \<mapsto> hdrBytes hdr')"
      "same_header r p"
    using pageUpdate_spec [OF node_page_inv [OF n] h, of "hdrBytes hdr'"] by auto
  have "node_page enc r pid ty hdr' M"
    using r(3) recsM_upd_0 [OF r(3)] n by (intro node_page_update [OF n r(2,4)]) (auto simp: node_page_def)
  then show ?thesis using r(1) by (simp add: writeHeader_def encodeHeader_eq)
qed

lemma node_overwrite:
  assumes "node_page enc src pid ty hdr M" and "pageID dst = Some pid"
  shows "overwrite dst src = Some (src, Inr ())"
  using assms page_inv_validates [of src] by (simp add: overwrite_def node_page_def)

section \<open>Rebuilding a page\<close>

lemma dense_target:
  assumes n: "node_page enc p pid ty hdr M" and d: "scount p = 1 + size M"
  shows "target p = scount p"
proof -
  have h: "page_map p 0 = Some (hdrBytes hdr)" and r: "recsM p = image_mset enc M" using n by (auto simp: node_page_def)
  have dom: "dom (page_map p) = insert 0 (dataDom p)" "0 \<notin> dataDom p" using h by (auto simp: dataDom_def)
  have "size M = card (dataDom p)" using arg_cong [OF r, of size] by (simp add: recsM_def)
  then have "card (dom (page_map p)) = scount p" using dom d by simp
  then have "dom (page_map p) = {..<scount p}" using dom_page_map [of p] by (intro card_subset_eq) auto
  moreover have "target p \<notin> dom (page_map p)" using target_free [of p] by auto
  moreover have "target p \<le> scount p" using free_slot_target [of p] by (auto simp: free_slot_def)
  ultimately show ?thesis by auto
qed

lemma insertRecs_build:
  assumes "node_page enc p pid ty hdr M" and "scount p = 1 + size M"
    and "\<And>e. e \<in> set es \<Longrightarrow> encf e = Some (Inr (enc e)) \<and> length (enc e) \<le> 16332"
  shows "if 48 + 4 * (1 + size M + length es) + 28 + sum_mset (image_mset (\<lambda>e. length (enc e)) M) + sum_list (map (\<lambda>e. length (enc e)) es) \<le> 16384
    then \<exists>r. insertRecs p encf es = Some (Inr r) \<and> node_page enc r pid ty hdr (M + mset es) \<and> scount r = 1 + size M + length es
    else insertRecs p encf es = Some (Inl (New PageFull ''page.Insert'' ''page is full''))"
  using assms
proof (induction es arbitrary: p M)
  case Nil
  then show ?case using node_page_room [OF Nil.prems(1)] by auto
next
  case (Cons e es)
  note e = Cons.prems(3) [OF list.set_intros(1)]
  have tgt: "target p = scount p" by (rule dense_target [OF Cons.prems(1,2)])
  have f: "fits p (enc e) \<longleftrightarrow> 48 + 4 * (2 + size M) + 28 + sum_mset (image_mset (\<lambda>e. length (enc e)) M) + length (enc e) \<le> 16384"
    using node_page_live(1) [OF Cons.prems(1)] Cons.prems(2) by (auto simp: fits_def need_def tgt)
  show ?case
  proof (cases rule: node_insert [OF Cons.prems(1), of e])
    case (2 r)
    then have i: "scount r = 1 + size (add_mset e M)" using tgt Cons.prems(2) by (simp add: inserted_def)
    have st: "insertRecs p encf (e # es) = insertRecs r encf es" using e 2(1) by (simp add: gbind_def)
    show ?thesis unfolding st using Cons.IH [OF 2(3) i] Cons.prems(3) 2(2) f by (auto simp: add_ac split: if_splits)
  next
    case (3 r)
    then show ?thesis using e f by (auto simp: gbind_def)
  qed (use e in auto)
qed

lemma initNode_new:
  assumes "Known ty"
  shows "\<exists>p r. pageNew pid ty = Some p \<and> initNode p hdr = Some (r, Inr ()) \<and> node_page enc r pid ty hdr {#} \<and> scount r = 1"
proof -
  obtain p where p: "pageNew pid ty = Some p" "page_inv p" "page_map p = Map.empty" "scount p = 0" "uppern p = 16384"
      "pageID p = Some pid" "pageType p = Some ty" "pageVersion p = Some CurrentFormatVersion" "HasMagic p 0"
    using pageNew_spec by blast
  have t: "target p = 0" using free_slot_target [of p] p(4) by (auto simp: free_slot_def)
  have lb: "live_bytes p = 0" using p(4) by simp
  have "fits p (hdrBytes hdr)" using p(4) t lb by (simp add: fits_def need_def)
  then obtain r where r: "pageInsert p (hdrBytes hdr) = Some (r, Inr 0)" "inserted p 0 (hdrBytes hdr) r"
    using pageInsert_spec [OF p(2), of "hdrBytes hdr"] t by auto
  have hdr_ok: "page_header_ok p" using p assms by (simp add: page_header_ok_def pageVersion_def pageType_def)
  have "same_identity r p" using r(2) p(2) page_inv_length by (auto simp: inserted_def intro: same_header_identity)
  moreover have m: "page_map r = [0 \<mapsto> hdrBytes hdr]" using r(2) p(3) by (simp add: inserted_def)
  moreover have "dataDom r = {}" using m by (auto simp: dataDom_def)
  ultimately have "node_page enc r pid ty hdr {#}"
    using r(2) p same_identity_fields [of r p] hdr_ok by (simp add: node_page_def inserted_def recsM_def)
  then show ?thesis using p(1,4) r SlotCount_inv [OF p(2)]
    by (intro exI [of _ p] exI [of _ r]) (simp add: initNode_def encodeHeader_eq inserted_def)
qed

section \<open>Reading the entries\<close>

text \<open>The contract of a record codec, provided by leaf and by internal records.\<close>

locale node_codec =
  fixes enc :: "'e \<Rightarrow> bytes" and dec :: "bytes \<Rightarrow> 'e go" and ok :: "'e \<Rightarrow> bool" and key :: "'e \<Rightarrow> bytes"
  assumes dec_enc: "ok e \<Longrightarrow> dec (enc e) = Some (Inr e)"
    and enc_size: "ok e \<Longrightarrow> length (enc e) \<le> 16332"
begin

lemma enc_inj: "ok a \<Longrightarrow> ok b \<Longrightarrow> enc a = enc b \<Longrightarrow> a = b"
  by (metis dec_enc option.inject sum.inject(2))

lemma walk:
  assumes n: "node_page enc p pid ty hdr M" and ok: "\<forall>e \<in># M. ok e"
  obtains ies where "slotRecs p = map (\<lambda>(i, e). (i, enc e)) ies" "mset (map snd ies) = M"
    "distinct (map fst ies)" "\<And>i e. (i, e) \<in> set ies \<Longrightarrow> 1 \<le> i \<and> i < 65536 \<and> page_map p i = Some (enc e) \<and> ok e"
proof -
  define d where "d r = (case dec r of Some (Inr e) \<Rightarrow> e | _ \<Rightarrow> undefined)" for r
  define ies where "ies = map (\<lambda>x. (fst x, d (snd x))) (slotRecs p)"
  have de: "d (enc e) = e" if "ok e" for e using dec_enc [OF that] by (simp add: d_def)
  have m: "mset (map snd (slotRecs p)) = image_mset enc M"
    using n by (simp only: mset_slotRecs node_page_def)
  have e: "enc (d (snd x)) = snd x \<and> ok (d (snd x))" if "x \<in> set (slotRecs p)" for x
  proof -
    have "snd x \<in> set_mset (mset (map snd (slotRecs p)))" using that by auto
    then obtain e where "e \<in># M" "snd x = enc e" unfolding m by auto
    then show ?thesis using ok de by auto
  qed
  have "slotRecs p = map (\<lambda>(i, e). (i, enc e)) ies"
    unfolding ies_def map_map by (rule sym, rule map_idI) (simp add: e)
  moreover have "mset (map snd ies) = image_mset d (mset (map snd (slotRecs p)))"
    by (simp add: ies_def comp_def image_mset.compositionality)
  then have "mset (map snd ies) = M" unfolding m using ok de
    by (simp add: image_mset.compositionality comp_def cong: image_mset_cong)
  moreover have "distinct (map fst ies)" using slotRecs_props(1) [of p] by (simp add: ies_def comp_def)
  moreover have "1 \<le> i \<and> i < 65536 \<and> page_map p i = Some (enc f) \<and> ok f" if mem: "(i, f) \<in> set ies" for i f
  proof -
    obtain x where r: "x \<in> set (slotRecs p)" "i = fst x" "f = d (snd x)" using mem unfolding ies_def by fastforce
    then have x: "(i, snd x) \<in> set (slotRecs p)" by simp
    then have "i < scount p" using slotRecs_props(2) [of i "snd x" p] page_map_Some_slot by blast
    then show ?thesis using r(3) e [OF r(1)] slotRecs_props(2) [THEN iffD1, OF x] scount_bound [OF node_page_inv [OF n]] by auto
  qed
  ultimately show thesis by (rule that)
qed

lemma walk_fold_ex:
  assumes n: "node_page enc p pid ty hdr M" and ok: "\<forall>e \<in># M. ok e"
    and fn: "\<forall>i e s. ok e \<longrightarrow> fn i (enc e) s = Some (Inr (g i e s))"
  shows "\<exists>ies. forEachSlot p fn s = Some (Inr (fold (\<lambda>(i, e). g (word_of_nat i) e) ies s)) \<and> mset (map snd ies) = M \<and>
    (\<forall>i e. (i, e) \<in> set ies \<longrightarrow> 1 \<le> i \<and> i < 65536 \<and> page_map p i = Some (enc e) \<and> ok e)"
proof -
  obtain ies where ies: "slotRecs p = map (\<lambda>(i, e). (i, enc e)) ies" "mset (map snd ies) = M"
    "distinct (map fst ies)" "\<And>i e. (i, e) \<in> set ies \<Longrightarrow> 1 \<le> i \<and> i < 65536 \<and> page_map p i = Some (enc e) \<and> ok e"
    using walk [OF n ok] by blast
  have "forEachSlot p fn s = foldGo (\<lambda>(i, rcd). fn (word_of_nat i) rcd) (map (\<lambda>(i, e). (i, enc e)) ies) s"
    using forEachSlot_fold [OF node_page_inv [OF n]] ies(1) by simp
  also have "\<dots> = Some (Inr (fold (\<lambda>(i, e). g (word_of_nat i) e) ies s))"
  proof -
    have "\<forall>x \<in> set ies. ok (snd x)" using ies(4) by auto
    then show ?thesis by (induction ies arbitrary: s) (auto simp: gbind_def fn)
  qed
  finally show ?thesis using ies(2,4) by blast
qed

end

interpretation leafC: node_codec leafBytes decodeLeaf leafOK fst
  by unfold_locales (simp_all add: decodeLeaf_leafBytes length_leafBytes leafRecordSize_def leafOK_def)

interpretation intC: node_codec internalBytes decodeInternal internalOK fst
  by unfold_locales (auto simp: decodeInternal_internalBytes length_internalBytes internalRecordSize_def internalOK_def keyOK_def)

end
