(* ===== verification/BNodeSpec.thy ===== *)
theory BNodeSpec
  imports BNodePage
begin

text \<open>
  What the node operations of the tree compute on a leaf or an internal page: the sorted
  entries, the slot of a key, the maximal key, and the page rebuilt from a list of entries.
\<close>

abbreviation leaf_page :: "page \<Rightarrow> PageID \<Rightarrow> nodeHeader \<Rightarrow> leafEntry multiset \<Rightarrow> bool" where
  "leaf_page p pid hdr M \<equiv> node_page leafBytes p pid PageTypeBTreeLeaf hdr M"

abbreviation internal_page :: "page \<Rightarrow> PageID \<Rightarrow> nodeHeader \<Rightarrow> internalEntry multiset \<Rightarrow> bool" where
  "internal_page p pid hdr M \<equiv> node_page internalBytes p pid PageTypeBTreeInternal hdr M"

section \<open>Sorting by key\<close>

definition keysorted :: "(bytes \<times> 'b) list \<Rightarrow> bool" where
  "keysorted es \<longleftrightarrow> sorted_wrt (<) (map fst es)"

lemma keysorted_distinct: "keysorted es \<Longrightarrow> distinct (map fst es)"
  by (simp add: keysorted_def strict_sorted_iff)

lemma keysorted_simps [simp]:
  "keysorted []" "keysorted (e # es) \<longleftrightarrow> (\<forall>x \<in> set es. fst e < fst x) \<and> keysorted es"
  by (auto simp: keysorted_def)

lemma keysorted_append: "keysorted (xs @ ys) \<longleftrightarrow> keysorted xs \<and> keysorted ys \<and> (\<forall>x \<in> set xs. \<forall>y \<in> set ys. fst x < fst y)"
  by (auto simp: keysorted_def sorted_wrt_append)

lemma insertionSort_keysorted:
  assumes "mset xs = mset es" and "keysorted es"
  shows "insertionSort (\<lambda>a b. compare (fst a) (fst b) < 0) xs = es"
proof -
  let ?s = "insertionSort (\<lambda>a b. fst a < fst b) xs"
  have m: "mset ?s = mset es" using assms(1) by simp
  have "sorted (map fst ?s)" using sorted_insertionSort [of fst xs] by (simp add: sorted_wrt_map)
  moreover have "mset (map fst ?s) = mset (map fst es)" unfolding mset_map m ..
  then have "distinct (map fst ?s)" using keysorted_distinct [OF assms(2)] mset_eq_imp_distinct_iff by blast
  moreover have "sorted (map fst es)" "distinct (map fst es)" using assms(2) by (auto simp: keysorted_def strict_sorted_iff)
  moreover have "set ?s = set es" using m by (metis set_mset_mset)
  ultimately have "?s = es" by (intro map_sorted_distinct_set_unique [of fst]) (auto simp: distinct_map)
  then show ?thesis by simp
qed

section \<open>Collecting entries\<close>

lemma fold_snoc_snd: "fold (\<lambda>(i, e) s. s @ [e]) ies s = s @ map snd ies"
  by (induction ies arbitrary: s) auto

lemma leaf_collect:
  assumes n: "leaf_page p pid hdr (mset es)" and ok: "\<forall>e \<in> set es. leafOK e" and s: "keysorted es"
  shows "collectLeaves p = Some (Inr es)"
proof -
  let ?fn = "\<lambda>sl rcd ents. do { r \<leftarrow> decodeLeaf rcd; case r of Inl err \<Rightarrow> leafViewErr p sl err | Inr kv \<Rightarrow> Some (Inr (ents @ [kv])) }"
  have fn: "\<forall>i e s. leafOK e \<longrightarrow> ?fn i (leafBytes e) s = Some (Inr (s @ [e]))" by (simp add: decodeLeaf_leafBytes)
  obtain ies :: "(nat \<times> leafEntry) list" where "forEachSlot p ?fn [] = Some (Inr (fold (\<lambda>(i, e) s. s @ [e]) ies []))" "mset (map snd ies) = mset es"
    using leafC.walk_fold_ex [where fn = ?fn and g = "\<lambda>_ e s. s @ [e]" and s = "[]", OF n ok [folded set_mset_mset] fn] by blast
  then show ?thesis using insertionSort_keysorted [OF _ s]
    by (simp add: collectLeaves_def collectLeafViews_def gbind_def fold_snoc_snd sortLeaves_def)
qed

lemma internal_collect:
  assumes n: "internal_page p pid hdr (mset es)" and ok: "\<forall>e \<in> set es. internalOK e" and s: "keysorted es"
  shows "collectInternals p = Some (Inr es)"
proof -
  let ?fn = "\<lambda>(_ :: u16) rcd ents. gbind (decodeInternal rcd) (\<lambda>kc. Some (Inr (ents @ [kc])))"
  have fn: "\<forall>i e s. internalOK e \<longrightarrow> ?fn i (internalBytes e) s = Some (Inr (s @ [e]))" by (simp add: decodeInternal_internalBytes gbind_def)
  obtain ies :: "(nat \<times> internalEntry) list" where "forEachSlot p ?fn [] = Some (Inr (fold (\<lambda>(i, e) s. s @ [e]) ies []))" "mset (map snd ies) = mset es"
    using intC.walk_fold_ex [where fn = ?fn and g = "\<lambda>_ e s. s @ [e]" and s = "[]", OF n ok [folded set_mset_mset] fn] by blast
  then show ?thesis using insertionSort_keysorted [OF _ s]
    by (simp add: collectInternals_def gbind_def fold_snoc_snd sortInternals_def)
qed

section \<open>The maximal key\<close>

lemma maxStep_Some: "maxStep k (Some m) = Some (max m k)"
  by (auto simp: maxStep_def max_def)

lemma maxStep_fold:
  "fold (\<lambda>(i, e). maxStep (fst e)) ies (Some m) = Some (Max (insert m (fst ` snd ` set ies)))"
proof (induction ies arbitrary: m)
  case (Cons x ies)
  have "fold (\<lambda>(i, e). maxStep (fst e)) (x # ies) (Some m) = Some (Max (insert (max m (fst (snd x))) (fst ` snd ` set ies)))"
    using Cons [of "max m (fst (snd x))"] by (cases x) (simp add: maxStep_Some)
  also have "Max (insert (max m (fst (snd x))) (fst ` snd ` set ies)) = Max (insert m (fst ` snd ` set (x # ies)))"
    by (cases "ies = []") (auto simp: max.assoc)
  finally show ?case .
qed simp

lemma maxStep_fold_None:
  "fold (\<lambda>(i, e). maxStep (fst e)) ies None = (if ies = [] then None else Some (Max (fst ` snd ` set ies)))"
  by (cases ies) (auto simp: maxStep_def [of _ None] maxStep_fold split: prod.splits)

lemma keysorted_Max: "keysorted es \<Longrightarrow> es \<noteq> [] \<Longrightarrow> Max (fst ` set es) = fst (last es)"
proof (rule Max_eqI)
  assume s: "keysorted es" and ne: "es \<noteq> []"
  fix y assume "y \<in> fst ` set es"
  then show "y \<le> fst (last es)" using s ne
    by (cases es rule: rev_cases) (auto simp: keysorted_append)
qed auto

lemma leaf_max:
  assumes n: "leaf_page p pid hdr (mset es)" and ok: "\<forall>e \<in> set es. leafOK e" and s: "keysorted es"
  shows "maxLeafKey p = Some (Inr (if es = [] then None else Some (fst (last es))))"
proof -
  let ?fn = "\<lambda>(_ :: u16) rcd m. gbind (decodeLeaf rcd) (\<lambda>(k, _). Some (Inr (maxStep k m)))"
  have fn: "\<forall>i e s. leafOK e \<longrightarrow> ?fn i (leafBytes e) s = Some (Inr (maxStep (fst e) s))" by (simp add: decodeLeaf_leafBytes gbind_def case_prod_beta)
  obtain ies :: "(nat \<times> leafEntry) list" where w: "forEachSlot p ?fn None = Some (Inr (fold (\<lambda>(i, e). maxStep (fst e)) ies None))" "mset (map snd ies) = mset es"
    using leafC.walk_fold_ex [where fn = ?fn and g = "\<lambda>_ e. maxStep (fst e)" and s = None, OF n ok [folded set_mset_mset] fn] by blast
  have st: "snd ` set ies = set es" using arg_cong [OF w(2), of set_mset] by simp
  show ?thesis using w(1) st keysorted_Max [OF s] by (auto simp: maxLeafKey_def maxStep_fold_None)
qed

lemma internal_max:
  assumes n: "internal_page p pid hdr (mset es)" and ok: "\<forall>e \<in> set es. internalOK e" and s: "keysorted es"
  shows "maxInternalKey p = Some (Inr (if es = [] then None else Some (fst (last es))))"
proof -
  let ?fn = "\<lambda>(_ :: u16) rcd m. gbind (decodeInternal rcd) (\<lambda>(k, _). Some (Inr (maxStep k m)))"
  have fn: "\<forall>i e s. internalOK e \<longrightarrow> ?fn i (internalBytes e) s = Some (Inr (maxStep (fst e) s))" by (simp add: decodeInternal_internalBytes gbind_def case_prod_beta)
  obtain ies :: "(nat \<times> internalEntry) list" where w: "forEachSlot p ?fn None = Some (Inr (fold (\<lambda>(i, e). maxStep (fst e)) ies None))" "mset (map snd ies) = mset es"
    using intC.walk_fold_ex [where fn = ?fn and g = "\<lambda>_ e. maxStep (fst e)" and s = None, OF n ok [folded set_mset_mset] fn] by blast
  have st: "snd ` set ies = set es" using arg_cong [OF w(2), of set_mset] by simp
  show ?thesis using w(1) st keysorted_Max [OF s] by (auto simp: maxInternalKey_def maxStep_fold_None)
qed

section \<open>The slot of a key\<close>

lemma slot_fold_None:
  "\<forall>x \<in> set ies. fst (snd x) \<noteq> key \<Longrightarrow> fold (\<lambda>(i, e) f. if fst e = key then Some (g i, snd e) else f) ies f0 = f0"
  by (induction ies arbitrary: f0) (auto split: prod.splits)

lemma slot_fold:
  assumes "distinct (map (fst \<circ> snd) ies)" and "(i, e) \<in> set ies" and "fst e = key"
  shows "fold (\<lambda>(i, e) f. if fst e = key then Some (g i, snd e) else f) ies f0 = Some (g i, snd e)"
proof -
  obtain xs ys where x: "ies = xs @ (i, e) # ys" using assms(2) by (meson split_list)
  then have "\<forall>y \<in> set ys. fst (snd y) \<noteq> key" using assms(1,3) by force
  then show ?thesis using x assms(3) by (simp add: slot_fold_None)
qed

lemma leaf_find:
  assumes n: "leaf_page p pid hdr (mset es)" and ok: "\<forall>e \<in> set es. leafOK e" and d: "distinct (map fst es)"
  shows "(\<exists>s v. findLeafSlot p key = Some (Inr (Some (s, v))) \<and> (key, v) \<in> set es \<and> 1 \<le> unat s \<and> page_map p (unat s) = Some (leafBytes (key, v))) \<or>
    (findLeafSlot p key = Some (Inr None) \<and> key \<notin> fst ` set es)"
proof -
  let ?fn = "\<lambda>s rcd f. gbind (decodeLeaf rcd) (\<lambda>(k, v). Some (Inr (if compare k key = 0 then Some (s, v) else f)))"
  have fn: "\<forall>i e f. leafOK e \<longrightarrow> ?fn i (leafBytes e) f = Some (Inr (if fst e = key then Some (i, snd e) else f))" by (simp add: decodeLeaf_leafBytes gbind_def case_prod_beta)
  obtain ies :: "(nat \<times> leafEntry) list" where w: "findLeafSlot p key = Some (Inr (fold (\<lambda>(i, e) f. if fst e = key then Some (word_of_nat i, snd e) else f) ies None))"
      "mset (map snd ies) = mset es" "\<And>i e. (i, e) \<in> set ies \<Longrightarrow> 1 \<le> i \<and> i < 65536 \<and> page_map p i = Some (leafBytes e) \<and> leafOK e"
    using leafC.walk_fold_ex [where fn = ?fn and g = "\<lambda>i e f. if fst e = key then Some (i, snd e) else f" and s = None, OF n ok [folded set_mset_mset] fn] unfolding findLeafSlot_def by blast
  have "mset (map fst es) = mset (map (fst \<circ> snd) ies)" using w(2) by (metis map_map mset_map)
  then have dk: "distinct (map (fst \<circ> snd) ies)" using d mset_eq_imp_distinct_iff by blast
  have M: "set es = snd ` set ies" using arg_cong [OF w(2), of set_mset] by simp
  show ?thesis
  proof (cases "key \<in> fst ` set es")
    case True
    then obtain i e where ie: "(i, e) \<in> set ies" "fst e = key" using M by auto
    have "findLeafSlot p key = Some (Inr (Some (word_of_nat i, snd e)))"
      unfolding w(1) slot_fold [OF dk ie] ..
    moreover have "e \<in> set es" using ie(1) M by force
    ultimately show ?thesis using w(3) [OF ie(1)] ie(2) by (auto simp: unat_len16 intro!: exI [of _ "word_of_nat i"])
  next
    case False
    then have "\<forall>x \<in> set ies. fst (snd x) \<noteq> key" using M by auto
    then show ?thesis unfolding w(1) using False by (simp add: slot_fold_None)
  qed
qed

section \<open>Finding the place\<close>

lemma findLeafFrom_spec:
  assumes "keysorted es"
  shows "findLeafFrom n es key = (n + length (takeWhile (\<lambda>e. fst e < key) es), key \<in> fst ` set es)"
  using assms by (induction n es key rule: findLeafFrom.induct) (auto simp: Let_def dest: order.strict_trans)

lemma findLeaf_spec: "keysorted es \<Longrightarrow> findLeaf es key = (length (takeWhile (\<lambda>e. fst e < key) es), key \<in> fst ` set es)"
  by (simp add: findLeaf_def findLeafFrom_spec)

lemma childLoop_split:
  assumes "\<forall>x \<in> set xs. fst x \<le> key" and "\<forall>y \<in> set ys. key < fst y"
  shows "childLoop c (xs @ ys) key = (if xs = [] then c else snd (last xs))"
  using assms by (induction xs arbitrary: c) (cases ys; auto)+

section \<open>Rebuilding\<close>

lemma rebuildLeaf_spec:
  assumes "\<forall>e \<in> set es. leafOK e"
  shows "if leafPageBytes es \<le> 16384 then \<exists>r. rebuildLeaf pid hdr es = Some (Inr r) \<and> leaf_page r pid hdr (mset es)
    else rebuildLeaf pid hdr es = Some (Inl (New PageFull ''page.Insert'' ''page is full''))"
proof -
  obtain p q where p: "pageNew pid PageTypeBTreeLeaf = Some p" "initNode p hdr = Some (q, Inr ())"
      "leaf_page q pid hdr {#}" "scount q = 1"
    using initNode_new [of PageTypeBTreeLeaf pid hdr leafBytes] by (auto simp: Known_def)
  have "(case e of (k, v) \<Rightarrow> encodeLeaf k v) = Some (Inr (leafBytes e)) \<and> length (leafBytes e) \<le> 16332" if "e \<in> set es" for e
    using assms that encodeLeaf_ok [of e] leafC.enc_size [of e] by (auto simp: case_prod_beta)
  from insertRecs_build [OF p(3) _ this, of es] show ?thesis using p
    by (auto simp: rebuildLeaf_def leafPageBytes_def length_leafBytes comp_def add_ac split: if_splits)
qed

lemma rebuildInternal_spec:
  assumes "\<forall>e \<in> set es. internalOK e"
  shows "if internalPageBytes es \<le> 16384 then \<exists>r. rebuildInternal pid hdr es = Some (Inr r) \<and> internal_page r pid hdr (mset es)
    else rebuildInternal pid hdr es = Some (Inl (New PageFull ''page.Insert'' ''page is full''))"
proof -
  obtain p q where p: "pageNew pid PageTypeBTreeInternal = Some p" "initNode p hdr = Some (q, Inr ())"
      "internal_page q pid hdr {#}" "scount q = 1"
    using initNode_new [of PageTypeBTreeInternal pid hdr internalBytes] by (auto simp: Known_def)
  have "(case e of (k, c) \<Rightarrow> encodeInternal k c) = Some (Inr (internalBytes e)) \<and> length (internalBytes e) \<le> 16332" if "e \<in> set es" for e
    using assms that encodeInternal_ok [of e] intC.enc_size [of e] by (auto simp: case_prod_beta)
  from insertRecs_build [OF p(3) _ this, of es] show ?thesis using p
    by (auto simp: rebuildInternal_def internalPageBytes_def length_internalBytes comp_def add_ac split: if_splits)
qed

end
