(* ===== verification/BTreeWp.thy ===== *)
theory BTreeWp
  imports BTree BNodeSpec
begin

text \<open>
  Reasoning about the tree procedures: a total weakest precondition for procedures (the procedure
  returns, it does not panic, and its outcome satisfies the postcondition), and what the page
  accesses, the allocator and the metadata updates of the tree do to its state.
\<close>

section \<open>Weakest preconditions\<close>

definition wp :: "('s, 'a) proc \<Rightarrow> ('a res \<Rightarrow> 's \<Rightarrow> bool) \<Rightarrow> 's \<Rightarrow> bool" where
  "wp m Q s = (case m s of None \<Rightarrow> False | Some (s', r) \<Rightarrow> Q r s')"

named_theorems wp_simps \<open>weakest preconditions\<close>

lemma wp_iff: "wp m Q s \<longleftrightarrow> (\<exists>s' r. m s = Some (s', r) \<and> Q r s')"
  by (auto simp: wp_def split: option.splits)

lemma wp_basic [wp_simps]:
  "wp (pret x) Q s = Q (Inr x) s"
  "wp (pfail e) Q s = Q (Inl e) s"
  "wp (pget f) Q s = Q (Inr (f s)) s"
  "wp (pgo (Some r)) Q s = Q r s"
  "wp (pgo None) Q s = False"
  by (simp_all add: wp_def pret_def pfail_def pget_def pgo_def)

lemma wp_pmodify [wp_simps]: "wp (pmodify h) Q s = Q (Inr ()) (h s)"
  by (simp add: wp_def pmodify_def)

definition andThen :: "('a \<Rightarrow> ('s, 'b) proc) \<Rightarrow> ('b res \<Rightarrow> 's \<Rightarrow> bool) \<Rightarrow> 'a res \<Rightarrow> 's \<Rightarrow> bool" where
  "andThen f Q r s = (case r of Inl e \<Rightarrow> Q (Inl e) s | Inr x \<Rightarrow> wp (f x) Q s)"

lemma andThen_simps [wp_simps]: "andThen f Q (Inl e) s = Q (Inl e) s" "andThen f Q (Inr x) s = wp (f x) Q s"
  by (simp_all add: andThen_def)

lemma wp_pbind [wp_simps]: "wp (pbind m f) Q s = wp m (andThen f Q) s"
  by (simp add: wp_def pbind_def andThen_def [abs_def] split: option.splits sum.splits)

definition eitherWay :: "('a res \<Rightarrow> ('s, 'b) proc) \<Rightarrow> ('b res \<Rightarrow> 's \<Rightarrow> bool) \<Rightarrow> 'a res \<Rightarrow> 's \<Rightarrow> bool" where
  "eitherWay f Q r s = wp (f r) Q s"

lemma eitherWay_simps [wp_simps]: "eitherWay f Q (Inl e) s = wp (f (Inl e)) Q s" "eitherWay f Q (Inr x) s = wp (f (Inr x)) Q s"
  by (simp_all add: eitherWay_def)

lemma wp_ptry [wp_simps]: "wp (ptry m f) Q s = wp m (eitherWay f Q) s"
  by (simp add: wp_def ptry_def eitherWay_def [abs_def] split: option.splits)

lemma wp_if [wp_simps]: "wp (if b then m else n) Q s = (if b then wp m Q s else wp n Q s)"
  by simp

lemma wp_mono: "wp m Q s \<Longrightarrow> (\<And>r s'. Q r s' \<Longrightarrow> R r s') \<Longrightarrow> wp m R s"
  by (auto simp: wp_iff)

text \<open>Using what is known of a call.\<close>

lemma wp_call: "wp m Q s \<Longrightarrow> (\<And>r s'. Q r s' \<Longrightarrow> R r s') \<Longrightarrow> wp m R s"
  by (rule wp_mono)

lemma wp_run: "m s = Some (s', r) \<Longrightarrow> wp m Q s = Q r s'"
  by (simp add: wp_def)

section \<open>Pages of a tree\<close>

abbreviation pg :: "Tree \<Rightarrow> PageID \<Rightarrow> page res" where
  "pg t \<equiv> epages (eng t)"

definition touch :: "PageID \<Rightarrow> Tree \<Rightarrow> Tree" where
  "touch pid t = t\<lparr>eng := (eng t)\<lparr>cached := insert pid (cached (eng t))\<rparr>\<rparr>"

definition setPage :: "PageID \<Rightarrow> page \<Rightarrow> Tree \<Rightarrow> Tree" where
  "setPage pid p t = t\<lparr>eng := (eng t)\<lparr>epages := (epages (eng t))(pid := Inr p)\<rparr>\<rparr>"

lemma touch_sel [simp]:
  "pg (touch pid t) = pg t" "root (touch pid t) = root t" "height (touch pid t) = height t" "tmeta (touch pid t) = tmeta t"
  "hintRight (touch pid t) = hintRight t" "hintMax (touch pid t) = hintMax t" "hintParent (touch pid t) = hintParent t"
  "ealloc (eng (touch pid t)) = ealloc (eng t)" "cached (eng (touch pid t)) = insert pid (cached (eng t))"
  "crash (eng (touch pid t)) = crash (eng t)" "liveRows (touch pid t) = liveRows t" "liveKnown (touch pid t) = liveKnown t"
  by (simp_all add: touch_def)

lemma setPage_sel [simp]:
  "pg (setPage pid p t) = (pg t)(pid := Inr p)" "root (setPage pid p t) = root t" "height (setPage pid p t) = height t"
  "tmeta (setPage pid p t) = tmeta t" "hintRight (setPage pid p t) = hintRight t" "hintMax (setPage pid p t) = hintMax t"
  "hintParent (setPage pid p t) = hintParent t" "ealloc (eng (setPage pid p t)) = ealloc (eng t)"
  "cached (eng (setPage pid p t)) = cached (eng t)" "crash (eng (setPage pid p t)) = crash (eng t)"
  "liveRows (setPage pid p t) = liveRows t" "liveKnown (setPage pid p t) = liveKnown t"
  by (simp_all add: setPage_def)

lemma wp_pin [wp_simps]:
  assumes "pid \<noteq> 0" and "pg t pid = Inr p"
  shows "wp (pin pid) Q t = Q (Inr pid) (touch pid t)"
  using assms by (simp add: wp_def pin_def onEng_def EngPin_def touch_def UserData_def IsSuperblock_def)

lemma wp_pageOf [wp_simps]: "pg t pid = Inr p \<Longrightarrow> wp (pageOf pid) Q t = Q (Inr p) t"
  by (simp add: wp_def onEng_def hpage_def)

lemma wp_pageDo [wp_simps]:
  "pg t pid = Inr p \<Longrightarrow> f p = Some (p', r) \<Longrightarrow> wp (pageDo pid f) Q t = Q r (setPage pid p' t)"
  by (simp add: wp_def onEng_def hdo_def setPage_def)

lemma wp_pgo_eq: "g = Some r \<Longrightarrow> wp (pgo g) Q s = Q r s"
  by (simp add: wp_simps)

text \<open>No crash is armed at a split.\<close>

definition calm :: "Tree \<Rightarrow> bool" where
  "calm t \<longleftrightarrow> (case crash (eng t) of None \<Rightarrow> True | Some i \<Rightarrow> fired i \<or> point i \<noteq> PointDuringSplit)"

lemma calm_sel [simp]: "calm (touch pid t) = calm t" "calm (setPage pid p t) = calm t"
  by (simp_all add: calm_def)

lemma wp_CrashAt [wp_simps]: "calm t \<Longrightarrow> wp (onEng (CrashAt PointDuringSplit)) Q t = Q (Inr ()) t"
proof -
  assume "calm t"
  then have "Hit PointDuringSplit (crash (eng t)) = (crash (eng t), Inr ())" by (auto simp: Hit_def calm_def split: option.splits)
  then show ?thesis by (simp add: wp_def onEng_def CrashAt_def)
qed

section \<open>Allocation\<close>

text \<open>The page numbers handed out and not free, and the discipline that ties the allocator, its
  mirror in the superblock and the buffer pool together.\<close>

definition alive :: "Engine \<Rightarrow> PageID set" where
  "alive e = {c. c \<noteq> 0 \<and> c < anext (ealloc e) \<and> c \<notin> set (free (ealloc e))}"

definition eng_ok :: "Engine \<Rightarrow> bool" where
  "eng_ok e \<longleftrightarrow> distinct (free (ealloc e)) \<and> fset (ealloc e) = set (free (ealloc e)) \<and>
     (\<forall>c \<in> set (free (ealloc e)). c \<noteq> 0 \<and> c < anext (ealloc e)) \<and> cached e \<subseteq> alive e \<and> anext (ealloc e) \<noteq> 0 \<and>
     NextPageID (sb (afile (ealloc e))) = anext (ealloc e)"

definition room :: "nat \<Rightarrow> Engine \<Rightarrow> bool" where
  "room n e \<longleftrightarrow> n \<le> length (free (ealloc e)) \<or> (capPages (ealloc e) = 0 \<and> unat (anext (ealloc e)) + n < 2 ^ 64)"

text \<open>What a run leaves alone in the rest of the engine.\<close>

definition eng_keeps :: "Engine \<Rightarrow> Engine \<Rightarrow> bool" where
  "eng_keeps e e' \<longleftrightarrow> crash e' = crash e \<and> EngPrimaryTree e' = EngPrimaryTree e"

lemma AllocPage_ok:
  assumes e: "eng_ok e" and "room (Suc n) e"
  obtains a pid where "AllocPage ahead (ealloc e) = Some (a, Inr pid)" "pid \<notin> alive e" "pid \<notin> cached e" "pid \<noteq> 0"
    "distinct (free a)" "fset a = set (free a)" "\<forall>c \<in> set (free a). c \<noteq> 0 \<and> c < anext a"
    "{c. c \<noteq> 0 \<and> c < anext a \<and> c \<notin> set (free a)} = insert pid (alive e)" "anext a \<noteq> 0" "NextPageID (sb (afile a)) = anext a"
    "n \<le> length (free a) \<or> (capPages a = 0 \<and> unat (anext a) + n < 2 ^ 64)" "PrimaryTree (afile a) = PrimaryTree (afile (ealloc e))"
proof (cases "free (ealloc e)" rule: rev_cases)
  case (snoc fs pid)
  let ?a = "mirror ((ealloc e)\<lparr>free := butlast (free (ealloc e)), fset := fset (ealloc e) - {pid}, dirty := True\<rparr>)"
  have "AllocPage ahead (ealloc e) = Some (?a, Inr pid)" by (simp add: AllocPage_def snoc Let_def)
  then show thesis by (rule that)
    (use e snoc assms(2) in \<open>auto simp: eng_ok_def alive_def room_def mirror_def SetAllocStateMem_def PrimaryTree_def\<close>)
next
  case Nil
  let ?n = "anext (ealloc e)"
  have c: "capPages (ealloc e) = 0" "unat ?n + Suc n < 2 ^ 64" using assms(2) Nil by (auto simp: room_def)
  have n1: "unat (?n + 1) = unat ?n + 1" using c(2) by (simp add: unat_word_ariths)
  have lt: "x < ?n + 1 \<longleftrightarrow> x = ?n \<or> x < ?n" for x by (auto simp: word_less_nat_alt n1 less_Suc_eq word_unat_eq_iff)
  have nz: "?n + 1 \<noteq> 0" using n1 by (metis Suc_eq_plus1 nat.distinct(1) unat_0)
  let ?a0 = "(ealloc e)\<lparr>anext := ?n + 1\<rparr>"
  let ?a1 = "if ?n = FirstAllocPageID \<or> ?n mod 1024 = 0 then ?a0\<lparr>afile := EnsureCapacity ahead (anext ?a0) (afile ?a0)\<rparr> else ?a0"
  have "AllocPage ahead (ealloc e) = Some (mirror (?a1\<lparr>dirty := True\<rparr>), Inr ?n)"
    using e c(1) by (simp add: AllocPage_def Nil Let_def eng_ok_def UserData_def IsSuperblock_def)
  then show thesis by (rule that)
    (use e Nil c n1 in \<open>auto simp: eng_ok_def alive_def mirror_def SetAllocStateMem_def PrimaryTree_def EnsureCapacity_def lt nz\<close>)
qed

lemma NewPage_ok:
  assumes e: "eng_ok (eng t)" and r: "room (Suc n) (eng t)" and k: "Known typ" "typ \<noteq> PageTypeSuperblock"
  obtains e' pid p where "onEng (NewPage typ) t = Some (t\<lparr>eng := e'\<rparr>, Inr pid)" "pageNew pid typ = Some p"
    "epages e' = (pg t)(pid := Inr p)" "pid \<notin> alive (eng t)" "pid \<noteq> 0" "alive e' = insert pid (alive (eng t))"
    "eng_ok e'" "room n e'" "eng_keeps (eng t) e'"
proof -
  obtain a pid where a: "AllocPage (capacityAhead (eng t)) (ealloc (eng t)) = Some (a, Inr pid)" "pid \<notin> alive (eng t)"
    "pid \<notin> cached (eng t)" "pid \<noteq> 0" "distinct (free a)" "fset a = set (free a)" "\<forall>c \<in> set (free a). c \<noteq> 0 \<and> c < anext a"
    "{c. c \<noteq> 0 \<and> c < anext a \<and> c \<notin> set (free a)} = insert pid (alive (eng t))" "anext a \<noteq> 0" "NextPageID (sb (afile a)) = anext a"
    "n \<le> length (free a) \<or> (capPages a = 0 \<and> unat (anext a) + n < 2 ^ 64)" "PrimaryTree (afile a) = PrimaryTree (afile (ealloc (eng t)))"
    using AllocPage_ok [OF e r, of "capacityAhead (eng t)"] by blast
  obtain p where p: "pageNew pid typ = Some p" using pageNew_spec by blast
  let ?e = "(eng t)\<lparr>ealloc := a, epages := (pg t)(pid := Inr p), cached := insert pid (cached (eng t))\<rparr>"
  have al: "alive ?e = insert pid (alive (eng t))" using a(8) by (simp add: alive_def)
  have "onEng (NewPage typ) t = Some (t\<lparr>eng := ?e\<rparr>, Inr pid)"
    using k a(1,3,4) p
    by (simp add: onEng_def NewPage_def pbind_def ptry_def pget_def pret_def onAlloc_def InstallNew_def UserData_def IsSuperblock_def)
  moreover have "cached ?e \<subseteq> alive ?e" using e unfolding al by (auto simp: eng_ok_def)
  then have "eng_ok ?e" unfolding eng_ok_def using a(5-7,9,10) by simp
  moreover have "room n ?e" "eng_keeps (eng t) ?e" using a(11,12) by (simp_all add: room_def eng_keeps_def EngPrimaryTree_def)
  ultimately show thesis using p al a(2,4) that [of ?e pid p] by simp
qed

section \<open>Metadata\<close>

lemma encodeMeta_bytes: "\<exists>b. encodeMeta rt ht = Some b \<and> length b = 16"
  by (simp add: encodeMeta_def treeMetaMagic_def go_defs buf_simps)

definition metaBytes :: "PageID \<Rightarrow> u16 \<Rightarrow> bytes" where
  "metaBytes rt ht = the (encodeMeta rt ht)"

lemma encodeMeta_eq: "encodeMeta rt ht = Some (metaBytes rt ht)" and length_metaBytes [simp]: "length (metaBytes rt ht) = 16"
  using encodeMeta_bytes [of rt ht] by (auto simp: metaBytes_def)

text \<open>The page of a detached tree's metadata holds a record of the size of the metadata.\<close>

definition meta_page :: "page \<Rightarrow> bytes \<Rightarrow> bool" where
  "meta_page p rec \<longleftrightarrow> page_inv p \<and> page_map p 0 = Some rec \<and> length rec = 16"

definition meta_at :: "Tree \<Rightarrow> PageID \<Rightarrow> u16 \<Rightarrow> bool" where
  "meta_at t rt ht \<longleftrightarrow> (if tmeta t = 0 then EngPrimaryTree (eng t) = (rt, ht)
     else \<exists>p. pg t (tmeta t) = Inr p \<and> meta_page p (metaBytes rt ht))"

lemma meta_update:
  assumes "meta_page p rec" and "length rec' = 16"
  obtains r where "pageUpdate p 0 rec' = Some (r, Inr ())" "meta_page r rec'"
proof -
  have m: "page_inv p" "page_map p (unat (0 :: u16)) = Some rec" "length rec = 16" using assms(1) by (auto simp: meta_page_def)
  have "finite (dom (page_map p))" using dom_page_map [of p] finite_subset by blast
  then have "16 \<le> live_bytes p"
    unfolding live_bytes_records [OF m(1)] using m member_le_sum [of 0 "dom (page_map p)" "\<lambda>i. length (the (page_map p i))"] by (simp add: domI)
  moreover have "48 + 4 * scount p + live_bytes p \<le> 16384"
    using live_bytes_bound [OF m(1)] page_inv_bounds [OF m(1)] by arith
  ultimately show thesis using pageUpdate_spec [OF m(1,2), of rec'] m(3) assms(2) that by (auto simp: meta_page_def)
qed

definition same_alloc :: "Engine \<Rightarrow> Engine \<Rightarrow> bool" where
  "same_alloc e e' \<longleftrightarrow> alive e' = alive e \<and> (eng_ok e \<longrightarrow> eng_ok e') \<and> (\<forall>n. room n e' = room n e)"

lemma persist_ok:
  assumes m: "meta_at t rt ht" and r: "root t \<noteq> 0" "root t < anext (ealloc (eng t))" "word_of_int (height t) \<noteq> (0 :: u16)"
    and e: "eng_ok (eng t)" "tmeta t \<noteq> 0 \<longrightarrow> tmeta t \<in> alive (eng t)"
  obtains e' where "persistTree t = Some (t\<lparr>eng := e'\<rparr>, Inr ())" "meta_at (t\<lparr>eng := e'\<rparr>) (root t) (word_of_int (height t))"
    "\<forall>c. c = 0 \<or> c \<noteq> tmeta t \<longrightarrow> epages e' c = pg t c" "same_alloc (eng t) e'" "crash e' = crash (eng t)"
proof (cases "tmeta t = 0")
  case True
  let ?a = "ealloc (eng t)"
  let ?f = "(afile ?a)\<lparr>sb := (sb (afile ?a))\<lparr>PrimaryRoot := root t, PrimaryHeight := word_of_int (height t)\<rparr>\<rparr>"
  let ?e = "(eng t)\<lparr>treeLog := treeLog (eng t) @ [(root t, word_of_int (height t))], ealloc := ?a\<lparr>afile := ?f\<rparr>\<rparr>"
  have v: "validatePrimaryTree (root t) (word_of_int (height t)) (NextPageID (sb (afile ?a))) = Inr ()"
    using e(1) r by (simp add: validatePrimaryTree_def eng_ok_def UserData_def IsSuperblock_def not_le)
  have "persistTree t = Some (t\<lparr>eng := ?e\<rparr>, Inr ())"
    using True v by (simp add: persistTree_def NoteTree_def SetPrimaryTreeMem_def pbind_def pget_def pmodify_def pgo_def onEng_def onAlloc_def onFile_def)
  then show thesis
  proof (rule that)
    show "meta_at (t\<lparr>eng := ?e\<rparr>) (root t) (word_of_int (height t))" using True by (simp add: meta_at_def EngPrimaryTree_def PrimaryTree_def)
    show "same_alloc (eng t) ?e" by (simp add: same_alloc_def alive_def eng_ok_def room_def)
  qed simp_all
next
  case False
  let ?b = "metaBytes (root t) (word_of_int (height t))"
  obtain p where p: "pg t (tmeta t) = Inr p" "meta_page p (metaBytes rt ht)" using m False by (auto simp: meta_at_def)
  then have inv: "page_inv p" "page_map p 0 = Some (metaBytes rt ht)" by (simp_all add: meta_page_def)
  have n: "SlotCount p = Some (scount p)" "0 < scount p"
    using SlotCount_inv [OF inv(1)] page_map_Some_slot [OF inv(2)] by simp_all
  have g: "metaUnchanged p ?b = Some (metaBytes rt ht = ?b)"
    using n GetView_spec [OF inv(1), of 0] inv(2) by (simp add: metaUnchanged_def)
  obtain q where q: "pageUpdate p 0 ?b = Some (q, Inr ())" "meta_page q ?b" using meta_update [OF p(2), of ?b] by auto
  let ?t1 = "touch (tmeta t) t" and ?t2 = "setPage (tmeta t) q (touch (tmeta t) t)"
  have w: "wp persistTree (\<lambda>r s. r = Inr () \<and> s = (if metaBytes rt ht = ?b then ?t1 else ?t2)) t"
    using False p(1) n g q(1) by (simp add: persistTree_def writeMeta_def wp_simps encodeMeta_eq)
  have sa: "same_alloc (eng t) (eng ?t1)" "same_alloc (eng t) (eng ?t2)"
    using e False by (auto simp: same_alloc_def alive_def eng_ok_def room_def)
  show thesis
  proof (cases "metaBytes rt ht = ?b")
    case True
    with w have "persistTree t = Some (?t1, Inr ())" by (simp add: wp_iff)
    then show thesis using that [of "eng ?t1"] sa(1) p True False by (auto simp: touch_def meta_at_def)
  next
    case F: False
    with w have "persistTree t = Some (?t2, Inr ())" by (simp add: wp_iff)
    then show thesis using that [of "eng ?t2"] sa(2) q(2) F False by (auto simp: touch_def setPage_def meta_at_def)
  qed
qed

end
