(* ===== verification/BTreeLevels.thy ===== *)
theory BTreeLevels
  imports BNodeSpec
begin

text \<open>
  The shape of the tree as a function of the contents of its pages. A level is the first page of
  a row of the tree and the separators and pages that follow, the same shape as one internal
  node; the next level is the concatenation of the nodes of this one. Descending is routing by
  the code's own \<open>childLoop\<close> on every level, and adding a separator to the node the new key is
  routed to adds it to the level.
\<close>

type_synonym level = "PageID \<times> internalEntry list"
type_synonym inodes = "PageID \<Rightarrow> level"

definition lids :: "level \<Rightarrow> PageID list" where
  "lids l = fst l # map snd (snd l)"

definition flatE :: "inodes \<Rightarrow> internalEntry list \<Rightarrow> internalEntry list" where
  "flatE N es = concat (map (\<lambda>(k, c). (k, fst (N c)) # snd (N c)) es)"

definition flat :: "inodes \<Rightarrow> level \<Rightarrow> level" where
  "flat N l = (fst (N (fst l)), snd (N (fst l)) @ flatE N (snd l))"

fun lev :: "inodes \<Rightarrow> PageID \<Rightarrow> nat \<Rightarrow> level" where
  "lev N rt 0 = (rt, [])"
| "lev N rt (Suc i) = flat N (lev N rt i)"

definition route :: "level \<Rightarrow> bytes \<Rightarrow> PageID" where
  "route l key = childLoop (fst l) (snd l) key"

definition insL :: "bytes \<Rightarrow> PageID \<Rightarrow> level \<Rightarrow> level" where
  "insL k c l = (fst l, insort_key fst (k, c) (snd l))"

abbreviation lsorted :: "level \<Rightarrow> bool" where
  "lsorted l \<equiv> keysorted (snd l)"

section \<open>Lists of entries\<close>

lemma flatE_simps [simp]:
  "flatE N [] = []" "flatE N ((k, c) # es) = (k, fst (N c)) # snd (N c) @ flatE N es" "flatE N (xs @ ys) = flatE N xs @ flatE N ys"
  by (simp_all add: flatE_def)

lemma flatE_cong: "\<forall>c \<in> set (map snd es). N c = M c \<Longrightarrow> flatE N es = flatE M es"
  by (induction es) auto

lemma lids_I: "x \<in> set (snd l) \<Longrightarrow> snd x \<in> set (lids l)"
  by (simp add: lids_def)

lemma flat_cong: "(\<And>c. c \<in> set (lids l) \<Longrightarrow> N c = M c) \<Longrightarrow> flat N l = flat M l"
  using flatE_cong [of "snd l" N M] by (simp add: flat_def lids_def)

lemma childLoop_app_gt: "\<forall>y \<in> set ys. key < fst y \<Longrightarrow> childLoop c (xs @ ys) key = childLoop c xs key"
  by (induction xs arbitrary: c) (cases ys; auto)+

lemma childLoop_app_le:
  "\<forall>x \<in> set xs. fst x \<le> key \<Longrightarrow> childLoop c (xs @ ys) key = childLoop (last (c # map snd xs)) ys key"
  by (induction xs arbitrary: c) (auto simp: last_map)

lemma childLoop_cong: "\<forall>x \<in> set es. (fst x \<le> a \<longleftrightarrow> fst x \<le> b) \<Longrightarrow> childLoop c es a = childLoop c es b"
  by (induction es arbitrary: c) auto

lemma route_cong: "\<forall>x \<in> set (snd l). (fst x \<le> a \<longleftrightarrow> fst x \<le> b) \<Longrightarrow> route l a = route l b"
  by (simp add: route_def childLoop_cong)

lemma keysorted_split:
  assumes "keysorted es"
  obtains xs ys where "es = xs @ ys" "\<forall>x \<in> set xs. fst x \<le> key" "\<forall>y \<in> set ys. key < fst y"
proof -
  have "\<forall>y \<in> set (dropWhile (\<lambda>e. fst e \<le> key) es). key < fst y"
  proof (cases "dropWhile (\<lambda>e. fst e \<le> key) es")
    case (Cons y ys)
    have y: "key < fst y" using hd_dropWhile [of "\<lambda>e. fst e \<le> key" es] Cons by auto
    have "keysorted (y # ys)" using assms Cons takeWhile_dropWhile_id [of "\<lambda>e. fst e \<le> key" es] by (metis keysorted_append)
    then show ?thesis using y Cons by auto
  next
    case Nil
    then show ?thesis unfolding Nil by simp
  qed
  then show thesis using that [of "takeWhile (\<lambda>e. fst e \<le> key) es" "dropWhile (\<lambda>e. fst e \<le> key) es"]
    by (auto dest: set_takeWhileD)
qed

lemma route_split:
  assumes "lsorted l"
  obtains xs ys where "snd l = xs @ ys" "\<forall>x \<in> set xs. fst x \<le> key" "\<forall>y \<in> set ys. key < fst y"
    "route l key = last (fst l # map snd xs)"
proof -
  obtain xs ys where "snd l = xs @ ys" "\<forall>x \<in> set xs. fst x \<le> key" "\<forall>y \<in> set ys. key < fst y"
    by (rule keysorted_split [OF assms])
  moreover have "route l key = last (fst l # map snd xs)"
    using calculation childLoop_app_gt [of ys key "fst l" xs] childLoop_app_le [of xs key "fst l" "[]"]
    by (simp add: route_def)
  ultimately show thesis by (rule that)
qed

lemma route_in: "lsorted l \<Longrightarrow> route l key \<in> set (lids l)"
proof -
  assume "lsorted l"
  then obtain xs ys where x: "snd l = xs @ ys" "\<forall>x \<in> set xs. fst x \<le> key" "\<forall>y \<in> set ys. key < fst y"
    "route l key = last (fst l # map snd xs)" by (rule route_split)
  have "last (fst l # map snd xs) \<in> set (fst l # map snd xs)" by (rule last_in_set) simp
  moreover have "set (fst l # map snd xs) \<subseteq> set (lids l)" using x(1) by (auto simp: lids_def)
  ultimately show ?thesis unfolding x(4) by blast
qed

section \<open>Sorting through the levels\<close>

lemma flatE_keys: "x \<in> set es \<Longrightarrow> \<exists>y \<in> set (flatE N es). fst y = fst x"
  by (induction es) (auto split: prod.splits)

lemma flatE_sorted: "keysorted (flatE N es) \<Longrightarrow> keysorted es"
proof (induction es)
  case (Cons e es)
  have "fst e < fst x" if mem: "x \<in> set es" for x
  proof -
    obtain y where y: "y \<in> set (flatE N es)" "fst y = fst x" using flatE_keys [OF mem] by blast
    have "fst e < fst y" using Cons.prems y(1) by (cases e) (auto simp: keysorted_append)
    then show ?thesis using y by simp
  qed
  then show ?case using Cons by (cases e) (auto simp: keysorted_append)
qed simp

lemma flat_sorted: "lsorted (flat N l) \<Longrightarrow> lsorted l"
  using flatE_sorted by (auto simp: flat_def keysorted_append)

lemma lev_sorted: "lsorted (lev N rt n) \<Longrightarrow> i \<le> n \<Longrightarrow> lsorted (lev N rt i)"
  by (induction n) (auto simp: le_Suc_eq dest: flat_sorted)

lemma flat_keys: "x \<in> set (snd l) \<Longrightarrow> \<exists>y \<in> set (snd (flat N l)). fst y = fst x"
  using flatE_keys [of x "snd l" N] by (auto simp: flat_def)

lemma lev_keys: "x \<in> set (snd (lev N rt i)) \<Longrightarrow> i \<le> n \<Longrightarrow> \<exists>y \<in> set (snd (lev N rt n)). fst y = fst x"
proof (induction n)
  case (Suc n)
  show ?case
  proof (cases "i \<le> n")
    case True
    then obtain y where "y \<in> set (snd (lev N rt n))" "fst y = fst x" using Suc by blast
    then show ?thesis using flat_keys [of y "lev N rt n" N] by auto
  next
    case False
    then show ?thesis using Suc.prems by (auto simp: le_Suc_eq)
  qed
qed auto

lemma node_sorted: "lsorted (flat N l) \<Longrightarrow> c \<in> set (lids l) \<Longrightarrow> lsorted (N c)"
proof -
  have "(k, c) \<in> set es \<Longrightarrow> keysorted (flatE N es) \<Longrightarrow> keysorted (snd (N c))" for k es
    by (induction es) (auto simp: keysorted_append)
  then show "lsorted (flat N l) \<Longrightarrow> c \<in> set (lids l) \<Longrightarrow> lsorted (N c)"
    by (auto simp: flat_def lids_def keysorted_append)
qed

section \<open>Routing\<close>

text \<open>A flattened level around one of its nodes: what comes before it, the node, what follows.\<close>

fun glue :: "(PageID \<times> internalEntry list \<times> bytes) option \<Rightarrow> level \<Rightarrow> internalEntry list \<Rightarrow> level" where
  "glue None n post = (fst n, snd n @ post)"
| "glue (Some (f, A, k)) n post = (f, A @ (k, fst n) # snd n @ post)"

definition before :: "bytes \<Rightarrow> (PageID \<times> internalEntry list \<times> bytes) option \<Rightarrow> bool" where
  "before key pre \<longleftrightarrow> (case pre of None \<Rightarrow> True | Some (f, A, k) \<Rightarrow> (\<forall>a \<in> set A. fst a < k) \<and> k \<le> key)"

lemma flatE_gt:
  assumes "keysorted (flatE N ys)" and "\<forall>y \<in> set ys. key < fst y"
  shows "\<forall>y \<in> set (flatE N ys). key < fst y"
proof (cases ys)
  case (Cons y ys')
  then obtain k c where y: "y = (k, c)" by (cases y)
  then have "key < k" "\<forall>x \<in> set (snd (N c) @ flatE N ys'). k < fst x" using assms Cons by auto
  then show ?thesis using Cons y by (auto intro: order.strict_trans)
qed simp

lemma flat_at:
  assumes s: "lsorted (flat N l)" and d: "distinct (lids l)"
  obtains xs ys pre post where "snd l = xs @ ys" "\<forall>x \<in> set xs. fst x \<le> key" "\<forall>y \<in> set ys. key < fst y"
    "before key pre" "\<forall>y \<in> set post. key < fst y"
    "\<And>M. \<forall>c \<in> set (lids l). c \<noteq> route l key \<longrightarrow> M c = N c \<Longrightarrow> flat M l = glue pre (M (route l key)) post"
    "\<And>M k' c'. \<forall>c \<in> set (lids l). c \<noteq> route l key \<longrightarrow> M c = N c \<Longrightarrow>
      flat M (fst l, xs @ (k', c') # ys) = glue pre (M (route l key)) ((k', fst (M c')) # snd (M c') @ post)"
    "\<forall>y \<in> set ys. fst y \<in> fst ` set post" "\<forall>x \<in> set xs. \<exists>f A k. pre = Some (f, A, k) \<and> fst x \<le> k"
proof -
  obtain xs ys where x: "snd l = xs @ ys" "\<forall>x \<in> set xs. fst x \<le> key" "\<forall>y \<in> set ys. key < fst y"
      "route l key = last (fst l # map snd xs)" by (rule route_split [OF flat_sorted [OF s]])
  have yk: "\<forall>y \<in> set ys. fst y \<in> fst ` set (flatE N ys)" using flatE_keys [of _ ys N] by fastforce
  have ls: "keysorted (xs @ ys)" using flat_sorted [OF s] x(1) by simp
  have gt: "\<forall>y \<in> set (flatE N ys). key < fst y"
    using s x(1,3) by (intro flatE_gt) (auto simp: flat_def keysorted_append)
  show thesis
  proof (cases xs rule: rev_cases)
    case Nil
    have e: "flatE M ys = flatE N ys" if "\<forall>c \<in> set (lids l). c \<noteq> route l key \<longrightarrow> M c = N c" for M
    proof (rule flatE_cong, rule ballI)
      fix c assume c: "c \<in> set (map snd ys)"
      have "lids l = fst l # map snd ys" using x(1) Nil by (simp add: lids_def)
      then show "M c = N c" using that d Nil x(4) c by (metis distinct.simps(2) last.simps list.map(1) list.set_intros(2))
    qed
    show thesis
    proof (rule that [OF x(1-3) _ gt _ _ yk])
      show "before key None" by (simp add: before_def)
      fix M assume "\<forall>c \<in> set (lids l). c \<noteq> route l key \<longrightarrow> M c = N c"
      note e [OF this]
      then show "flat M l = glue None (M (route l key)) (flatE N ys)"
        using x(1,4) Nil by (simp add: flat_def)
    next
      fix M k' c' assume "\<forall>c \<in> set (lids l). c \<noteq> route l key \<longrightarrow> M c = N c"
      note e [OF this]
      then show "flat M (fst l, xs @ (k', c') # ys) = glue None (M (route l key)) ((k', fst (M c')) # snd (M c') @ flatE N ys)"
        using x(4) Nil by (simp add: flat_def)
    qed (simp add: Nil)
  next
    case (snoc xs' x')
    obtain k c where kc: "x' = (k, c)" by (cases x')
    let ?A = "snd (N (fst l)) @ flatE N xs'"
    have r: "route l key = c" using x(4) snoc kc by simp
    have "snd (flat N l) = ?A @ (k, fst (N c)) # snd (N c) @ flatE N ys" using x(1) snoc kc by (simp add: flat_def)
    then have "keysorted (?A @ (k, fst (N c)) # snd (N c) @ flatE N ys)" using s by metis
    then have A: "\<forall>a \<in> set ?A. fst a < k" unfolding keysorted_append by simp
    have e: "M (fst l) = N (fst l) \<and> flatE M xs' = flatE N xs' \<and> flatE M ys = flatE N ys"
      if m: "\<forall>c \<in> set (lids l). c \<noteq> route l key \<longrightarrow> M c = N c" for M
    proof -
      define I J where "I = map snd xs'" and "J = map snd ys"
      have l: "lids l = fst l # I @ c # J" using x(1) snoc kc by (simp add: lids_def I_def J_def)
      have "M (fst l) = N (fst l)" using m d r by (simp add: l)
      moreover have "\<forall>x \<in> set I \<union> set J. x \<in> set (lids l) \<and> x \<noteq> route l key" using d r by (auto simp: l)
      then have "\<forall>x \<in> set I \<union> set J. M x = N x" using m by blast
      then have "flatE M xs' = flatE N xs'" "flatE M ys = flatE N ys"
        unfolding I_def J_def by (intro flatE_cong, blast)+
      ultimately show ?thesis by blast
    qed
    have le: "\<forall>x \<in> set xs. fst x \<le> k" using ls snoc kc by (auto simp: keysorted_append)
    have b: "before key (Some (fst (N (fst l)), ?A, k))" using A x(2) snoc kc by (simp add: before_def)
    show thesis
    proof (rule that [OF x(1-3) b gt _ _ yk])
      fix M assume "\<forall>c \<in> set (lids l). c \<noteq> route l key \<longrightarrow> M c = N c"
      note e [OF this]
      then show "flat M l = glue (Some (fst (N (fst l)), ?A, k)) (M (route l key)) (flatE N ys)"
        unfolding r flat_def x(1) snoc kc by simp
    next
      fix M k' c' assume "\<forall>c \<in> set (lids l). c \<noteq> route l key \<longrightarrow> M c = N c"
      note e [OF this]
      then show "flat M (fst l, xs @ (k', c') # ys) = glue (Some (fst (N (fst l)), ?A, k)) (M (route l key)) ((k', fst (M c')) # snd (M c') @ flatE N ys)"
        unfolding r flat_def snoc kc by simp
    next
      show "\<forall>x \<in> set xs. \<exists>f A k'. Some (fst (N (fst l)), ?A, k) = Some (f, A, k') \<and> fst x \<le> k'" using le by blast
    qed
  qed
qed

lemma route_glue:
  assumes "before key pre" and "\<forall>y \<in> set post. key < fst y"
  shows "route (glue pre n post) key = route n key"
proof (cases pre)
  case None
  then show ?thesis using assms by (simp add: route_def childLoop_app_gt)
next
  case (Some q)
  then obtain f A k where q: "pre = Some (f, A, k)" by (metis prod.exhaust)
  then have "\<forall>a \<in> set A. fst a \<le> key" "k \<le> key" using assms(1) by (fastforce simp: before_def)+
  then show ?thesis using q assms(2) by (simp add: route_def childLoop_app_le childLoop_app_gt)
qed

lemma route_flat:
  assumes "lsorted (flat N l)" and "distinct (lids l)"
  shows "route (flat N l) key = route (N (route l key)) key"
  by (rule flat_at [OF assms, of key]) (simp add: route_glue)

section \<open>Adding a separator\<close>

lemma insort_app_gt: "\<forall>y \<in> set ys. k < fst y \<Longrightarrow> insort_key fst (k, c) (xs @ ys) = insort_key fst (k, c) xs @ ys"
  by (induction xs) (cases ys; auto)+

lemma insort_app_lt: "\<forall>x \<in> set xs. fst x < k \<Longrightarrow> insort_key fst (k, c) (xs @ ys) = xs @ insort_key fst (k, c) ys"
  by (induction xs) auto

lemma insort_split:
  assumes "keysorted es" and "k \<notin> fst ` set es"
  obtains xs ys where "es = xs @ ys" "\<forall>x \<in> set xs. fst x < k" "\<forall>y \<in> set ys. k < fst y" "insort_key fst (k, c) es = xs @ (k, c) # ys"
proof -
  obtain xs ys where x: "es = xs @ ys" "\<forall>x \<in> set xs. fst x \<le> k" "\<forall>y \<in> set ys. k < fst y"
    by (rule keysorted_split [OF assms(1)])
  have lt: "\<forall>x \<in> set xs. fst x < k"
  proof
    fix e assume e: "e \<in> set xs"
    then have "fst e \<noteq> k" using x(1) assms(2) by auto
    moreover have "fst e \<le> k" using x(2) e by blast
    ultimately show "fst e < k" by (rule order.not_eq_order_implies_strict)
  qed
  show thesis by (rule that [OF x(1) lt x(3)]) (use x(1) insort_app_lt [OF lt] insort_app_gt [OF x(3), of c "[]"] in simp)
qed

lemma insort_keysorted:
  assumes "keysorted es" and "k \<notin> fst ` set es"
  shows "keysorted (insort_key fst (k, c) es)"
proof (rule insort_split [OF assms, of c])
  fix xs ys
  assume "es = xs @ ys" "\<forall>x \<in> set xs. fst x < k" "\<forall>y \<in> set ys. k < fst y" "insort_key fst (k, c) es = xs @ (k, c) # ys"
  then show ?thesis using assms(1) by (simp add: keysorted_append)
qed

lemma insL_glue:
  assumes "before key pre" and "\<forall>y \<in> set post. key < fst y" and "key \<notin> fst ` set (snd (glue pre n post))"
  shows "insL key c (glue pre n post) = glue pre (insL key c n) post"
proof (cases pre)
  case None
  then show ?thesis using assms by (simp add: insL_def insort_app_gt)
next
  case (Some q)
  then obtain f A k where q: "pre = Some (f, A, k)" by (metis prod.exhaust)
  then have "\<forall>a \<in> set (A @ [(k, fst n)]). fst a < key" using assms(1,3) by (fastforce simp: before_def)
  then have "insort_key fst (key, c) ((A @ [(k, fst n)]) @ (snd n @ post)) = (A @ [(k, fst n)]) @ insort_key fst (key, c) (snd n) @ post"
    using assms(2) by (simp only: insort_app_lt insort_app_gt)
  then show ?thesis using q by (simp add: insL_def)
qed

text \<open>The separator is added to the node it is routed to.\<close>

lemma flat_insL:
  assumes "lsorted (flat N l)" and "distinct (lids l)" and k: "key \<notin> fst ` set (snd (flat N l))"
  shows "flat (N(route l key := insL key c (N (route l key)))) l = insL key c (flat N l)"
proof (rule flat_at [OF assms(1,2), of key])
  fix pre post
  assume b: "before key pre" "\<forall>y \<in> set post. key < fst y"
    and f: "\<And>M. \<forall>c \<in> set (lids l). c \<noteq> route l key \<longrightarrow> M c = N c \<Longrightarrow> flat M l = glue pre (M (route l key)) post"
  let ?M = "N(route l key := insL key c (N (route l key)))"
  have n: "flat N l = glue pre (N (route l key)) post" using f [of N] by simp
  have "\<forall>c \<in> set (lids l). c \<noteq> route l key \<longrightarrow> ?M c = N c" by simp
  then have "flat ?M l = glue pre (?M (route l key)) post" by (rule f [of ?M])
  also have "\<dots> = insL key c (glue pre (N (route l key)) post)" using insL_glue [OF b, of "N (route l key)" c] k n by simp
  finally show ?thesis unfolding n .
qed

lemma glue_sorted:
  assumes s: "lsorted (glue pre n post)"
  shows "\<forall>x \<in> set (snd n). \<forall>y \<in> set post. fst x < fst y" and "\<And>f A k. pre = Some (f, A, k) \<Longrightarrow> \<forall>x \<in> set (snd n). k < fst x"
proof -
  show "\<forall>x \<in> set (snd n). \<forall>y \<in> set post. fst x < fst y"
  proof (cases pre)
    case None
    then show ?thesis using s by (simp add: keysorted_append)
  next
    case (Some q)
    then obtain f A k where "pre = Some (f, A, k)" by (cases q) auto
    then show ?thesis using s by (simp add: keysorted_append)
  qed
  show "\<forall>x \<in> set (snd n). k < fst x" if "pre = Some (f, A, k)" for f A k
    using s that by (simp add: keysorted_append)
qed

text \<open>A node is split in two around one of its entries, which moves up.\<close>

lemma flat_split:
  assumes s: "lsorted (flat N l)" and d: "distinct (lids l)" and p: "p = route l key"
    and n: "N p = (lm, al)" and m: "mid < length al" and r: "r \<notin> set (lids l)"
  shows "flat (N(p := (lm, take mid al), r := (snd (al ! mid), drop (Suc mid) al))) (insL (fst (al ! mid)) r l) = flat N l"
    and "fst (al ! mid) \<notin> fst ` set (snd l)" and "route l (fst (al ! mid)) = p"
proof (atomize (full), rule flat_at [OF s d, of key], goal_cases)
  case (1 xs ys pre post)
  let ?k = "fst (al ! mid)" and ?M = "N(p := (lm, take mid al), r := (snd (al ! mid), drop (Suc mid) al))"
  have pl: "p \<in> set (lids l)" unfolding p by (rule route_in [OF flat_sorted [OF s]])
  have fl: "flat N l = glue pre (lm, al) post" using 1(6) [of N] p n by simp
  have al: "?k \<in> fst ` set al" using m by simp
  note gs = glue_sorted [OF s [unfolded fl], simplified]
  have gt: "?k < fst y" if mem: "y \<in> set ys" for y
  proof -
    obtain z where "z \<in> set post" "fst y = fst z" using 1(8) mem by blast
    then show ?thesis using gs(1) al m by auto
  qed
  have lt: "fst x < ?k" if mem: "x \<in> set xs" for x
  proof -
    obtain f A k where q: "pre = Some (f, A, k)" "fst x \<le> k" using 1(9) mem by blast
    have "k < ?k" using gs(2) [OF q(1)] nth_mem [OF m] by blast
    with q(2) show ?thesis by (rule le_less_trans)
  qed
  have "insL ?k r l = (fst l, xs @ (?k, r) # ys)"
    using insort_app_lt [of xs ?k r ys] lt insort_app_gt [of ys ?k r "[]"] gt 1(1) by (simp add: insL_def)
  moreover have "flat ?M (fst l, xs @ (?k, r) # ys) = glue pre (?M p) ((?k, fst (?M r)) # snd (?M r) @ post)"
  proof -
    have "\<forall>c \<in> set (lids l). c \<noteq> route l key \<longrightarrow> ?M c = N c" using p r by auto
    then show ?thesis unfolding p by (rule 1(7))
  qed
  moreover have "glue pre (?M p) ((?k, fst (?M r)) # snd (?M r) @ post) = flat N l"
  proof -
    have "take mid al @ al ! mid # drop (Suc mid) al = al" using m by (simp add: id_take_nth_drop [symmetric])
    then have "take mid al @ (?k, snd (al ! mid)) # drop (Suc mid) al @ post = al @ post" by (metis append.assoc append_Cons prod.collapse)
    moreover have "p \<noteq> r" using pl r by auto
    ultimately show ?thesis unfolding fl by (cases pre) auto
  qed
  ultimately have "flat ?M (insL ?k r l) = flat N l" by simp
  moreover have "?k \<notin> fst ` set (snd l)"
  proof
    assume "?k \<in> fst ` set (snd l)"
    then obtain z where "z \<in> set xs \<or> z \<in> set ys" "fst z = ?k" unfolding 1(1) by fastforce
    then show False using gt lt by (metis order.strict_implies_not_eq)
  qed
  moreover have "route l ?k = p" unfolding p
  proof (rule route_cong, rule ballI)
    fix z assume "z \<in> set (snd l)"
    then consider "z \<in> set xs" | "z \<in> set ys" unfolding 1(1) by auto
    then show "fst z \<le> ?k \<longleftrightarrow> fst z \<le> key"
    proof cases
      case 1
      then show ?thesis using lt [OF 1] \<open>\<forall>x \<in> set xs. fst x \<le> key\<close> order.strict_implies_order by blast
    next
      case 2
      then show ?thesis using gt [OF 2] \<open>\<forall>y \<in> set ys. key < fst y\<close> leD by blast
    qed
  qed
  ultimately show ?case by simp
qed

end
