(* ===== verification/BTreeRep.thy ===== *)
theory BTreeRep
  imports BTreeWp BTreeLevels
begin

text \<open>
  What the pages of a well-formed tree hold, over the abstract contents of its internal nodes
  (\<open>inodes\<close>) and of its leaves, and how reading, splitting and adding separators acts on it.
\<close>

section \<open>Nodes\<close>

type_synonym pages = "PageID \<Rightarrow> page res"
type_synonym lnodes = "PageID \<Rightarrow> leafEntry list"

definition nodeI :: "pages \<Rightarrow> PageID \<Rightarrow> level \<Rightarrow> bool" where
  "nodeI P c n \<longleftrightarrow> c \<noteq> 0 \<and> fst n \<noteq> 0 \<and> keysorted (snd n) \<and> (\<forall>e \<in> set (snd n). internalOK e) \<and>
     (\<exists>p hdr. P c = Inr p \<and> internal_page p c hdr (mset (snd n)) \<and> nhLeftmost hdr = fst n)"

definition nodeL :: "pages \<Rightarrow> PageID \<Rightarrow> leafEntry list \<Rightarrow> PageID \<Rightarrow> PageID \<Rightarrow> bool" where
  "nodeL P c es pv nx \<longleftrightarrow> c \<noteq> 0 \<and> keysorted es \<and> (\<forall>e \<in> set es. leafOK e) \<and>
     (\<exists>p hdr. P c = Inr p \<and> leaf_page p c hdr (mset es) \<and> nhPrev hdr = pv \<and> nhNext hdr = nx)"

lemma nodeI_cong: "P c = P' c \<Longrightarrow> nodeI P c n = nodeI P' c n"
  by (simp add: nodeI_def)

lemma nodeL_cong: "P c = P' c \<Longrightarrow> nodeL P c es pv nx = nodeL P' c es pv nx"
  by (simp add: nodeL_def)

lemma expectType_node: "node_page enc p c ty hdr M \<Longrightarrow> expectType p ty = Some (Inr ())"
  by (simp add: expectType_def node_page_def)

lemma nodeI_reads:
  assumes "nodeI P c n"
  obtains p hdr where "P c = Inr p" "internal_page p c hdr (mset (snd n))" "nhLeftmost hdr = fst n" "c \<noteq> 0"
    "expectType p PageTypeBTreeInternal = Some (Inr ())" "readHeader p = Some (Inr hdr)" "collectInternals p = Some (Inr (snd n))"
    "maxInternalKey p = Some (Inr (if snd n = [] then None else Some (fst (last (snd n)))))"
proof -
  from assms obtain p hdr where p: "P c = Inr p" "internal_page p c hdr (mset (snd n))" "nhLeftmost hdr = fst n"
    by (auto simp: nodeI_def)
  have ok: "\<forall>e \<in> set (snd n). internalOK e" "keysorted (snd n)" "c \<noteq> 0" using assms by (auto simp: nodeI_def)
  show thesis by (rule that [OF p ok(3) expectType_node [OF p(2)] node_readHeader [OF p(2)]
    internal_collect [OF p(2) ok(1,2)] internal_max [OF p(2) ok(1,2)]])
qed

lemma nodeL_reads:
  assumes "nodeL P c es pv nx"
  obtains p hdr where "P c = Inr p" "leaf_page p c hdr (mset es)" "nhPrev hdr = pv" "nhNext hdr = nx" "c \<noteq> 0"
    "expectType p PageTypeBTreeLeaf = Some (Inr ())" "readHeader p = Some (Inr hdr)" "collectLeaves p = Some (Inr es)"
    "maxLeafKey p = Some (Inr (if es = [] then None else Some (fst (last es))))"
proof -
  from assms obtain p hdr where p: "P c = Inr p" "leaf_page p c hdr (mset es)" "nhPrev hdr = pv" "nhNext hdr = nx"
    by (auto simp: nodeL_def)
  have ok: "\<forall>e \<in> set es. leafOK e" "keysorted es" "c \<noteq> 0" using assms by (auto simp: nodeL_def)
  show thesis by (rule that [OF p ok(3) expectType_node [OF p(2)] node_readHeader [OF p(2)]
    leaf_collect [OF p(2) ok(1,2)] leaf_max [OF p(2) ok(1,2)]])
qed

lemma childForKey_route: "nhLeftmost hdr = fst n \<Longrightarrow> childForKey hdr (snd n) key = route n key"
  by (simp add: childForKey_def route_def)

lemma nodeI_bytes: "nodeI P c n \<Longrightarrow> internalPageBytes (snd n) \<le> 16384"
  by (auto simp: nodeI_def internalPageBytes_def sum_mset_sum_list length_internalBytes comp_def dest!: node_page_room simp flip: mset_map)

lemma nodeL_bytes: "nodeL P c es pv nx \<Longrightarrow> leafPageBytes es \<le> 16384"
  by (auto simp: nodeL_def leafPageBytes_def sum_mset_sum_list length_leafBytes comp_def dest!: node_page_room simp flip: mset_map)

section \<open>Sizes of the halves\<close>

text \<open>The bytes of an internal node depend on the lengths of its separators only.\<close>

definition sepBytes :: "bytes list \<Rightarrow> nat" where
  "sepBytes ks = 80 + sum_list (map (\<lambda>k. 14 + length k) ks)"

lemma internalPageBytes_sep: "internalPageBytes es = sepBytes (map fst es)"
  by (induction es) (simp_all add: internalPageBytes_def sepBytes_def internalRecordSize_def)

text \<open>\<open>splitInternalAndInsert\<close> cuts at half the number of entries, whatever their lengths.\<close>

definition halvesFit :: "bytes list \<Rightarrow> bool" where
  "halvesFit ks \<longleftrightarrow> sepBytes (take (length ks div 2) ks) \<le> 16384 \<and> sepBytes (drop (Suc (length ks div 2)) ks) \<le> 16384"

lemma map_fst_insort: "map fst (insort_key fst (k, v) es) = insort k (map fst es)"
  by (induction es) simp_all

text \<open>Separators of similar lengths can always be cut so.\<close>

definition even_keys :: "nat \<Rightarrow> nat \<Rightarrow> bytes set \<Rightarrow> bool" where
  "even_keys a b K \<longleftrightarrow> (\<forall>k \<in> K. a \<le> length k \<and> length k \<le> b) \<and> 4 * (14 + b) \<le> 7 * (14 + a) \<and> a \<le> 2048"

lemma even_keys_mono: "even_keys a b K \<Longrightarrow> K' \<subseteq> K \<Longrightarrow> even_keys a b K'"
  by (auto simp: even_keys_def)

lemma sep_bounds:
  assumes "\<forall>k \<in> set ks. a \<le> length k \<and> length k \<le> b"
  shows "80 + (14 + a) * length ks \<le> sepBytes ks" and "sepBytes ks \<le> 80 + (14 + b) * length ks"
  using assms by (induction ks) (auto simp: sepBytes_def)

lemma half_fits:
  assumes ev: "even_keys a b (insert k (set ks))" and sz: "sepBytes ks \<le> 16384"
    and xs: "set xs \<subseteq> insert k (set ks)" "2 * length xs \<le> Suc (length ks)"
  shows "sepBytes xs \<le> 16384"
proof -
  have e: "80 + (14 + a) * length ks \<le> 16384" using sep_bounds(1) [of ks a b] ev sz by (force simp: even_keys_def)
  have x: "sepBytes xs \<le> 80 + (14 + b) * length xs" using sep_bounds(2) [of xs a b] ev xs(1) by (force simp: even_keys_def)
  have "8 * ((14 + b) * length xs) = 2 * length xs * (4 * (14 + b))" by simp
  also have "\<dots> \<le> Suc (length ks) * (7 * (14 + a))" by (rule mult_le_mono) (use ev xs(2) in \<open>simp_all add: even_keys_def\<close>)
  also have "\<dots> = 7 * ((14 + a) * length ks) + 7 * (14 + a)" by (simp add: algebra_simps)
  also have "\<dots> \<le> 7 * 16304 + 7 * 2062" using e ev by (simp add: even_keys_def)
  finally have "(14 + b) * length xs \<le> 16304" by (simp add: mult.commute)
  then show ?thesis using x by simp
qed

lemma even_halves:
  assumes "even_keys a b (insert k (set ks))" and "sepBytes ks \<le> 16384"
  shows "halvesFit (insort k ks)"
  unfolding halvesFit_def
  by (intro conjI half_fits [OF assms]) (force simp: set_insort_key dest: in_set_takeD in_set_dropD)+

section \<open>Frames\<close>

text \<open>A step that only works on pages: the fields of the tree and the recorded root stay, the
  allocator stays consistent and no page is given back.\<close>

definition evolves :: "Tree \<Rightarrow> Tree \<Rightarrow> bool" where
  "evolves t t' \<longleftrightarrow> (\<exists>e'. t' = t\<lparr>eng := e'\<rparr>) \<and> eng_keeps (eng t) (eng t') \<and> eng_ok (eng t') \<and> alive (eng t) \<subseteq> alive (eng t')"

lemma evolves_fields:
  assumes "evolves t t'"
  shows "root t' = root t" "height t' = height t" "tmeta t' = tmeta t" "hintRight t' = hintRight t" "hintMax t' = hintMax t"
    "hintParent t' = hintParent t" "eng_ok (eng t')" "calm t' = calm t" "c \<in> alive (eng t) \<Longrightarrow> c \<in> alive (eng t')"
    "EngPrimaryTree (eng t') = EngPrimaryTree (eng t)" "liveRows t' = liveRows t" "liveKnown t' = liveKnown t" "crash (eng t') = crash (eng t)"
  using assms by (auto simp: evolves_def calm_def eng_keeps_def)

lemma evolves_refl: "eng_ok (eng t) \<Longrightarrow> evolves t t"
  by (auto simp: evolves_def eng_keeps_def intro: exI [of _ "eng t"])

lemma evolves_trans: "evolves a b \<Longrightarrow> evolves b c \<Longrightarrow> evolves a c"
  by (auto simp: evolves_def eng_keeps_def)

lemma alive_upd [simp]: "alive (e\<lparr>cached := C\<rparr>) = alive e" "alive (e\<lparr>epages := P\<rparr>) = alive e"
  by (simp_all add: alive_def)

lemma alive_touch [simp]: "alive (eng (touch c t)) = alive (eng t)" "alive (eng (setPage c p t)) = alive (eng t)"
  by (simp_all add: touch_def setPage_def)

lemma room_touch [simp]: "room n (eng (touch c t)) = room n (eng t)" "room n (eng (setPage c p t)) = room n (eng t)"
  by (simp_all add: room_def)

lemma eng_ok_touch [simp]: "eng_ok (eng t) \<Longrightarrow> c \<in> alive (eng t) \<Longrightarrow> eng_ok (eng (touch c t))"
  "eng_ok (eng (setPage c p t)) = eng_ok (eng t)"
  by (auto simp: eng_ok_def)

lemma evolves_touch [simp]: "eng_ok (eng t) \<Longrightarrow> c \<in> alive (eng t) \<Longrightarrow> evolves t (touch c t)"
  using eng_ok_touch(1) [of t c] by (auto simp: evolves_def eng_keeps_def EngPrimaryTree_def touch_def)

lemma evolves_setPage [simp]: "eng_ok (eng t) \<Longrightarrow> evolves t (setPage c p t)"
  using eng_ok_touch(2) [of c p t] by (auto simp: evolves_def eng_keeps_def EngPrimaryTree_def setPage_def)

lemma evolves_setPageI: "evolves t t' \<Longrightarrow> evolves t (setPage c p t')"
  using evolves_trans [of t t'] evolves_fields(7) [of t t'] by simp

lemma evolves_touchI: "evolves t t' \<Longrightarrow> c \<in> alive (eng t') \<Longrightarrow> evolves t (touch c t')"
  using evolves_trans [of t t'] evolves_fields(7) [of t t'] by simp

lemma room_mono: "room n e \<Longrightarrow> m \<le> n \<Longrightarrow> room m e"
  by (auto simp: room_def)

lemma wp_NewPage:
  assumes "eng_ok (eng t)" and "room (Suc n) (eng t)" and "Known ty" and "ty \<noteq> PageTypeSuperblock"
    and "\<And>t' pid p. evolves t t' \<Longrightarrow> room n (eng t') \<Longrightarrow> pageNew pid ty = Some p \<Longrightarrow> pg t' = (pg t)(pid := Inr p) \<Longrightarrow>
      pid \<notin> alive (eng t) \<Longrightarrow> pid \<noteq> 0 \<Longrightarrow> alive (eng t') = insert pid (alive (eng t)) \<Longrightarrow> Q (Inr pid) t'"
  shows "wp (onEng (NewPage ty)) Q t"
proof -
  obtain e' pid p where e: "onEng (NewPage ty) t = Some (t\<lparr>eng := e'\<rparr>, Inr pid)" "pageNew pid ty = Some p"
    "epages e' = (pg t)(pid := Inr p)" "pid \<notin> alive (eng t)" "pid \<noteq> 0" "alive e' = insert pid (alive (eng t))"
    "eng_ok e'" "room n e'" "eng_keeps (eng t) e'" by (rule NewPage_ok [OF assms(1-4)])
  have "evolves t (t\<lparr>eng := e'\<rparr>)" using e(6,7,9) by (auto simp: evolves_def)
  then show ?thesis using e assms(5) [of "t\<lparr>eng := e'\<rparr>" pid p] by (simp add: wp_run)
qed

lemma page_types: "Known PageTypeBTreeInternal" "Known PageTypeBTreeLeaf" "PageTypeBTreeInternal \<noteq> PageTypeSuperblock"
  "PageTypeBTreeLeaf \<noteq> PageTypeSuperblock"
  by (simp_all add: Known_def PageTypeBTreeInternal_def PageTypeBTreeLeaf_def PageTypeSuperblock_def)

lemma pageNew_ID: "pageNew pid ty = Some p \<Longrightarrow> pageID p = Some pid"
  using pageNew_spec [of pid ty] by auto

lemma node_ID: "node_page enc p pid ty hdr M \<Longrightarrow> pageID p = Some pid"
  by (simp add: node_page_def)

section \<open>Separators\<close>

lemma rebuildI:
  assumes "\<forall>e \<in> set es. internalOK e" and "keysorted es" and "internalPageBytes es \<le> 16384" and "lm \<noteq> 0" and "c \<noteq> 0" and "nhLeftmost hdr = lm"
  obtains r where "rebuildInternal c hdr es = Some (Inr r)" "\<And>P. P c = Inr r \<Longrightarrow> nodeI P c (lm, es)"
    "\<And>dst. pageID dst = Some c \<Longrightarrow> overwrite dst r = Some (r, Inr ())" "pageID r = Some c"
proof -
  from rebuildInternal_spec [OF assms(1), of c hdr] assms(3)
  obtain r where r: "rebuildInternal c hdr es = Some (Inr r)" "internal_page r c hdr (mset es)" by auto
  show thesis by (rule that [OF r(1) _ node_overwrite [OF r(2)] node_ID [OF r(2)]]) (use assms r(2) in \<open>auto simp: nodeI_def\<close>)
qed

lemma sort_snoc:
  assumes "keysorted es" and "k \<notin> fst ` set es"
  shows "insertionSort (\<lambda>a b. compare (fst a) (fst b) < 0) (es @ [(k, v)]) = insort_key fst (k, v) es"
  by (rule insertionSort_keysorted) (use assms in \<open>auto simp: insort_keysorted\<close>)

lemma set_insort: "set (insort_key fst x es) = insert x (set es)"
  by (rule set_insort_key)

lemma splitInternal_ok:
  fixes n :: level and sep r
  defines "al \<equiv> insort_key fst (sep, r) (snd n)"
  assumes n: "nodeI (pg t) c n" and t: "c \<in> alive (eng t)" "eng_ok (eng t)" "room (Suc k) (eng t)"
    and s: "internalOK (sep, r)" "sep \<notin> fst ` set (snd n)" and fit: "halvesFit (map fst al)"
    and h: "nhLeftmost hdr = fst n"
  shows "wp (splitInternal c hdr (snd n) (sep, r)) (\<lambda>res t'. evolves t t' \<and> room k (eng t') \<and>
     (\<exists>mid q. res = Inr (fst (al ! mid), q) \<and> mid = length al div 2 \<and> q \<notin> alive (eng t) \<and> q \<noteq> 0 \<and> q \<in> alive (eng t') \<and>
        nodeI (pg t') c (fst n, take mid al) \<and> nodeI (pg t') q (snd (al ! mid), drop (Suc mid) al) \<and>
        (\<forall>x. x \<noteq> c \<longrightarrow> x \<noteq> q \<longrightarrow> pg t' x = pg t x))) t"
proof -
  define mid where "mid = length al div 2"
  have nI: "c \<noteq> 0" "fst n \<noteq> 0" "keysorted (snd n)" "\<forall>e \<in> set (snd n). internalOK e" using n by (auto simp: nodeI_def)
  have al: "set al = insert (sep, r) (set (snd n))" "keysorted al" "length al = Suc (length (snd n))"
    unfolding al_def using nI(3) s(2) by (auto simp: set_insort insort_keysorted)
  have sort: "sortInternals (snd n @ [(sep, r)]) = al" unfolding al_def sortInternals_def using sort_snoc [OF nI(3) s(2)] .
  have ok: "\<forall>e \<in> set al. internalOK e" using nI(4) s(1) al(1) by auto
  have mid: "mid < length al" using al(3) by (simp add: mid_def)
  have parts: "keysorted (take mid al)" "keysorted (drop (Suc mid) al)"
    using al(2) by (simp_all add: keysorted_def sorted_wrt_take sorted_wrt_drop flip: take_map drop_map)
  have fits: "internalPageBytes (take mid al) \<le> 16384" "internalPageBytes (drop (Suc mid) al) \<le> 16384"
    using fit by (simp_all add: halvesFit_def mid_def internalPageBytes_sep take_map drop_map)
  have oks: "\<forall>e \<in> set (take mid al). internalOK e" "\<forall>e \<in> set (drop (Suc mid) al). internalOK e" "snd (al ! mid) \<noteq> 0"
    using ok mid by (auto dest: in_set_takeD in_set_dropD simp: internalOK_def)
  obtain p where p: "pg t c = Inr p" "pageID p = Some c" using n by (auto simp: nodeI_def node_page_def)
  obtain L where L: "rebuildInternal c (emptyHdr\<lparr>nhLeftmost := fst n\<rparr>) (take mid al) = Some (Inr L)" "\<And>P. P c = Inr L \<Longrightarrow> nodeI P c (fst n, take mid al)"
    "\<And>dst. pageID dst = Some c \<Longrightarrow> overwrite dst L = Some (L, Inr ())"
    by (rule rebuildI [of "take mid al" "fst n" c "emptyHdr\<lparr>nhLeftmost := fst n\<rparr>"])
      (use oks nI parts fits in simp_all)
  have m: "(let m = length al div 2 in if m \<ge> length al then length al - 1 else m) = mid" using mid by (simp add: mid_def)
  have e: "\<not> length al < 1" using al(3) by simp
  show ?thesis
    unfolding splitInternal_def sort Let_def [of al] if_not_P [OF e] m unfolding Let_def wp_simps
  proof (rule wp_NewPage [OF t(2,3)])
    fix t' q pn
    assume a: "evolves t t'" "room k (eng t')" "pageNew q PageTypeBTreeInternal = Some pn" "pg t' = (pg t)(q := Inr pn)"
      "q \<notin> alive (eng t)" "q \<noteq> 0" "alive (eng t') = insert q (alive (eng t))"
    obtain R where R: "rebuildInternal q (emptyHdr\<lparr>nhLeftmost := snd (al ! mid)\<rparr>) (drop (Suc mid) al) = Some (Inr R)"
      "\<And>P. P q = Inr R \<Longrightarrow> nodeI P q (snd (al ! mid), drop (Suc mid) al)" "\<And>dst. pageID dst = Some q \<Longrightarrow> overwrite dst R = Some (R, Inr ())"
      by (rule rebuildI [of "drop (Suc mid) al" "snd (al ! mid)" q "emptyHdr\<lparr>nhLeftmost := snd (al ! mid)\<rparr>"])
        (use oks a(6) parts fits in simp_all)
    have qc: "q \<noteq> c" using a(5) t(1) by auto
    let ?t = "setPage c L (touch c (setPage q R t'))"
    have "evolves t ?t"
      using a(7) t(1) by (intro evolves_setPageI evolves_touchI a(1)) simp
    then show "andThen (\<lambda>rightID. pbind (pgo (rebuildInternal c (emptyHdr\<lparr>nhLeftmost := nhLeftmost hdr\<rparr>) (take mid al)))
        (\<lambda>leftPage. pbind (pgo (rebuildInternal rightID (emptyHdr\<lparr>nhLeftmost := snd (al ! mid)\<rparr>) (drop (mid + 1) al)))
          (\<lambda>rightPage. pbind (pageDo rightID (\<lambda>p. overwrite p rightPage))
            (\<lambda>_. pbind (pin c) (\<lambda>h. pbind (pageDo h (\<lambda>p. overwrite p leftPage)) (\<lambda>_. pret (fst (al ! mid), rightID)))))))
      (\<lambda>res t'. evolves t t' \<and> room k (eng t') \<and>
       (\<exists>mid q. res = Inr (fst (al ! mid), q) \<and> mid = length al div 2 \<and> q \<notin> alive (eng t) \<and> q \<noteq> 0 \<and> q \<in> alive (eng t') \<and>
          nodeI (pg t') c (fst n, take mid al) \<and> nodeI (pg t') q (snd (al ! mid), drop (Suc mid) al) \<and>
          (\<forall>x. x \<noteq> c \<longrightarrow> x \<noteq> q \<longrightarrow> pg t' x = pg t x))) (Inr q) t'"
      using a L R p qc mid nI(1) pageNew_ID [OF a(3)]
      by (simp add: wp_simps h mid_def [symmetric])
  qed (simp_all add: page_types)
qed

text \<open>What adding a separator to one node does: it takes it, or it is split.\<close>

definition sepPut :: "Tree \<Rightarrow> PageID \<Rightarrow> level \<Rightarrow> internalEntry list \<Rightarrow> (bytes \<times> PageID) option \<Rightarrow> Tree \<Rightarrow> bool" where
  "sepPut t c n al up t' \<longleftrightarrow> (case up of
      None \<Rightarrow> nodeI (pg t') c (fst n, al) \<and> (\<forall>x. x \<noteq> c \<longrightarrow> pg t' x = pg t x)
    | Some (k, q) \<Rightarrow> \<exists>mid. mid = length al div 2 \<and> 16384 < internalPageBytes al \<and> k = fst (al ! mid) \<and> q \<notin> alive (eng t) \<and> q \<noteq> 0 \<and> q \<in> alive (eng t') \<and>
        nodeI (pg t') c (fst n, take mid al) \<and> nodeI (pg t') q (snd (al ! mid), drop (Suc mid) al) \<and>
        (\<forall>x. x \<noteq> c \<longrightarrow> x \<noteq> q \<longrightarrow> pg t' x = pg t x))"

lemma putSeparator_ok:
  fixes n :: level and sep r
  defines "al \<equiv> insort_key fst (sep, r) (snd n)"
  assumes n: "nodeI (pg t) c n" and t: "c \<in> alive (eng t)" "eng_ok (eng t)" "room (Suc k) (eng t)"
    and s: "internalOK (sep, r)" "sep \<notin> fst ` set (snd n)" and fit: "sepBytes (map fst al) \<le> 16384 \<or> halvesFit (map fst al)"
  shows "wp (putSeparator c sep r) (\<lambda>res t'. evolves t t' \<and> room k (eng t') \<and> (\<exists>up. res = Inr up \<and> sepPut t c n al up t')) t"
    (is "wp _ ?Q t")
proof -
  have nI: "c \<noteq> 0" "fst n \<noteq> 0" "keysorted (snd n)" "\<forall>e \<in> set (snd n). internalOK e" using n by (auto simp: nodeI_def)
  have al: "set al = insert (sep, r) (set (snd n))" "keysorted al" "mset al = add_mset (sep, r) (mset (snd n))"
    unfolding al_def using nI(3) s(2) by (auto simp: set_insort insort_keysorted)
  have sort: "sortInternals (snd n @ [(sep, r)]) = al" unfolding al_def sortInternals_def using sort_snoc [OF nI(3) s(2)] .
  have ok: "\<forall>e \<in> set al. internalOK e" using nI(4) s(1) al(1) by auto
  obtain p hdr where p: "pg t c = Inr p" "internal_page p c hdr (mset (snd n))" "nhLeftmost hdr = fst n"
    "expectType p PageTypeBTreeInternal = Some (Inr ())" "readHeader p = Some (Inr hdr)" "collectInternals p = Some (Inr (snd n))"
    "maxInternalKey p = Some (Inr (if snd n = [] then None else Some (fst (last (snd n)))))" by (rule nodeI_reads [OF n])
  have enc: "encodeInternal sep r = Some (Inr (internalBytes (sep, r)))" using encodeInternal_ok [OF s(1)] by simp
  have fits: "internalFits hdr al \<longleftrightarrow> internalPageBytes al \<le> 16384"
    using ok by (auto simp: internalFits_def list_all_iff internalOK_def keyOK_def internalRecordSize_def)
  let ?t = "touch c t"
  let ?slow = "\<lambda>t. wp (pbind (pageRead c collectInternals) (\<lambda>ents.
      let nxt = sortInternals (ents @ [(sep, r)]) in
      if internalFits hdr nxt
      then pbind (pgo (rebuildInternal c hdr nxt)) (\<lambda>rebuilt. pbind (pageDo c (\<lambda>p. overwrite p rebuilt)) (\<lambda>_. pret None))
      else pbind (splitInternal c hdr ents (sep, r)) (\<lambda>up. pret (Some up)))) ?Q t"
  have ev1: "evolves t ?t" using t by simp
  have slow: "?slow ?t"
  proof (cases "internalPageBytes al \<le> 16384")
    case True
    obtain R where R: "rebuildInternal c hdr al = Some (Inr R)" "\<And>P. P c = Inr R \<Longrightarrow> nodeI P c (fst n, al)"
      "\<And>dst. pageID dst = Some c \<Longrightarrow> overwrite dst R = Some (R, Inr ())" "pageID R = Some c"
      by (rule rebuildI [OF ok al(2) True nI(2,1) p(3)], rule that)
    show ?thesis using True R p node_ID [OF p(2)] fits ev1 room_mono [OF t(3), of k]
      by (auto simp: wp_simps sort sepPut_def intro: evolves_setPageI)
  next
    case False
    then have hf: "halvesFit (map fst (insort_key fst (sep, r) (snd n)))" using fit by (simp add: internalPageBytes_sep al_def)
    have "wp (splitInternal c hdr (snd n) (sep, r)) (andThen (\<lambda>up. pret (Some up)) ?Q) ?t"
      by (rule wp_mono [OF splitInternal_ok [where n = n and sep = sep and r = r and t = ?t and k = k, OF _ _ _ _ s hf p(3)]])
        (use False n t ev1 in \<open>auto simp: wp_simps sepPut_def al_def dest: evolves_trans [OF ev1]\<close>)
    then show ?thesis using False p fits by (simp add: wp_simps sort)
  qed
  obtain mx where mx: "maxInternalKey p = Some (Inr mx)" using p(7) by blast
  show ?thesis
  proof (cases "case mx of None \<Rightarrow> True | Some m \<Rightarrow> compare m sep < 0")
    case True
    from p(2) intC.enc_size [OF s(1)] show ?thesis
    proof (cases rule: node_append)
      case (1 R i)
      have "nodeI ((pg t)(c := Inr R)) c (fst n, al)" using 1(2) nI al ok p(3) by (auto simp: nodeI_def)
      then show ?thesis using True 1(1) p(1-6) mx nI(1) enc ev1 room_mono [OF t(3), of k] unfolding putSeparator_def
        by (auto simp: wp_simps sepPut_def intro: evolves_setPageI)
    next
      case 2
      have "setPage c p ?t = ?t" using p(1) by (simp add: setPage_def touch_def fun_upd_idem)
      then show ?thesis using True 2 p(1-6) mx nI(1) enc slow unfolding putSeparator_def
        by (simp add: wp_simps HasCode_def)
    qed
  next
    case False
    then show ?thesis using p(1-6) mx nI(1) enc slow unfolding putSeparator_def by (simp add: wp_simps)
  qed
qed

text \<open>Where a half does not fit, the split fails after its caller has already split the node below: no page in use
  is changed, so nothing above points to the new right sibling.\<close>

lemma splitInternal_overflow:
  fixes n :: level and sep r
  defines "al \<equiv> insort_key fst (sep, r) (snd n)"
  assumes n: "nodeI (pg t) c n" and t: "eng_ok (eng t)" "room (Suc k) (eng t)"
    and s: "internalOK (sep, r)" "sep \<notin> fst ` set (snd n)" and fit: "\<not> halvesFit (map fst al)"
  shows "wp (splitInternal c hdr (snd n) (sep, r)) (\<lambda>res t'. (evolves t t' \<and> (\<forall>x \<in> alive (eng t). pg t' x = pg t x)) \<and>
    res = Inl (New PageFull ''page.Insert'' ''page is full'')) t"
proof -
  define mid where "mid = length al div 2"
  have nI: "keysorted (snd n)" "\<forall>e \<in> set (snd n). internalOK e" using n by (auto simp: nodeI_def)
  have al: "set al = insert (sep, r) (set (snd n))" "length al = Suc (length (snd n))"
    unfolding al_def using nI(1) s(2) by (auto simp: set_insort)
  have sort: "sortInternals (snd n @ [(sep, r)]) = al" unfolding al_def sortInternals_def using sort_snoc [OF nI(1) s(2)] .
  have "\<forall>e \<in> set al. internalOK e" using nI(2) s(1) al(1) by auto
  then have oks: "\<forall>e \<in> set (take mid al). internalOK e" "\<forall>e \<in> set (drop (Suc mid) al). internalOK e"
    by (meson in_set_takeD in_set_dropD)+
  have big: "16384 < internalPageBytes (take mid al) \<or> 16384 < internalPageBytes (drop (Suc mid) al)"
    using fit by (auto simp: halvesFit_def mid_def internalPageBytes_sep take_map drop_map)
  have "mid < length al" using al(2) by (simp add: mid_def)
  then have m: "(let m = length al div 2 in if m \<ge> length al then length al - 1 else m) = mid" "\<not> length al < 1"
    unfolding Let_def mid_def [symmetric] by auto
  show ?thesis
    unfolding splitInternal_def sort Let_def [of al] if_not_P [OF m(2)] m(1) unfolding Let_def wp_simps
  proof (rule wp_NewPage [OF t], goal_cases)
    case (3 t' q pn)
    then have "\<forall>x \<in> alive (eng t). pg t' x = pg t x" by auto
    then show ?case using 3(1) big rebuildInternal_spec [OF oks(1), of c "emptyHdr\<lparr>nhLeftmost := nhLeftmost hdr\<rparr>"]
        rebuildInternal_spec [OF oks(2), of q "emptyHdr\<lparr>nhLeftmost := snd (al ! mid)\<rparr>"]
      by (auto simp: wp_simps split: if_splits)
  qed (simp_all add: page_types)
qed

lemma putSeparator_overflow:
  fixes n :: level and sep r
  defines "al \<equiv> insort_key fst (sep, r) (snd n)"
  assumes n: "nodeI (pg t) c n" and t: "c \<in> alive (eng t)" "eng_ok (eng t)" "room (Suc k) (eng t)"
    and s: "internalOK (sep, r)" "sep \<notin> fst ` set (snd n)" and fit: "16384 < sepBytes (map fst al)" "\<not> halvesFit (map fst al)"
  shows "wp (putSeparator c sep r) (\<lambda>res t'. (evolves t t' \<and> (\<forall>x \<in> alive (eng t). pg t' x = pg t x)) \<and>
    res = Inl (New PageFull ''page.Insert'' ''page is full'')) t" (is "wp _ ?Q t")
proof -
  have nI: "c \<noteq> 0" "fst n \<noteq> 0" "keysorted (snd n)" "\<forall>e \<in> set (snd n). internalOK e" using n by (auto simp: nodeI_def)
  have al: "set al = insert (sep, r) (set (snd n))" "keysorted al" "mset al = add_mset (sep, r) (mset (snd n))"
    unfolding al_def using nI(3) s(2) by (auto simp: set_insort insort_keysorted)
  have sort: "sortInternals (snd n @ [(sep, r)]) = al" unfolding al_def sortInternals_def using sort_snoc [OF nI(3) s(2)] .
  have ok: "\<forall>e \<in> set al. internalOK e" using nI(4) s(1) al(1) by auto
  obtain p hdr where p: "pg t c = Inr p" "internal_page p c hdr (mset (snd n))" "nhLeftmost hdr = fst n"
    "expectType p PageTypeBTreeInternal = Some (Inr ())" "readHeader p = Some (Inr hdr)" "collectInternals p = Some (Inr (snd n))"
    "maxInternalKey p = Some (Inr (if snd n = [] then None else Some (fst (last (snd n)))))" by (rule nodeI_reads [OF n])
  have enc: "encodeInternal sep r = Some (Inr (internalBytes (sep, r)))" using encodeInternal_ok [OF s(1)] by simp
  have big: "\<not> internalPageBytes al \<le> 16384" using fit(1) by (simp add: internalPageBytes_sep)
  then have nf: "\<not> internalFits hdr al" by (simp add: internalFits_def)
  let ?t = "touch c t"
  have "wp (splitInternal c hdr (snd n) (sep, r)) (andThen (\<lambda>up. pret (Some up)) ?Q) ?t"
    by (rule wp_mono [OF splitInternal_overflow [where n = n and sep = sep and r = r and t = ?t and k = k, OF _ _ _ s]])
      (use n t fit(2) in \<open>auto simp: al_def wp_simps dest: evolves_trans [OF evolves_touch [OF t(2,1)]]\<close>)
  then have slow: "wp (pbind (pageRead c collectInternals) (\<lambda>ents.
      let nxt = sortInternals (ents @ [(sep, r)]) in
      if internalFits hdr nxt
      then pbind (pgo (rebuildInternal c hdr nxt)) (\<lambda>rebuilt. pbind (pageDo c (\<lambda>p. overwrite p rebuilt)) (\<lambda>_. pret None))
      else pbind (splitInternal c hdr ents (sep, r)) (\<lambda>up. pret (Some up)))) ?Q ?t"
    using p nf by (simp add: wp_simps sort)
  obtain mx where mx: "maxInternalKey p = Some (Inr mx)" using p(7) by blast
  show ?thesis
  proof (cases "case mx of None \<Rightarrow> True | Some m \<Rightarrow> compare m sep < 0")
    case True
    from p(2) intC.enc_size [OF s(1)] show ?thesis
    proof (cases rule: node_append)
      case (1 R i)
      have "nodeI ((pg t)(c := Inr R)) c (fst n, al)" using 1(2) nI al ok p(3) by (auto simp: nodeI_def)
      then show ?thesis using nodeI_bytes big by fastforce
    next
      case 2
      have "setPage c p ?t = ?t" using p(1) by (simp add: setPage_def touch_def fun_upd_idem)
      then show ?thesis using True 2 p(1-6) mx nI(1) enc slow unfolding putSeparator_def
        by (simp add: wp_simps HasCode_def)
    qed
  next
    case False
    then show ?thesis using p(1-6) mx nI(1) enc slow unfolding putSeparator_def by (simp add: wp_simps)
  qed
qed

section \<open>Levels of the tree\<close>

definition ids :: "inodes \<Rightarrow> PageID \<Rightarrow> nat \<Rightarrow> PageID list" where
  "ids N rt m = concat (map (\<lambda>i. lids (lev N rt i)) [0..<m])"

definition routes :: "inodes \<Rightarrow> PageID \<Rightarrow> bytes \<Rightarrow> nat \<Rightarrow> PageID list" where
  "routes N rt key m = map (\<lambda>i. route (lev N rt i) key) [0..<m]"

definition inner :: "pages \<Rightarrow> inodes \<Rightarrow> PageID \<Rightarrow> nat \<Rightarrow> bool" where
  "inner P N rt m \<longleftrightarrow> (\<forall>c \<in> set (ids N rt m). nodeI P c (N c)) \<and> lsorted (lev N rt m) \<and> distinct (ids N rt m)"

lemma ids_simps [simp]: "ids N rt 0 = []" "ids N rt (Suc m) = ids N rt m @ lids (lev N rt m)"
  by (simp_all add: ids_def)

lemma routes_simps [simp]: "routes N rt key 0 = []" "routes N rt key (Suc m) = routes N rt key m @ [route (lev N rt m) key]"
  by (simp_all add: routes_def)

lemma lids_flat: "lids (flat N l) = concat (map (\<lambda>c. lids (N c)) (lids l))"
proof -
  have "map snd (flatE N es) = concat (map (\<lambda>c. lids (N c)) (map snd es))" for es by (induction es) (auto simp: lids_def)
  then show ?thesis by (simp add: lids_def flat_def)
qed

lemma lev_cong:
  assumes "\<forall>c \<in> set (ids N rt m). M c = N c"
  shows "lev M rt m = lev N rt m" and "ids M rt m = ids N rt m"
  using assms by (induction m) (auto intro!: flat_cong)

lemma flat_unique:
  assumes "distinct (lids (flat N l))" and "c \<in> set (lids l)" and "d \<in> set (lids l)" and "x \<in> set (lids (N c))" and "x \<in> set (lids (N d))"
  shows "c = d"
proof (rule ccontr)
  assume ne: "c \<noteq> d"
  obtain xs ys where l: "lids l = xs @ c # ys" using assms(2) by (meson split_list)
  then have "d \<in> set xs \<or> d \<in> set ys" using assms(3) ne by auto
  then show False using assms(1,4,5) unfolding lids_flat l by auto
qed

lemma inner_Suc: "inner P N rt (Suc m) \<Longrightarrow> inner P N rt m"
  by (auto simp: inner_def dest: flat_sorted)

lemma inner_lev: "inner P N rt m \<Longrightarrow> i \<le> m \<Longrightarrow> lsorted (lev N rt i)" and inner_distinct: "inner P N rt m \<Longrightarrow> i < m \<Longrightarrow> distinct (lids (lev N rt i))"
  and inner_node: "inner P N rt m \<Longrightarrow> i < m \<Longrightarrow> c \<in> set (lids (lev N rt i)) \<Longrightarrow> nodeI P c (N c)"
  by (auto simp: inner_def ids_def distinct_concat_iff intro: lev_sorted)

lemma route_up:
  assumes "inner P N rt m" and "Suc i < m" and "route (lev N rt (Suc i)) a = route (lev N rt (Suc i)) b"
  shows "route (lev N rt i) a = route (lev N rt i) b"
proof -
  let ?l = "lev N rt i"
  have s: "lsorted (flat N ?l)" "lsorted ?l" using inner_lev [OF assms(1), of "Suc i"] inner_lev [OF assms(1), of i] assms(2) by simp_all
  have d: "distinct (lids (flat N ?l))" "distinct (lids ?l)"
    using inner_distinct [OF assms(1), of "Suc i"] inner_distinct [OF assms(1), of i] assms(2) by simp_all
  have "route (lev N rt (Suc i)) k \<in> set (lids (N (route ?l k)))" "route ?l k \<in> set (lids ?l)" for k
    using route_flat [OF s(1) d(2), of k] route_in [OF s(2), of k] route_in [OF node_sorted [OF s(1) route_in [OF s(2), of k]], of k] by simp_all
  then show ?thesis using flat_unique [OF d(1)] assms(3) by metis
qed

lemma routes_up:
  assumes "inner P N rt m" and "i < m" and "route (lev N rt i) a = route (lev N rt i) b"
  shows "routes N rt a i = routes N rt b i"
  using assms
proof (induction i)
  case (Suc i)
  then have "route (lev N rt i) a = route (lev N rt i) b" using route_up by blast
  with Suc show ?case by simp
qed simp

lemma routes_cong:
  assumes "\<forall>c \<in> set (ids N rt m). M c = N c"
  shows "routes N rt key m = routes M rt key m"
  using assms lev_cong(1) [of N rt _ M] by (induction m) auto

text \<open>Every internal node that has to be split when \<open>sep\<close> is added below level \<open>m\<close> is cut into two that fit: the
  node \<open>sep\<close> is routed to takes it, or its halves fit and the nodes above it can take the separator between them.\<close>

fun cutsFit :: "inodes \<Rightarrow> PageID \<Rightarrow> nat \<Rightarrow> bytes \<Rightarrow> bool" where
  "cutsFit N rt 0 sep = True"
| "cutsFit N rt (Suc m) sep = (let ks = insort sep (map fst (snd (N (route (lev N rt m) sep)))) in
     sepBytes ks \<le> 16384 \<or> halvesFit ks \<and> cutsFit N rt m (ks ! (length ks div 2)))"

lemma cutsFit_cong:
  assumes "\<forall>c \<in> set (ids N rt m). M c = N c" and "inner P N rt m"
  shows "cutsFit M rt m sep = cutsFit N rt m sep"
  using assms
proof (induction m arbitrary: sep)
  case (Suc m)
  have "lev M rt m = lev N rt m" using Suc.prems(1) by (intro lev_cong) auto
  moreover have "route (lev N rt m) sep \<in> set (lids (lev N rt m))" using route_in inner_lev [OF Suc.prems(2), of m] by simp
  ultimately show ?case using Suc inner_Suc by (simp add: Let_def)
qed simp

lemma node_keys: "c \<in> set (lids l) \<Longrightarrow> x \<in> set (snd (N c)) \<Longrightarrow> x \<in> set (snd (flat N l))"
  by (auto simp: lids_def flat_def flatE_def)

lemma even_cutsFit:
  assumes "inner P N rt m" and "even_keys a b (insert sep (fst ` set (snd (lev N rt m))))"
  shows "cutsFit N rt m sep"
  using assms
proof (induction m arbitrary: sep)
  case (Suc m)
  let ?c = "route (lev N rt m) sep" and ?l = "lev N rt m"
  let ?ks = "map fst (snd (N ?c))"
  have cl: "?c \<in> set (lids ?l)" using route_in inner_lev [OF Suc.prems(1), of m] by simp
  have sub: "set ?ks \<subseteq> fst ` set (snd (lev N rt (Suc m)))" "fst ` set (snd ?l) \<subseteq> fst ` set (snd (lev N rt (Suc m)))"
    using node_keys [OF cl] flat_keys [of _ ?l N] by force+
  have sz: "sepBytes ?ks \<le> 16384" using nodeI_bytes [OF inner_node [OF Suc.prems(1) _ cl]] by (simp add: internalPageBytes_sep)
  have "even_keys a b (insert sep (set ?ks))" by (rule even_keys_mono [OF Suc.prems(2)]) (use sub in auto)
  from even_halves [OF this sz] have "halvesFit (insort sep ?ks)" .
  moreover have "insort sep ?ks ! (length (insort sep ?ks) div 2) \<in> insert sep (set ?ks)"
    unfolding set_insort_key [of "\<lambda>x. x", symmetric] by (rule nth_mem) simp
  then have "cutsFit N rt m (insort sep ?ks ! (length (insort sep ?ks) div 2))"
    by (intro Suc.IH inner_Suc [OF Suc.prems(1)] even_keys_mono [OF Suc.prems(2)]) (use sub in auto)
  ultimately show ?case by (simp only: cutsFit.simps Let_def) simp
qed simp

section \<open>Adding a separator to the tree\<close>

text \<open>A step that may also move the root.\<close>

definition keeps :: "Tree \<Rightarrow> Tree \<Rightarrow> bool" where
  "keeps t t' \<longleftrightarrow> tmeta t' = tmeta t \<and> hintRight t' = hintRight t \<and> hintMax t' = hintMax t \<and> hintParent t' = hintParent t \<and>
     liveRows t' = liveRows t \<and> liveKnown t' = liveKnown t \<and> crash (eng t') = crash (eng t) \<and>
     eng_ok (eng t') \<and> alive (eng t) \<subseteq> alive (eng t')"

lemma keeps_fields:
  assumes "keeps t t'"
  shows "tmeta t' = tmeta t" "hintRight t' = hintRight t" "hintMax t' = hintMax t" "hintParent t' = hintParent t" "eng_ok (eng t')"
    "calm t' = calm t" "c \<in> alive (eng t) \<Longrightarrow> c \<in> alive (eng t')"
  using assms by (auto simp: keeps_def calm_def)

lemma evolves_keeps: "evolves t t' \<Longrightarrow> keeps t t'"
  by (auto simp: evolves_def keeps_def eng_keeps_def)

lemma keeps_trans: "keeps a b \<Longrightarrow> keeps b c \<Longrightarrow> keeps a c"
  by (auto simp: keeps_def)

definition metaOK :: "Tree \<Rightarrow> bool" where
  "metaOK t \<longleftrightarrow> meta_at t (root t) (word_of_int (height t)) \<and> (tmeta t \<noteq> 0 \<longrightarrow> tmeta t \<in> alive (eng t))"

text \<open>The outcome: the level below the internal nodes has gained the separator; at most the
  internal nodes, new pages and the metadata page have changed.\<close>

definition sepDone :: "Tree \<Rightarrow> inodes \<Rightarrow> nat \<Rightarrow> bytes \<Rightarrow> PageID \<Rightarrow> Tree \<Rightarrow> bool" where
  "sepDone t N m sep r t' \<longleftrightarrow> keeps t t' \<and> metaOK t' \<and>
     (\<exists>N' d. d \<le> 1 \<and> height t' = height t + int d \<and> inner (pg t') N' (root t') (m + d) \<and>
        lev N' (root t') (m + d) = insL sep r (lev N (root t) m) \<and>
        set (ids N' (root t') (m + d)) \<subseteq> alive (eng t') - (alive (eng t) - set (ids N (root t) m)) \<and>
        (\<forall>c \<in> alive (eng t) - set (ids N (root t) m). N' c = N c)) \<and>
     (\<forall>x \<in> alive (eng t) - set (ids N (root t) m). x \<noteq> tmeta t \<longrightarrow> pg t' x = pg t x)"

lemma sepDoneI:
  assumes "keeps t t'" and "metaOK t'" and "d \<le> 1" and "height t' = height t + int d" and "inner (pg t') N' (root t') (m + d)"
    and "lev N' (root t') (m + d) = insL sep r (lev N (root t) m)" and "set (ids N' (root t') (m + d)) \<subseteq> alive (eng t')"
    and "set (ids N' (root t') (m + d)) \<inter> alive (eng t) \<subseteq> set (ids N (root t) m)"
    and "\<forall>c \<in> alive (eng t) - set (ids N (root t) m). N' c = N c"
    and "\<forall>x \<in> alive (eng t) - set (ids N (root t) m). x \<noteq> tmeta t \<longrightarrow> pg t' x = pg t x"
  shows "sepDone t N m sep r t'"
  unfolding sepDone_def using assms by blast

lemma height_word: "0 < h \<Longrightarrow> h < 65535 \<Longrightarrow> word_of_int (h + 1) \<noteq> (0 :: u16)"
proof
  assume h: "0 < h" "h < 65535" "word_of_int (h + 1) = (0 :: u16)"
  have "uint (word_of_int (h + 1) :: u16) = (h + 1) mod 65536" by (simp only: uint_word_of_int) simp
  then show False using h by simp
qed

lemma newRoot_ok:
  assumes t: "eng_ok (eng t)" "room (Suc 0) (eng t)" "metaOK t" "root t \<noteq> 0" "root t \<in> alive (eng t)" "0 < height t" "height t < 65535"
    and s: "internalOK (sep, r)"
  shows "wp (newRoot (root t) sep r) (\<lambda>res t'. res = Inr () \<and> sepDone t N 0 sep r t') t"
  unfolding newRoot_def wp_simps
proof (rule wp_NewPage [OF t(1,2)])
  fix t' q pn
  assume a: "evolves t t'" "room 0 (eng t')" "pageNew q PageTypeBTreeInternal = Some pn" "pg t' = (pg t)(q := Inr pn)"
    "q \<notin> alive (eng t)" "q \<noteq> 0" "alive (eng t') = insert q (alive (eng t))"
  note f = evolves_fields [OF a(1)]
  have sz: "internalPageBytes [(sep, r)] \<le> 16384" using s by (simp add: internalPageBytes_def internalRecordSize_def internalOK_def keyOK_def)
  obtain R where R: "rebuildInternal q (emptyHdr\<lparr>nhLeftmost := root t\<rparr>) [(sep, r)] = Some (Inr R)"
    "\<And>P. P q = Inr R \<Longrightarrow> nodeI P q (root t, [(sep, r)])" "\<And>dst. pageID dst = Some q \<Longrightarrow> overwrite dst R = Some (R, Inr ())" "pageID R = Some q"
    by (rule rebuildI [of "[(sep, r)]" "root t" q "emptyHdr\<lparr>nhLeftmost := root t\<rparr>"]) (use s sz t a in simp_all)
  let ?t = "(setPage q R t')\<lparr>root := q, height := height t + 1\<rparr>"
  have "wp persistTree (\<lambda>res t'. res = Inr () \<and> sepDone t N 0 sep r t') ?t"
  proof -
    have m: "meta_at ?t (root t) (word_of_int (height t))"
      using t(3) a f by (auto simp: metaOK_def meta_at_def setPage_def EngPrimaryTree_def)
    have ht: "height ?t = height t + 1" "word_of_int (height t + 1) \<noteq> (0 :: u16)" using height_word [of "height t"] t(6,7) by simp_all
    have al: "eng_ok (eng ?t)" "alive (eng ?t) = insert q (alive (eng t))" "tmeta ?t = tmeta t" using f a by simp_all
    obtain e' where e: "persistTree ?t = Some (?t\<lparr>eng := e'\<rparr>, Inr ())" "meta_at (?t\<lparr>eng := e'\<rparr>) (root ?t) (word_of_int (height ?t))"
      "\<forall>c. c = 0 \<or> c \<noteq> tmeta ?t \<longrightarrow> epages e' c = pg ?t c" "same_alloc (eng ?t) e'" "crash e' = crash (eng ?t)"
      by (rule persist_ok [OF m, of thesis]) (use a ht al t(3) in \<open>auto simp: metaOK_def alive_def\<close>)
    have qm: "q \<noteq> tmeta t" using a(5,6) t(3) by (auto simp: metaOK_def)
    let ?N = "N(q := (root t, [(sep, r)]))" and ?e = "?t\<lparr>eng := e'\<rparr>"
    have "nodeI (pg ?e) q (?N q)" using R(2) [of "pg ?e"] e(3) [rule_format, of q] qm f(3) by simp
    then have "inner (pg ?e) ?N q (0 + 1)" by (simp add: inner_def lids_def flat_def)
    moreover have "lev ?N q (0 + 1) = insL sep r (lev N (root t) 0)" by (simp add: flat_def insL_def)
    moreover have "keeps t ?e" using e(4,5) al a(7) f by (auto simp: keeps_def same_alloc_def)
    moreover have "metaOK ?e" using e(2,4) al t(3) by (auto simp: metaOK_def same_alloc_def)
    ultimately have "sepDone t N 0 sep r ?e" unfolding sepDone_def
      using e(3,4) al a(4,5) qm ht(1) by (auto simp: same_alloc_def lids_def intro!: exI [of _ ?N] exI [of _ 1])
    then show ?thesis using e(1) by (simp add: wp_def)
  qed
  then show "andThen (\<lambda>h. pbind (pgo (rebuildInternal h (emptyHdr\<lparr>nhLeftmost := root t\<rparr>) [(sep, r)]))
      (\<lambda>rebuilt. pbind (pageDo h (\<lambda>p. overwrite p rebuilt))
        (\<lambda>_. pbind (pmodify (\<lambda>t. t\<lparr>root := h, height := height t + 1\<rparr>)) (\<lambda>_. persistTree))))
    (\<lambda>res t'. res = Inr () \<and> sepDone t N 0 sep r t') (Inr q) t'"
    using a R pageNew_ID [OF a(3)] f by (simp add: wp_simps)
qed (simp_all add: page_types)

lemma metaOK_evolves: "metaOK t \<Longrightarrow> evolves t t' \<Longrightarrow> pg t' (tmeta t) = pg t (tmeta t) \<Longrightarrow> metaOK t'"
  using evolves_fields [of t t'] by (auto simp: metaOK_def meta_at_def)

lemma insL_sorted: "lsorted l \<Longrightarrow> k \<notin> fst ` set (snd l) \<Longrightarrow> lsorted (insL k c l)"
  by (simp add: insL_def insort_keysorted)

lemma insL_keys: "fst ` set (snd (insL k c l)) = insert k (fst ` set (snd l))"
  by (simp add: insL_def set_insort_key)

lemma insL_set_lids: "set (lids (insL k c l)) = insert c (set (lids l))"
  by (auto simp: insL_def lids_def set_insort_key)

lemma insL_distinct:
  assumes "distinct (lids l)" and "c \<notin> set (lids l)"
  shows "distinct (lids (insL k c l))"
proof -
  have "mset (lids (insL k c l)) = mset (c # lids l)" by (simp add: insL_def lids_def)
  then show ?thesis using assms mset_eq_imp_distinct_iff [of "lids (insL k c l)" "c # lids l"] by simp
qed

text \<open>The node takes the separator.\<close>

lemma sepDone_take:
  assumes i: "inner (pg t) N (root t) (Suc m)" and c: "c = route (lev N (root t) m) sep"
    and s: "sep \<notin> fst ` set (snd (lev N (root t) (Suc m)))" and ev: "evolves t t'"
    and n: "nodeI (pg t') c (insL sep r (N c))" "\<forall>x. x \<noteq> c \<longrightarrow> pg t' x = pg t x"
    and al: "set (ids N (root t) (Suc m)) \<subseteq> alive (eng t)" "tmeta t \<notin> set (ids N (root t) (Suc m))" and m: "metaOK t"
  shows "sepDone t N (Suc m) sep r t'"
proof -
  let ?N = "N(c := insL sep r (N c))" and ?l = "lev N (root t) m"
  note f = evolves_fields [OF ev]
  have cl: "c \<in> set (lids ?l)" unfolding c using route_in inner_lev [OF i, of m] by simp
  have d: "distinct (ids N (root t) m @ lids ?l)" using i by (simp add: inner_def)
  have cong: "lev ?N (root t) m = ?l" "ids ?N (root t) m = ids N (root t) m"
    by (rule lev_cong; use cl d in auto)+
  have fl: "lev ?N (root t) (Suc m) = insL sep r (lev N (root t) (Suc m))"
    using flat_insL [of N ?l sep r] inner_lev [OF i, of "Suc m"] d s cong(1) by (simp add: c)
  have ids: "ids ?N (root t) (Suc m) = ids N (root t) (Suc m)" using cong by simp
  have "nodeI (pg t') x (?N x)" if "x \<in> set (ids N (root t) (Suc m))" for x
    using that n i nodeI_cong [of "pg t'" x "pg t"] by (auto simp: inner_def)
  then have "inner (pg t') ?N (root t) (Suc m)"
    unfolding inner_def ids fl using i s insL_sorted by (auto simp: inner_def)
  moreover have n2: "\<forall>x. x \<notin> set (lids ?l) \<longrightarrow> pg t' x = pg t x" using n(2) cl by metis
  then have "metaOK t'" using metaOK_evolves [OF m ev] al(2) by simp
  ultimately show ?thesis
    by (intro sepDoneI [of t t' 0 ?N] evolves_keeps [OF ev]) (use fl ids f(1,2,9) al(1) n2 cl in auto)
qed

lemma split_level:
  fixes N :: inodes and c q :: PageID and al :: "internalEntry list" and mid :: nat
  assumes i: "inner P N rt (Suc m)" and c: "c = route (lev N rt m) sep" and s: "sep \<notin> fst ` set (snd (lev N rt (Suc m)))"
    and a: "al = insort_key fst (sep, r) (snd (N c))" and mid: "mid < length al" and q: "q \<notin> set (lids (lev N rt m))"
  shows "flat (N(c := (fst (N c), take mid al), q := (snd (al ! mid), drop (Suc mid) al))) (insL (fst (al ! mid)) q (lev N rt m)) =
      insL sep r (lev N rt (Suc m))"
    and "fst (al ! mid) \<notin> fst ` set (snd (lev N rt m))" and "route (lev N rt m) (fst (al ! mid)) = c"
proof -
  let ?N0 = "N(c := insL sep r (N c))" and ?l = "lev N rt m"
  have d: "distinct (lids ?l)" using inner_distinct [OF i, of m] by simp
  have fl0: "flat ?N0 ?l = insL sep r (lev N rt (Suc m))"
    using flat_insL [of N ?l sep r] inner_lev [OF i, of "Suc m"] d s by (simp add: c)
  have n0: "?N0 c = (fst (N c), al)" by (simp add: insL_def a)
  have s0: "lsorted (flat ?N0 ?l)" unfolding fl0 using insL_sorted s inner_lev [OF i, of "Suc m"] by blast
  note sp = flat_split [OF s0 d c n0 mid q]
  show "flat (N(c := (fst (N c), take mid al), q := (snd (al ! mid), drop (Suc mid) al))) (insL (fst (al ! mid)) q ?l) =
      insL sep r (lev N rt (Suc m))" using sp(1) unfolding fl0 fun_upd_upd .
  show "fst (al ! mid) \<notin> fst ` set (snd ?l)" "route ?l (fst (al ! mid)) = c" using sp(2,3) .
qed

text \<open>The node is split and the separator between its halves has been added above.\<close>

lemma sepDone_split:
  fixes N :: inodes and c q :: PageID and al :: "internalEntry list" and mid :: nat and t :: Tree
  defines "N1 \<equiv> N(c := (fst (N c), take mid al), q := (snd (al ! mid), drop (Suc mid) al))"
  assumes i: "inner (pg t) N (root t) (Suc m)" and c: "c = route (lev N (root t) m) sep"
    and s: "sep \<notin> fst ` set (snd (lev N (root t) (Suc m)))" and a: "al = insort_key fst (sep, r) (snd (N c))"
    and ev: "evolves t t1" and mid: "mid < length al" and q: "q \<notin> alive (eng t)" "q \<in> alive (eng t1)"
    and n: "nodeI (pg t1) c (N1 c)" "nodeI (pg t1) q (N1 q)" "\<forall>x. x \<noteq> c \<longrightarrow> x \<noteq> q \<longrightarrow> pg t1 x = pg t x"
    and al: "set (ids N (root t) (Suc m)) \<subseteq> alive (eng t)" "tmeta t \<notin> set (ids N (root t) (Suc m))" and m: "metaOK t"
    and dn: "sepDone t1 N1 m (fst (al ! mid)) q t'"
  shows "sepDone t N (Suc m) sep r t'"
proof -
  let ?l = "lev N (root t) m" and ?k = "fst (al ! mid)"
  note f = evolves_fields [OF ev]
  have cl: "c \<in> set (lids ?l)" unfolding c using route_in inner_lev [OF i, of m] by simp
  have d: "distinct (ids N (root t) m @ lids ?l)" using i by (simp add: inner_def)
  have qi: "q \<notin> set (ids N (root t) m)" "q \<notin> set (lids ?l)" using q(1) al(1) by auto
  have cong: "lev N1 (root t) m = ?l" "ids N1 (root t) m = ids N (root t) m"
    unfolding N1_def by (rule lev_cong; use cl d qi in auto)+
  have fl1: "flat N1 (insL ?k q ?l) = insL sep r (lev N (root t) (Suc m))"
    unfolding N1_def by (rule split_level [OF i c s a mid qi(2)])
  obtain N' dd where dd: "keeps t1 t'" "metaOK t'" "dd \<le> 1" "height t' = height t1 + int dd" "inner (pg t') N' (root t') (m + dd)"
    "lev N' (root t') (m + dd) = insL ?k q ?l" "set (ids N' (root t') (m + dd)) \<subseteq> alive (eng t') - (alive (eng t1) - set (ids N (root t) m))"
    "\<forall>c \<in> alive (eng t1) - set (ids N (root t) m). N' c = N1 c" "\<forall>x \<in> alive (eng t1) - set (ids N (root t) m). x \<noteq> tmeta t \<longrightarrow> pg t' x = pg t1 x"
    using dn unfolding sepDone_def f(1,3) cong by blast
  let ?L = "lids (insL ?k q ?l)"
  have L: "set ?L = insert q (set (lids ?l))" by (rule insL_set_lids)
  have La: "x \<in> alive (eng t1)" "x \<notin> set (ids N (root t) m)" "x \<noteq> tmeta t" if "x \<in> set ?L" for x
    using that L q qi d al f(9) m by (auto simp: metaOK_def alive_def)
  have NL: "\<forall>x \<in> set ?L. N' x = N1 x" and PL: "\<forall>x \<in> set ?L. pg t' x = pg t1 x" using dd(8,9) La by blast+
  have ids': "ids N' (root t') (Suc m + dd) = ids N' (root t') (m + dd) @ ?L" using dd(6) by simp
  have lev': "lev N' (root t') (Suc m + dd) = insL sep r (lev N (root t) (Suc m))"
    using fl1 flat_cong [of "insL ?k q ?l" N' N1] NL dd(6) by simp
  have "nodeI (pg t1) x (N1 x)" if "x \<in> set ?L" for x
    using that L n i nodeI_cong [of "pg t1" x "pg t"] by (cases "x = c \<or> x = q") (auto simp: inner_def N1_def)
  then have "nodeI (pg t') x (N' x)" if "x \<in> set ?L" for x using that NL PL nodeI_cong [of "pg t'" x "pg t1"] by auto
  moreover have "distinct ?L" using insL_distinct d qi(2) by simp
  moreover have "set (ids N' (root t') (m + dd)) \<inter> set ?L = {}" using dd(7) La by blast
  ultimately have "inner (pg t') N' (root t') (Suc m + dd)"
    unfolding inner_def ids' lev' using dd(5) insL_sorted s inner_lev [OF i, of "Suc m"] by (auto simp: inner_def)
  moreover have "keeps t t'" using keeps_trans [OF evolves_keeps [OF ev] dd(1)] .
  moreover have a1: "alive (eng t) \<subseteq> alive (eng t1)" using f(9) by blast
  have "set (ids N' (root t') (Suc m + dd)) \<subseteq> alive (eng t')" unfolding ids' using dd(7) La keeps_fields(7) [OF dd(1)] by auto
  moreover have "set (ids N' (root t') (Suc m + dd)) \<inter> alive (eng t) \<subseteq> set (ids N (root t) (Suc m))"
    unfolding ids' using dd(7) L q(1) a1 by auto
  moreover have "N' x = N x" "x \<noteq> tmeta t \<longrightarrow> pg t' x = pg t x" if "x \<in> alive (eng t) - set (ids N (root t) (Suc m))" for x
  proof -
    have x: "x \<in> alive (eng t1) - set (ids N (root t) m)" "x \<noteq> c" "x \<noteq> q" using that a1 cl q(1) by auto
    then show "N' x = N x" "x \<noteq> tmeta t \<longrightarrow> pg t' x = pg t x" using dd(8,9) n(3) by (auto simp: N1_def)
  qed
  ultimately show ?thesis using lev' dd(2-4) f(2) by (intro sepDoneI [of t t' dd N']) auto
qed

text \<open>What the recursive call finds after the split.\<close>

lemma split_step:
  fixes N N1 :: inodes and c q :: PageID and al :: "internalEntry list" and mid :: nat
  assumes i: "inner P N rt (Suc m)" and c: "c = route (lev N rt m) sep" and s: "sep \<notin> fst ` set (snd (lev N rt (Suc m)))"
    and a: "al = insort_key fst (sep, r) (snd (N c))" and mid: "mid < length al"
    and N1: "N1 = N(c := (fst (N c), take mid al), q := (snd (al ! mid), drop (Suc mid) al))"
    and q: "q \<notin> set (ids N rt (Suc m))" and P: "\<forall>x. x \<noteq> c \<longrightarrow> x \<noteq> q \<longrightarrow> P1 x = P x" and r: "internalOK (sep, r)"
  shows "lev N1 rt m = lev N rt m" and "ids N1 rt m = ids N rt m" and "inner P1 N1 rt m"
    and "routes N rt sep m = routes N1 rt (fst (al ! mid)) m" and "fst (al ! mid) \<notin> fst ` set (snd (lev N1 rt m))"
    and "q \<noteq> 0 \<Longrightarrow> internalOK (fst (al ! mid), q)"
    and "cutsFit N1 rt m k = cutsFit N rt m k"
proof -
  let ?l = "lev N rt m" and ?k = "fst (al ! mid)"
  have d: "distinct (ids N rt m @ lids ?l)" and qi: "q \<notin> set (ids N rt m)" "q \<notin> set (lids ?l)" using i q by (auto simp: inner_def)
  have cl: "c \<in> set (lids ?l)" unfolding c using route_in inner_lev [OF i, of m] by simp
  have out: "x \<noteq> c \<and> x \<noteq> q" if "x \<in> set (ids N rt m)" for x using that cl d qi(1) by auto
  then have same: "\<forall>x \<in> set (ids N rt m). N1 x = N x" by (simp add: N1)
  show cong: "lev N1 rt m = ?l" "ids N1 rt m = ids N rt m" by (rule lev_cong [OF same])+
  note sp = split_level [OF i c s a mid qi(2)]
  have "nodeI P1 x (N1 x)" if "x \<in> set (ids N rt m)" for x
    using out [OF that] same that i P nodeI_cong [of P1 x P] by (simp add: inner_def)
  then show "inner P1 N1 rt m" using inner_lev [OF i, of m] d by (simp add: inner_def cong)
  have "routes N rt sep m = routes N rt ?k m" using routes_up [OF i, of m sep ?k] sp(3) c by simp
  then show "routes N rt sep m = routes N1 rt ?k m" using routes_cong [OF same] by simp
  show "?k \<notin> fst ` set (snd (lev N1 rt m))" using sp(2) cong(1) by simp
  have k: "al ! mid \<in> insert (sep, r) (set (snd (N c)))" using nth_mem [OF mid] unfolding a set_insort_key .
  have nc: "nodeI P c (N c)" using i cl by (auto simp: inner_def)
  then have ok: "\<forall>e \<in> insert (sep, r) (set (snd (N c))). internalOK e" using r by (auto simp: nodeI_def)
  show "internalOK (?k, q)" if "q \<noteq> 0" using bspec [OF ok k] that by (auto simp: internalOK_def)
  show "cutsFit N1 rt m k = cutsFit N rt m k" by (rule cutsFit_cong [OF same inner_Suc [OF i]])
qed

lemma insertSeparator_ok:
  assumes "inner (pg t) N (root t) m" and "set (ids N (root t) m) \<subseteq> alive (eng t)" and "tmeta t \<notin> set (ids N (root t) m)"
    and "eng_ok (eng t)" and "room (Suc m) (eng t)" and "metaOK t" and "root t \<in> alive (eng t)" and "0 < height t" and "height t < 65535"
    and "internalOK (sep, r)" and "sep \<notin> fst ` set (snd (lev N (root t) m))"
    and "cutsFit N (root t) m sep"
  shows "wp (insertSeparator (routes N (root t) sep m) sep r) (\<lambda>res t'. res = Inr () \<and> sepDone t N m sep r t') t"
  using assms
proof (induction m arbitrary: t N sep r)
  case 0
  then have "root t \<noteq> 0" by (simp add: alive_def)
  then show ?case using newRoot_ok [of t sep r N] 0 by (subst insertSeparator.simps) (simp add: wp_simps)
next
  case (Suc m)
  let ?l = "lev N (root t) m" and ?c = "route (lev N (root t) m) sep"
  let ?al = "insort_key fst (sep, r) (snd (N ?c))"
  note i = Suc.prems(1)
  have cl: "?c \<in> set (lids ?l)" using route_in inner_lev [OF i, of m] by simp
  then have nc: "nodeI (pg t) ?c (N ?c)" "?c \<in> alive (eng t)" "?c \<noteq> tmeta t" using i Suc.prems(2,3) by (auto simp: inner_def)
  have k: "fst ` set (snd (N ?c)) \<subseteq> fst ` set (snd (lev N (root t) (Suc m)))" using node_keys [OF cl] by auto
  have mf: "map fst ?al = insort sep (map fst (snd (N ?c)))" by (rule map_fst_insort)
  then have fit: "sepBytes (map fst ?al) \<le> 16384 \<or> halvesFit (map fst ?al)" using Suc.prems(12) by (auto simp: Let_def)
  have sep: "sep \<notin> fst ` set (snd (N ?c))" using Suc.prems(11) k by blast
  note put = putSeparator_ok [OF nc(1,2) Suc.prems(4,5,10) sep fit]
  have "wp (putSeparator ?c sep r) (andThen (\<lambda>up. case up of None \<Rightarrow> pret ()
      | Some (promote, rightID) \<Rightarrow> insertSeparator (routes N (root t) sep m) promote rightID)
    (\<lambda>res t'. res = Inr () \<and> sepDone t N (Suc m) sep r t')) t"
  proof (rule wp_mono [OF put], elim conjE exE)
    fix res :: "(bytes \<times> PageID) option res" and t1 up
    assume e: "evolves t t1" "room (Suc m) (eng t1)" "res = Inr up" "sepPut t ?c (N ?c) ?al up t1"
    note f = evolves_fields [OF e(1)]
    show "andThen (\<lambda>up. case up of None \<Rightarrow> pret ()
        | Some (promote, rightID) \<Rightarrow> insertSeparator (routes N (root t) sep m) promote rightID)
      (\<lambda>res t'. res = Inr () \<and> sepDone t N (Suc m) sep r t') res t1"
    proof (cases up)
      case None
      have "sepDone t N (Suc m) sep r t1"
        by (rule sepDone_take [OF i refl Suc.prems(11) e(1) _ _ Suc.prems(2,3,6)]) (use e(4) None in \<open>simp_all add: sepPut_def insL_def\<close>)
      then show ?thesis using e(3) None by (simp add: wp_simps)
    next
      case (Some kq)
      obtain q mid where m: "mid = length ?al div 2" "16384 < internalPageBytes ?al" and u: "kq = (fst (?al ! mid), q)" "mid < length ?al" "q \<notin> alive (eng t)" "q \<noteq> 0" "q \<in> alive (eng t1)"
        "nodeI (pg t1) ?c (fst (N ?c), take mid ?al)" "nodeI (pg t1) q (snd (?al ! mid), drop (Suc mid) ?al)"
        "\<forall>x. x \<noteq> ?c \<longrightarrow> x \<noteq> q \<longrightarrow> pg t1 x = pg t x"
        using e(4) Some by (auto simp: sepPut_def)
      define k where "k = fst (?al ! mid)"
      define N1 where "N1 = N(?c := (fst (N ?c), take mid ?al), q := (snd (?al ! mid), drop (Suc mid) ?al))"
      have qc: "q \<noteq> ?c" "q \<notin> set (ids N (root t) (Suc m))" using u(3) nc(2) Suc.prems(2) by blast+
      then have n1: "nodeI (pg t1) ?c (N1 ?c)" "nodeI (pg t1) q (N1 q)" using u(6,7) by (simp_all add: N1_def)
      note sp = split_step [OF i refl Suc.prems(11) refl u(2) N1_def qc(2) u(8) Suc.prems(10), folded k_def]
      have "wp (insertSeparator (routes N1 (root t1) k m) k q) (\<lambda>res t'. res = Inr () \<and> sepDone t1 N1 m k q t') t1"
      proof (rule Suc.IH; (unfold f(1-3) sp(1,2))?)
        show "inner (pg t1) N1 (root t) m" by (rule sp(3))
        show "k \<notin> fst ` set (snd ?l)" using sp(5) unfolding sp(1) .
        have "cutsFit N (root t) m (map fst ?al ! mid)" using Suc.prems(12) m mf by (simp add: Let_def internalPageBytes_sep)
        then show "cutsFit N1 (root t) m k" unfolding sp(7) k_def using u(2) by simp
        show "internalOK (k, q)" by (rule sp(6) [OF u(4)])
        have "tmeta t \<noteq> q" using u(3,4) Suc.prems(6) by (auto simp: metaOK_def)
        then show "metaOK t1" using metaOK_evolves [OF Suc.prems(6) e(1)] u(8) [rule_format, of "tmeta t"] nc(3) by simp
      qed (use Suc.prems f(7,9) e(2) in auto)
      then have "wp (insertSeparator (routes N (root t) sep m) k q) (\<lambda>res t'. res = Inr () \<and> sepDone t1 N1 m k q t') t1"
        unfolding f(1) sp(4) .
      then show ?thesis unfolding e(3) Some u(1) andThen_simps option.case prod.case k_def [symmetric]
        by (rule wp_mono) (elim conjE, intro conjI, assumption,
          rule sepDone_split [OF i refl Suc.prems(11) refl e(1) u(2,3,5) _ _ u(8) Suc.prems(2,3,6), folded N1_def k_def, OF n1])
    qed
  qed
  then show ?case unfolding insertSeparator.simps [of "routes N (root t) sep (Suc m)"] by (simp only: routes_simps wp_simps) simp
qed

end
