(* ===== verification/BTreeSplit.thy ===== *)
theory BTreeSplit
  imports BTreeRep
begin

text \<open>
  The choice of the split point of a leaf (\<open>splitLeafIndex\<close>): it returns the cut nearest to the
  middle among those whose halves fit a page, and a leaf that was full before one more record was
  added always has such a cut.
\<close>

definition cut_ok :: "leafEntry list \<Rightarrow> nat \<Rightarrow> bool" where
  "cut_ok es m \<longleftrightarrow> 1 \<le> m \<and> m < length es \<and> leafFits (take m es) \<and> leafFits (drop m es)"

definition off_middle :: "leafEntry list \<Rightarrow> nat \<Rightarrow> nat" where
  "off_middle es m = (if m < length es div 2 then length es div 2 - m else m - length es div 2)"

lemma splitStep_eq:
  "splitStep es m best = (if leafFits (take m es) \<and> leafFits (drop m es)
     then (case best of None \<Rightarrow> Some (m, off_middle es m) | Some (_, d) \<Rightarrow> if off_middle es m < d then Some (m, off_middle es m) else best)
     else best)"
  unfolding splitStep_def Let_def off_middle_def [of es m, symmetric] by simp

text \<open>The best cut among the positions seen so far.\<close>

definition best_of :: "leafEntry list \<Rightarrow> nat set \<Rightarrow> (nat \<times> nat) option \<Rightarrow> bool" where
  "best_of es S best \<longleftrightarrow> (case best of
      None \<Rightarrow> \<forall>m \<in> S. \<not> (leafFits (take m es) \<and> leafFits (drop m es))
    | Some (b, d) \<Rightarrow> b \<in> S \<and> d = off_middle es b \<and> leafFits (take b es) \<and> leafFits (drop b es) \<and>
        (\<forall>m \<in> S. leafFits (take m es) \<and> leafFits (drop m es) \<longrightarrow> d \<le> off_middle es m))"

lemma best_of_step: "best_of es S best \<Longrightarrow> best_of es (insert m S) (splitStep es m best)"
  by (cases best; auto simp: best_of_def splitStep_eq split: if_splits; meson less_imp_le order.trans)

lemma best_of_fold: "best_of es S best \<Longrightarrow> best_of es (S \<union> set ms) (fold (splitStep es) ms best)"
  by (induction ms arbitrary: S best) (force dest: best_of_step)+

lemma splitLeafIndex_best:
  "case splitLeafIndex es of
     Inr m \<Rightarrow> cut_ok es m \<and> (\<forall>m'. cut_ok es m' \<longrightarrow> off_middle es m \<le> off_middle es m')
   | Inl _ \<Rightarrow> \<not> (\<exists>m. cut_ok es m)"
proof -
  have "best_of es (set [1..<length es]) (fold (splitStep es) [1..<length es] None)"
    using best_of_fold [of es "{}" None "[1..<length es]"] by (simp add: best_of_def)
  then show ?thesis
    by (cases "fold (splitStep es) [1..<length es] None") (auto simp: best_of_def splitLeafIndex_def cut_ok_def)
qed

section \<open>A full leaf can be split\<close>

abbreviation (input) cost :: "leafEntry \<Rightarrow> nat" where
  "cost e \<equiv> 4 + leafRecordSize e"

lemma leafPageBytes_cost: "leafPageBytes es = 80 + sum_list (map cost es)"
  by (induction es) (auto simp: leafPageBytes_def)

lemma leafFits_iff: "\<forall>e \<in> set es. leafOK e \<Longrightarrow> leafFits es \<longleftrightarrow> leafPageBytes es \<le> 16384"
  by (auto simp: leafFits_def list_all_iff leafOK_def leafRecordSize_def)

lemma leafOK_cost: "leafOK e \<Longrightarrow> cost e \<le> 8152"
  by (simp add: leafOK_def leafRecordSize_def)

lemma prefix_cut:
  fixes f :: "'a \<Rightarrow> nat"
  assumes "\<forall>x \<in> set xs. f x \<le> b" and "b \<le> lim" and "sum_list (map f xs) \<le> lim + b" and "2 \<le> length xs"
  obtains m where "1 \<le> m" "m < length xs" "sum_list (map f (take m xs)) \<le> lim" "sum_list (map f (drop m xs)) \<le> 2 * b"
proof -
  let ?s = "\<lambda>m. sum_list (map f (take m xs))"
  define m where "m = (GREATEST m. m < length xs \<and> ?s m \<le> lim)"
  have "?s 1 \<le> lim" using assms(1,2,4) by (cases xs) auto
  then have m: "m < length xs \<and> ?s m \<le> lim" unfolding m_def using assms(4) GreatestI_nat [of "\<lambda>m. m < length xs \<and> ?s m \<le> lim" 1 "length xs"] by auto
  have "1 \<le> m" unfolding m_def using Greatest_le_nat [of "\<lambda>m. m < length xs \<and> ?s m \<le> lim" 1 "length xs"] \<open>?s 1 \<le> lim\<close> assms(4) by auto
  have tot: "sum_list (map f xs) = ?s m + sum_list (map f (drop m xs))"
    by (metis append_take_drop_id map_append sum_list_append)
  have "sum_list (map f (drop m xs)) \<le> 2 * b"
  proof (cases "Suc m < length xs")
    case True
    then have "\<not> ?s (Suc m) \<le> lim"
      using Greatest_le_nat [of "\<lambda>m. m < length xs \<and> ?s m \<le> lim" "Suc m" "length xs"] unfolding m_def [symmetric] by auto
    moreover have "?s (Suc m) = ?s m + f (xs ! m)" using m by (simp add: take_Suc_conv_app_nth)
    moreover have "f (xs ! m) \<le> b" using assms(1) m by simp
    ultimately show ?thesis using tot assms(3) by simp
  next
    case False
    then have "drop m xs = [xs ! m]" using m by (metis Cons_nth_drop_Suc drop_all leI)
    moreover have "f (xs ! m) \<le> b" using assms(1) m by simp
    ultimately show ?thesis by simp
  qed
  then show thesis using that \<open>1 \<le> m\<close> m by blast
qed

lemma full_leaf_splits:
  assumes ok: "\<forall>e \<in> set al. leafOK e" and sz: "leafPageBytes al \<le> 16384 + 8152" and n: "2 \<le> length al"
  obtains mid where "splitLeafIndex al = Inr mid" "cut_ok al mid"
proof -
  have c: "\<forall>e \<in> set al. cost e \<le> 8152" using ok leafOK_cost by blast
  obtain m where m: "1 \<le> m" "m < length al" "sum_list (map cost (take m al)) \<le> 16304" "sum_list (map cost (drop m al)) \<le> 2 * 8152"
    by (rule prefix_cut [of al cost 8152 16304]) (use c sz n in \<open>simp_all add: leafPageBytes_cost\<close>)
  have "\<forall>e \<in> set (take m al). leafOK e" "\<forall>e \<in> set (drop m al). leafOK e" using ok by (meson in_set_takeD in_set_dropD)+
  then have "leafFits (take m al)" "leafFits (drop m al)" using m(3,4) by (simp_all add: leafFits_iff leafPageBytes_cost)
  then have "cut_ok al m" using m by (simp add: cut_ok_def)
  then show thesis using splitLeafIndex_best [of al] that by (auto split: sum.splits)
qed

end
