(* ===== verification/BTreeMap.thy ===== *)
theory BTreeMap
  imports BTreeSplit
begin

text \<open>
  The tree as a sorted map: its invariant, its contents, and the lookup path (\<open>descend\<close>,
  \<open>leafRawHint\<close> and \<open>leafRaw\<close>).
\<close>

section \<open>The invariant\<close>

fun chain :: "pages \<Rightarrow> lnodes \<Rightarrow> PageID \<Rightarrow> PageID list \<Rightarrow> bool" where
  "chain P E pv [] \<longleftrightarrow> True"
| "chain P E pv (c # cs) \<longleftrightarrow> nodeL P c (E c) pv (case cs of [] \<Rightarrow> 0 | d # _ \<Rightarrow> d) \<and> chain P E c cs"

definition depth :: "Tree \<Rightarrow> nat" where
  "depth t = nat (height t - 1)"

definition leaves :: "Tree \<Rightarrow> inodes \<Rightarrow> level" where
  "leaves t N = lev N (root t) (depth t)"

definition contents :: "lnodes \<Rightarrow> level \<Rightarrow> leafEntry list" where
  "contents E l = concat (map E (lids l))"

text \<open>Every key is on the leaf its separators lead to.\<close>

definition placed :: "lnodes \<Rightarrow> level \<Rightarrow> bool" where
  "placed E l \<longleftrightarrow> (\<forall>c \<in> set (lids l). \<forall>e \<in> set (E c). route l (fst e) = c)"

text \<open>The hint for the right end is a leaf of the tree, and its key belongs there.\<close>

definition hintOK :: "Tree \<Rightarrow> level \<Rightarrow> bool" where
  "hintOK t l \<longleftrightarrow> hintRight t = 0 \<or> hintMax t = [] \<or> (hintRight t \<in> set (lids l) \<and> route l (hintMax t) = hintRight t)"

definition tree_ok :: "Tree \<Rightarrow> inodes \<Rightarrow> lnodes \<Rightarrow> bool" where
  "tree_ok t N E \<longleftrightarrow> 0 < height t \<and> inner (pg t) N (root t) (depth t) \<and> distinct (ids N (root t) (Suc (depth t))) \<and>
     set (ids N (root t) (Suc (depth t))) \<subseteq> alive (eng t) \<and> tmeta t \<notin> set (ids N (root t) (Suc (depth t))) \<and>
     eng_ok (eng t) \<and> metaOK t \<and> chain (pg t) E 0 (lids (leaves t N)) \<and> placed E (leaves t N) \<and> hintOK t (leaves t N)"

lemma tree_okD:
  assumes "tree_ok t N E"
  shows "0 < height t" "inner (pg t) N (root t) (depth t)" "distinct (ids N (root t) (depth t) @ lids (leaves t N))"
    "set (ids N (root t) (depth t)) \<subseteq> alive (eng t)" "set (lids (leaves t N)) \<subseteq> alive (eng t)"
    "tmeta t \<notin> set (ids N (root t) (depth t))" "tmeta t \<notin> set (lids (leaves t N))"
    "eng_ok (eng t)" "metaOK t" "chain (pg t) E 0 (lids (leaves t N))" "placed E (leaves t N)" "hintOK t (leaves t N)"
    "lsorted (leaves t N)" "distinct (lids (leaves t N))"
  using assms by (auto simp: tree_ok_def leaves_def inner_def)

lemma root_alive: "tree_ok t N E \<Longrightarrow> root t \<in> alive (eng t)"
proof -
  assume t: "tree_ok t N E"
  have "root t \<in> set (ids N (root t) (Suc m))" for m by (induction m) (auto simp: lids_def)
  then show ?thesis using t by (auto simp: tree_ok_def)
qed

lemma chain_nodeL: "chain P E pv cs \<Longrightarrow> c \<in> set cs \<Longrightarrow> \<exists>pv nx. nodeL P c (E c) pv nx"
  by (induction cs arbitrary: pv) auto

lemma tree_leaf:
  assumes "tree_ok t N E"
  obtains pv nx where "nodeL (pg t) (route (leaves t N) key) (E (route (leaves t N) key)) pv nx"
    "route (leaves t N) key \<in> set (lids (leaves t N))"
  using chain_nodeL [OF tree_okD(10) [OF assms]] route_in [OF tree_okD(13) [OF assms], of key] by blast

section \<open>The contents\<close>

lemma leaf_sorted: "tree_ok t N E \<Longrightarrow> c \<in> set (lids (leaves t N)) \<Longrightarrow> keysorted (E c)"
  using chain_nodeL [OF tree_okD(10)] by (auto simp: nodeL_def)

definition ridx :: "level \<Rightarrow> bytes \<Rightarrow> nat" where
  "ridx l key = length (takeWhile (\<lambda>e. fst e \<le> key) (snd l))"

lemma childLoop_nth: "childLoop c es key = (c # map snd es) ! length (takeWhile (\<lambda>e. fst e \<le> key) es)"
  by (induction es arbitrary: c) (auto simp: not_le)

lemma route_idx: "route l key = lids l ! ridx l key" and ridx_less: "ridx l key < length (lids l)"
  unfolding route_def lids_def ridx_def by (simp_all add: childLoop_nth length_takeWhile_le less_Suc_eq_le)

lemma ridx_mono: "a \<le> b \<Longrightarrow> ridx l a \<le> ridx l b"
proof -
  assume ab: "a \<le> b"
  have "length (takeWhile (\<lambda>e. fst e \<le> a) es) \<le> length (takeWhile (\<lambda>e. fst e \<le> b) es)" for es :: "internalEntry list"
    by (induction es) (use ab in \<open>auto intro: order.trans\<close>)
  then show ?thesis by (simp add: ridx_def)
qed

lemma ridx_eq: "distinct (lids l) \<Longrightarrow> route l a = route l b \<longleftrightarrow> ridx l a = ridx l b"
  unfolding route_idx by (simp add: nth_eq_iff_index_eq ridx_less)

lemma placed_ridx:
  assumes "placed E l" and "distinct (lids l)" and "i < length (lids l)" and "e \<in> set (E (lids l ! i))"
  shows "ridx l (fst e) = i"
proof -
  have "lids l ! ridx l (fst e) = lids l ! i" using assms(1,3,4) unfolding placed_def route_idx by simp
  then show ?thesis using assms(2,3) by (simp add: nth_eq_iff_index_eq ridx_less)
qed

lemma keysorted_concat:
  "\<forall>xs \<in> set xss. keysorted xs \<Longrightarrow> sorted_wrt (\<lambda>xs ys. \<forall>x \<in> set xs. \<forall>y \<in> set ys. fst x < fst y) xss \<Longrightarrow> keysorted (concat xss)"
  by (induction xss) (auto simp: keysorted_append)

lemma contents_sorted:
  assumes p: "placed E l" and d: "distinct (lids l)" and s: "\<forall>c \<in> set (lids l). keysorted (E c)"
  shows "keysorted (contents E l)"
  unfolding contents_def
proof (rule keysorted_concat)
  show "sorted_wrt (\<lambda>xs ys. \<forall>x \<in> set xs. \<forall>y \<in> set ys. fst x < fst y) (map E (lids l))"
    unfolding sorted_wrt_iff_nth_less
  proof (intro allI impI ballI)
    fix i j x y assume ij: "i < j" "j < length (map E (lids l))" and x: "x \<in> set (map E (lids l) ! i)" and y: "y \<in> set (map E (lids l) ! j)"
    have "ridx l (fst x) = i" "ridx l (fst y) = j" using placed_ridx [OF p d] ij x y by auto
    then have "\<not> fst y \<le> fst x" using ridx_mono [of "fst y" "fst x" l] ij(1) by auto
    then show "fst x < fst y" by simp
  qed
qed (use s in auto)

lemma contents_mem:
  assumes "placed E l"
  shows "(key, v) \<in> set (contents E l) \<longleftrightarrow> (key, v) \<in> set (E (route l key))"
  using assms ridx_less [of l key] by (force simp: contents_def placed_def route_idx)

lemma contents_lookup:
  assumes p: "placed E l" and d: "distinct (lids l)" and s: "\<forall>c \<in> set (lids l). keysorted (E c)"
  shows "map_of (contents E l) key = map_of (E (route l key)) key"
proof -
  have "route l key \<in> set (lids l)" unfolding route_idx using ridx_less by simp
  then have "distinct (map fst (contents E l))" "distinct (map fst (E (route l key)))"
    using keysorted_distinct contents_sorted [OF p d s] s by blast+
  then have "map_of (contents E l) key = Some v \<longleftrightarrow> map_of (E (route l key)) key = Some v" for v
    using contents_mem [OF p, of key v] by simp
  then show ?thesis by (metis not_None_eq)
qed

section \<open>Reading\<close>

text \<open>A step that only pins pages of the tree.\<close>

definition quiet :: "Tree \<Rightarrow> Tree \<Rightarrow> bool" where
  "quiet t t' \<longleftrightarrow> (\<exists>C. t' = t\<lparr>eng := (eng t)\<lparr>cached := C\<rparr>\<rparr> \<and> C \<subseteq> cached (eng t) \<union> alive (eng t))"

lemma quiet_fields:
  assumes "quiet t t'"
  shows "pg t' = pg t" "root t' = root t" "height t' = height t" "tmeta t' = tmeta t" "hintRight t' = hintRight t" "hintMax t' = hintMax t"
    "hintParent t' = hintParent t" "alive (eng t') = alive (eng t)" "room n (eng t') = room n (eng t)" "calm t' = calm t"
    "EngPrimaryTree (eng t') = EngPrimaryTree (eng t)" "liveRows t' = liveRows t" "liveKnown t' = liveKnown t"
  using assms by (auto simp: quiet_def room_def calm_def EngPrimaryTree_def)

lemma quiet_refl [simp]: "quiet t t"
  by (auto simp: quiet_def intro: exI [of _ "cached (eng t)"])

lemma quiet_trans: "quiet a b \<Longrightarrow> quiet b c \<Longrightarrow> quiet a c"
  unfolding quiet_def by (elim exE conjE) (auto simp: Un_commute subset_iff)

lemma quiet_touch: "c \<in> alive (eng t) \<Longrightarrow> quiet t (touch c t)"
  by (auto simp: quiet_def touch_def)

lemma quiet_eng_ok: "quiet t t' \<Longrightarrow> eng_ok (eng t) \<Longrightarrow> eng_ok (eng t')"
  by (auto simp: quiet_def eng_ok_def, blast)

lemma quiet_evolves: "quiet t t' \<Longrightarrow> eng_ok (eng t) \<Longrightarrow> evolves t t'"
  using quiet_eng_ok [of t t'] by (auto simp: quiet_def evolves_def eng_keeps_def EngPrimaryTree_def)

lemma quiet_tree_ok: "quiet t t' \<Longrightarrow> tree_ok t N E \<Longrightarrow> tree_ok t' N E"
  using quiet_fields [of t t'] quiet_eng_ok [of t t']
  by (simp add: tree_ok_def leaves_def depth_def hintOK_def metaOK_def meta_at_def)

lemma child_nonzero: "nodeI P c n \<Longrightarrow> route n key \<noteq> 0"
  using route_in [of n key] by (auto simp: nodeI_def internalOK_def lids_def)

lemma ids_mem: "i < m \<Longrightarrow> c \<in> set (lids (lev N rt i)) \<Longrightarrow> c \<in> set (ids N rt m)"
  by (auto simp: ids_def)

lemma descendLoop_ok:
  assumes "inner (pg t) N rt (i + n)" and "set (ids N rt (i + n)) \<subseteq> alive (eng t)"
  shows "wp (descendLoop n (route (lev N rt i) key) key path) (\<lambda>res t'. quiet t t' \<and>
    res = Inr (path @ map (\<lambda>j. route (lev N rt j) key) [i..<Suc (i + n)])) t"
  using assms
proof (induction n arbitrary: i t path)
  case 0
  then show ?case by (simp add: wp_simps)
next
  case (Suc n)
  let ?c = "route (lev N rt i) key"
  have cl: "?c \<in> set (lids (lev N rt i))" using route_in inner_lev [OF Suc.prems(1), of i] by simp
  then have nc: "nodeI (pg t) ?c (N ?c)" "?c \<in> alive (eng t)"
    using inner_node [OF Suc.prems(1) _ cl] subsetD [OF Suc.prems(2) ids_mem [OF _ cl, of "i + Suc n"]] by simp_all
  obtain p hdr where p: "pg t ?c = Inr p" "nhLeftmost hdr = fst (N ?c)" "?c \<noteq> 0"
    "expectType p PageTypeBTreeInternal = Some (Inr ())" "readHeader p = Some (Inr hdr)" "collectInternals p = Some (Inr (snd (N ?c)))"
    by (rule nodeI_reads [OF nc(1)])
  have ch: "childForKey hdr (snd (N ?c)) key = route (lev N rt (Suc i)) key"
    using childForKey_route [OF p(2)] route_flat [of N "lev N rt i" key] inner_lev [OF Suc.prems(1), of "Suc i"] inner_distinct [OF Suc.prems(1), of i] by simp
  have nz: "route (lev N rt (Suc i)) key \<noteq> 0"
    using child_nonzero [OF nc(1), of key] ch childForKey_route [OF p(2)] by simp
  have ih: "wp (descendLoop n (route (lev N rt (Suc i)) key) key (path @ [?c])) (\<lambda>res t'. quiet (touch ?c t) t' \<and>
      res = Inr ((path @ [?c]) @ map (\<lambda>j. route (lev N rt j) key) [Suc i..<Suc (Suc i + n)])) (touch ?c t)"
    by (rule Suc.IH) (use Suc.prems in simp_all)
  have up: "[i..<Suc (i + Suc n)] = i # [Suc i..<Suc (Suc i + n)]" by (simp add: upt_conv_Cons)
  have "wp (descendLoop n (route (lev N rt (Suc i)) key) key (path @ [?c])) (\<lambda>res t'. quiet t t' \<and>
      res = Inr (path @ map (\<lambda>j. route (lev N rt j) key) [i..<Suc (i + Suc n)])) (touch ?c t)"
    using quiet_trans [OF quiet_touch [OF nc(2)]] unfolding up by (rule_tac wp_mono [OF ih]) auto
  then show ?case using p ch nz by (simp add: wp_simps Let_def del: upt_Suc lev.simps)
qed

lemma descend_ok:
  assumes "inner (pg t) N (root t) (depth t)" and "set (ids N (root t) (depth t)) \<subseteq> alive (eng t)"
  shows "wp (descend key) (\<lambda>res t'. quiet t t' \<and> res = Inr (routes N (root t) key (Suc (depth t)))) t"
proof -
  have "route (lev N (root t) 0) key = root t" by (simp add: route_def)
  then show ?thesis using descendLoop_ok [of t N "root t" 0 "depth t" key "[]"] assms
    unfolding descend_def by (simp add: wp_simps depth_def routes_def del: upt_Suc)
qed

lemma last_routes [simp]: "last (routes N rt key (Suc m)) = route (lev N rt m) key" "butlast (routes N rt key (Suc m)) = routes N rt key m"
  by simp_all

lemma clearHint_sel [simp]:
  "pg (clearHint t) = pg t" "root (clearHint t) = root t" "height (clearHint t) = height t" "tmeta (clearHint t) = tmeta t"
  "eng (clearHint t) = eng t" "hintRight (clearHint t) = 0" "hintParent (clearHint t) = 0" "hintMax (clearHint t) = []" "calm (clearHint t) = calm t"
  "liveRows (clearHint t) = liveRows t" "liveKnown (clearHint t) = liveKnown t"
  by (simp_all add: clearHint_def calm_def)

text \<open>The invariant does not depend on the hints beyond what it says of them.\<close>

lemma tree_ok_hints:
  assumes "tree_ok t N E" and "eng t' = eng t" "root t' = root t" "height t' = height t" "tmeta t' = tmeta t" "hintOK t' (leaves t N)"
  shows "tree_ok t' N E"
  using assms by (simp add: tree_ok_def leaves_def depth_def metaOK_def meta_at_def)

lemma tree_ok_clearHint: "tree_ok t N E \<Longrightarrow> tree_ok (clearHint t) N E"
  by (rule tree_ok_hints) (auto simp: hintOK_def)

lemma findLeafSlot_lookup:
  assumes "nodeL P c es pv nx" and "P c = Inr p"
  obtains f where "findLeafSlot p key = Some (Inr f)" "map_option snd f = map_of es key"
    "\<And>s v. f = Some (s, v) \<Longrightarrow> 1 \<le> unat s \<and> page_map p (unat s) = Some (leafBytes (key, v))"
proof -
  obtain hdr where n: "leaf_page p c hdr (mset es)" "\<forall>e \<in> set es. leafOK e" "distinct (map fst es)"
    using assms keysorted_distinct by (auto simp: nodeL_def)
  from leaf_find [OF n, of key] show thesis
  proof (elim disjE exE conjE)
    fix s v assume a: "findLeafSlot p key = Some (Inr (Some (s, v)))" "(key, v) \<in> set es" "1 \<le> unat s" "page_map p (unat s) = Some (leafBytes (key, v))"
    then have "map_of es key = Some v" using n(3) by simp
    then show thesis using that [of "Some (s, v)"] a by simp
  next
    assume a: "findLeafSlot p key = Some (Inr None)" "key \<notin> fst ` set es"
    then have "map_of es key = None" by (simp add: map_of_eq_None_iff)
    then show thesis using that [of None] a by simp
  qed
qed

text \<open>A hint that applies leads to the leaf the descent leads to.\<close>

lemma nodeL_hdr:
  assumes "nodeL P c es pv nx" and "nodeL P c es' pv' nx'"
  shows "pv = pv'" and "nx = nx'"
proof -
  obtain p hdr where p: "P c = Inr p" "readHeader p = Some (Inr hdr)" "nhPrev hdr = pv" "nhNext hdr = nx" by (rule nodeL_reads [OF assms(1)])
  obtain p' hdr' where p': "P c = Inr p'" "readHeader p' = Some (Inr hdr')" "nhPrev hdr' = pv'" "nhNext hdr' = nx'" by (rule nodeL_reads [OF assms(2)])
  show "pv = pv'" "nx = nx'" using p p' by simp_all
qed

lemma chain_last:
  assumes "chain P E pv cs" and "c \<in> set cs" and "0 \<notin> set cs" and "nodeL P c es pv' 0"
  shows "c = last cs"
  using assms
proof (induction cs arbitrary: pv)
  case (Cons d cs)
  show ?case
  proof (cases "c \<in> set cs")
    case True
    then show ?thesis using Cons by auto
  next
    case False
    then have "(case cs of [] \<Rightarrow> 0 | d # _ \<Rightarrow> d) = 0" using Cons nodeL_hdr(2) [of P c] by auto
    then show ?thesis using Cons.prems False by (cases cs) auto
  qed
qed simp

lemma route_last:
  assumes "lids l ! (length (lids l) - 1) = route l a" and "distinct (lids l)" and "a \<le> b"
  shows "route l b = route l a"
proof -
  have "ridx l a = length (lids l) - 1" using assms(1,2) ridx_less [of l a] unfolding route_idx by (simp add: nth_eq_iff_index_eq)
  then have "ridx l b = ridx l a" using ridx_mono [OF assms(3), of l] ridx_less [of l b] by simp
  then show ?thesis by (simp add: route_idx)
qed

text \<open>A lookup may drop the hints.\<close>

definition reads :: "Tree \<Rightarrow> Tree \<Rightarrow> bool" where
  "reads t t' \<longleftrightarrow> quiet t t' \<or> quiet (clearHint t) t'"

lemma reads_fields:
  assumes "reads t t'"
  shows "pg t' = pg t" "root t' = root t" "height t' = height t" "tmeta t' = tmeta t" "alive (eng t') = alive (eng t)"
    "room n (eng t') = room n (eng t)" "calm t' = calm t" "leaves t' N = leaves t N" "liveRows t' = liveRows t" "liveKnown t' = liveKnown t"
proof -
  obtain s where s: "quiet s t'" "s = t \<or> s = clearHint t" using assms by (auto simp: reads_def)
  note f = quiet_fields [OF s(1)]
  show "pg t' = pg t" "root t' = root t" "height t' = height t" "tmeta t' = tmeta t" "alive (eng t') = alive (eng t)"
    "room n (eng t') = room n (eng t)" "calm t' = calm t" "leaves t' N = leaves t N" "liveRows t' = liveRows t" "liveKnown t' = liveKnown t"
    using s(2) by (auto simp: leaves_def depth_def f)
qed

lemma reads_tree_ok: "reads t t' \<Longrightarrow> tree_ok t N E \<Longrightarrow> tree_ok t' N E"
  using quiet_tree_ok tree_ok_clearHint by (auto simp: reads_def)

lemma reads_quiet: "reads t t' \<Longrightarrow> quiet t' t'' \<Longrightarrow> reads t t''"
  by (auto simp: reads_def intro: quiet_trans)

definition found :: "lnodes \<Rightarrow> level \<Rightarrow> bytes \<Rightarrow> PageID \<times> bytes option" where
  "found E l key = (route l key, map_of (contents E l) key)"

lemma tree_lookup:
  assumes "tree_ok t N E"
  shows "map_of (contents E (leaves t N)) key = map_of (E (route (leaves t N) key)) key"
  by (rule contents_lookup) (use tree_okD(11,14) [OF assms] leaf_sorted [OF assms] in auto)

lemma leafRawHint_ok:
  assumes t: "tree_ok t N E"
  shows "wp (leafRawHint key) (\<lambda>res t'. reads t t' \<and> (res = Inr None \<or> res = Inr (Some (found E (leaves t N) key)))) t"
proof (cases "hintRight t = 0 \<or> hintMax t = [] \<or> key \<le> hintMax t")
  case True
  then show ?thesis by (auto simp: leafRawHint_def wp_simps reads_def)
next
  case False
  let ?c = "hintRight t" and ?l = "leaves t N"
  have c: "?c \<in> set (lids ?l)" "route ?l (hintMax t) = ?c" using tree_okD(12) [OF t] False by (auto simp: hintOK_def)
  then have ca: "?c \<in> alive (eng t)" using tree_okD(5) [OF t] by blast
  obtain pv nx where n: "nodeL (pg t) ?c (E ?c) pv nx" using chain_nodeL [OF tree_okD(10) [OF t] c(1)] by blast
  obtain p hdr where p: "pg t ?c = Inr p" "nhNext hdr = nx" "?c \<noteq> 0" "expectType p PageTypeBTreeLeaf = Some (Inr ())" "readHeader p = Some (Inr hdr)"
    by (rule nodeL_reads [OF n])
  obtain f where f: "findLeafSlot p key = Some (Inr f)" "map_option snd f = map_of (E ?c) key"
    by (rule findLeafSlot_lookup [OF n p(1), of key])
  have ct: "clearHint (touch ?c t) = touch ?c (clearHint t)" by (simp add: clearHint_def touch_def)
  have q: "quiet t (touch ?c t)" "quiet (clearHint t) (clearHint (touch ?c t))"
    unfolding ct using quiet_touch [OF ca] quiet_touch [of ?c "clearHint t"] ca by simp_all
  show ?thesis
  proof (cases "nx = 0")
    case nx: False
    then show ?thesis using False p q by (simp add: leafRawHint_def wp_simps reads_def)
  next
    case True
    have "0 \<notin> set (lids ?l)" using tree_okD(5) [OF t] by (auto simp: alive_def)
    then have "lids ?l ! (length (lids ?l) - 1) = ?c"
      using chain_last [OF tree_okD(10) [OF t] c(1) _ n [unfolded True]] by (metis last_conv_nth list.distinct(1) lids_def)
    then have "route ?l key = ?c" using route_last [of ?l "hintMax t" key] c(2) tree_okD(14) [OF t] False by (simp add: not_le less_imp_le)
    then have "found E ?l key = (?c, map_option snd f)" using f(2) by (simp add: found_def tree_lookup [OF t])
    then show ?thesis using False p q f True by (cases f; cases "the f") (simp_all add: leafRawHint_def wp_simps reads_def)
  qed
qed

lemma tree_descend: "tree_ok t N E \<Longrightarrow> wp (descend key) (\<lambda>res t'. quiet t t' \<and> res = Inr (routes N (root t) key (Suc (depth t)))) t"
  using descend_ok tree_okD(2,4) by blast

lemma leaf_route: "route (lev N (root t) (depth t)) key = route (leaves t N) key"
  by (simp add: leaves_def)

text \<open>Looking a key up on the leaf the descent leads to.\<close>

lemma leaf_lookup:
  assumes t: "tree_ok t N E" and c: "c = route (leaves t N) key"
  obtains p hdr f where "pg t c = Inr p" "c \<noteq> 0" "c \<in> alive (eng t)" "expectType p PageTypeBTreeLeaf = Some (Inr ())" "readHeader p = Some (Inr hdr)"
    "findLeafSlot p key = Some (Inr f)" "map_option snd f = map_of (contents E (leaves t N)) key"
proof -
  obtain pv nx where n: "nodeL (pg t) c (E c) pv nx" "c \<in> set (lids (leaves t N))" unfolding c by (rule tree_leaf [OF t])
  obtain p hdr where p: "pg t c = Inr p" "c \<noteq> 0" "expectType p PageTypeBTreeLeaf = Some (Inr ())" "readHeader p = Some (Inr hdr)"
    by (rule nodeL_reads [OF n(1)])
  obtain f where f: "findLeafSlot p key = Some (Inr f)" "map_option snd f = map_of (E c) key" by (rule findLeafSlot_lookup [OF n(1) p(1), of key])
  show thesis using that [OF p(1,2) _ p(3,4) f(1)] f(2) tree_okD(5) [OF t] n(2) by (auto simp: tree_lookup [OF t] c)
qed

lemma wp_pbindI:
  assumes "wp m (\<lambda>r s'. P s' \<and> r = Inr x) s" and "\<And>s'. P s' \<Longrightarrow> wp (f x) R s'"
  shows "wp (pbind m f) R s"
  unfolding wp_pbind by (rule wp_mono [OF assms(1)]) (auto simp: wp_simps assms(2))

lemma leafRaw_ok:
  assumes t: "tree_ok t N E"
  shows "wp (leafRaw key) (\<lambda>res t'. reads t t' \<and> res = Inr (found E (leaves t N) key)) t"
  unfolding leafRaw_def wp_pbind [of "leafRawHint key"]
proof (rule wp_mono [OF leafRawHint_ok [OF t, of key]], elim conjE disjE, goal_cases)
  case (1 res t1)
  note t1 = reads_tree_ok [OF 1(1) t] and f = reads_fields [OF 1(1)]
  let ?c = "route (leaves t N) key"
  obtain p hdr f where p: "pg t1 ?c = Inr p" "?c \<noteq> 0" "?c \<in> alive (eng t1)" "expectType p PageTypeBTreeLeaf = Some (Inr ())"
    "findLeafSlot p key = Some (Inr f)" "map_option snd f = map_of (contents E (leaves t N)) key"
    using leaf_lookup [OF t1, of ?c key] unfolding f(8) by metis
  have l: "last (routes N (root t1) key (Suc (depth t1))) = ?c" using leaf_route [of N t1] f(8) by simp
  show ?case unfolding 1(2) andThen_simps option.case
  proof (rule wp_pbindI [OF tree_descend [OF t1, of key]], goal_cases)
    case (1 t2)
    have q2: "pg t2 ?c = Inr p" "?c \<in> alive (eng t2)" using quiet_fields(1,8) [OF 1] p by simp_all
    have "reads t (touch ?c t2)" using reads_quiet [OF reads_quiet [OF \<open>reads t t1\<close> 1] quiet_touch [OF q2(2)]] .
    then show ?case using p q2 unfolding Let_def l by (cases f; cases "the f") (simp_all add: wp_simps found_def)
  qed
qed (simp add: wp_simps)

end
