(* ===== verification/BTreeInsert.thy ===== *)
theory BTreeInsert
  imports BTreeMap
begin

text \<open>
  Inserting into the tree (\<open>insertAt\<close>, \<open>insertOnLeaf\<close>, \<open>splitLeafAndInsert\<close>,
  \<open>splitLeafAppend\<close>): the contents gain the record and the invariant is kept, whether the record
  fits its leaf or the leaf and any number of nodes above it are split.
\<close>

section \<open>Routing after a split\<close>

lemma insL_split:
  assumes s: "lsorted l" and k: "sep \<notin> fst ` set (snd l)"
  obtains f us vs where "l = (f, us @ vs)" "\<forall>x \<in> set us. fst x < sep" "\<forall>y \<in> set vs. sep < fst y"
    "insL sep q l = (f, us @ (sep, q) # vs)" "route l sep = last (f # map snd us)"
proof -
  obtain us vs where u: "snd l = us @ vs" "\<forall>x \<in> set us. fst x < sep" "\<forall>y \<in> set vs. sep < fst y"
    "insort_key fst (sep, q) (snd l) = us @ (sep, q) # vs" by (rule insort_split [OF s k])
  have "insL sep q l = (fst l, us @ (sep, q) # vs)" unfolding insL_def u(4) ..
  moreover have "route l sep = last (fst l # map snd us)"
    unfolding route_def u(1) using u(2,3) childLoop_split [of us sep vs "fst l"] by (simp add: less_imp_le last_map)
  ultimately show thesis using that [of "fst l" us vs] u by (metis prod.collapse)
qed

lemma childLoop_in: "childLoop c es k \<in> insert c (snd ` set es)"
  by (induction es arbitrary: c) auto

lemma route_insL:
  assumes s: "lsorted l" and k: "sep \<notin> fst ` set (snd l)" and c: "route l sep = c" and d: "distinct (lids l)"
  shows "route (insL sep q l) k = (if route l k = c \<and> sep \<le> k then q else route l k)"
proof -
  obtain f us vs where u: "l = (f, us @ vs)" "\<forall>x \<in> set us. fst x < sep" "\<forall>y \<in> set vs. sep < fst y"
    "insL sep q l = (f, us @ (sep, q) # vs)" "route l sep = last (f # map snd us)" by (rule insL_split [OF s k])
  show ?thesis
  proof (cases "sep \<le> k")
    case False
    then have ks: "k < sep" by simp
    have "\<forall>y \<in> set vs. k < fst y" using u(3) ks by (meson less_trans)
    then have "route (insL sep q l) k = childLoop f us k" "route l k = childLoop f us k"
      unfolding route_def u(4) unfolding u(1) using ks childLoop_app_gt [of vs k f us] childLoop_app_gt [of "(sep, q) # vs" k f us] by simp_all
    then show ?thesis using False by simp
  next
    case True
    have le: "\<forall>x \<in> set us. fst x \<le> k" using u(2) True by (meson less_imp_le order.trans)
    have r: "route l k = childLoop c vs k" "route (insL sep q l) k = childLoop q vs k"
      unfolding c [symmetric] u(5) unfolding route_def u(4) unfolding u(1)
      using True childLoop_app_le [OF le, of f vs] childLoop_app_le [OF le, of f "(sep, q) # vs"] by simp_all
    show ?thesis
    proof (cases "vs = [] \<or> k < fst (hd vs)")
      case T: True
      then have "childLoop e vs k = e" for e by (cases vs) auto
      then show ?thesis using r True by simp
    next
      case False
      then obtain y ys where y: "vs = y # ys" "fst y \<le> k" by (cases vs) auto
      have e: "childLoop e vs k = childLoop (snd y) ys k" for e unfolding y(1) using y(2) by (cases y) simp
      have "childLoop (snd y) ys k \<in> snd ` set vs" using childLoop_in [of "snd y" ys k] by (simp add: y(1))
      moreover have "c \<notin> snd ` set vs" using d unfolding c [symmetric] u(5) unfolding lids_def u(1) by (cases us rule: rev_cases) auto
      ultimately show ?thesis unfolding r e by auto
    qed
  qed
qed

lemma lids_insL:
  assumes s: "lsorted l" and k: "sep \<notin> fst ` set (snd l)" and c: "route l sep = c"
  obtains xs ys where "lids l = xs @ c # ys" "lids (insL sep q l) = xs @ c # q # ys"
proof -
  obtain f us vs where u: "l = (f, us @ vs)" "insL sep q l = (f, us @ (sep, q) # vs)" "route l sep = last (f # map snd us)" by (rule insL_split [OF s k])
  have "lids l = butlast (f # map snd us) @ c # map snd vs" "lids (insL sep q l) = butlast (f # map snd us) @ c # q # map snd vs"
    unfolding c [symmetric] u(3) unfolding u(2) unfolding lids_def u(1) by (cases us rule: rev_cases; simp)+
  then show thesis using that by blast
qed

text \<open>A separator that lies between two keys of one leaf is new.\<close>

lemma sep_new:
  assumes s: "lsorted l" and d: "distinct (lids l)" and r: "route l a = route l b" and ab: "a < b"
  shows "b \<notin> fst ` set (snd l)"
proof
  assume "b \<in> fst ` set (snd l)"
  have "ridx l a = ridx l b" using r ridx_eq [OF d] by simp
  moreover have "ridx l a < ridx l b"
  proof -
    obtain us c vs where u: "snd l = us @ (b, c) # vs" using \<open>b \<in> fst ` set (snd l)\<close> by (auto dest!: split_list)
    have "\<forall>x \<in> set us. fst x < b" using s u by (auto simp: keysorted_append)
    then have "length us < ridx l b" unfolding ridx_def u by (simp add: less_imp_le)
    moreover have "ridx l a \<le> length us" unfolding ridx_def u using ab by (auto simp: takeWhile_append not_le length_takeWhile_le)
    ultimately show ?thesis by simp
  qed
  ultimately show False by simp
qed

section \<open>The chain of leaves\<close>

lemma chain_cong: "\<forall>c \<in> set cs. P c = P' c \<and> E c = E' c \<Longrightarrow> chain P E pv cs = chain P' E' pv cs"
  by (induction cs arbitrary: pv) (auto simp: nodeL_cong [of P _ P'])

lemma chain_update:
  assumes "chain P E pv cs" and "distinct cs" and "\<forall>pv nx. nodeL P c (E c) pv nx \<longrightarrow> nodeL P' c (E' c) pv nx" and "\<forall>x \<in> set cs. x \<noteq> c \<longrightarrow> P' x = P x \<and> E' x = E x"
  shows "chain P' E' pv cs"
  using assms
proof (induction cs arbitrary: pv)
  case (Cons d cs)
  show ?case
  proof (cases "d = c")
    case True
    then have "chain P' E' d cs \<longleftrightarrow> chain P E d cs" using Cons.prems by (intro chain_cong) auto
    then show ?thesis using Cons.prems True by simp
  next
    case False
    then show ?thesis using Cons by (simp add: nodeL_cong [of P' d P])
  qed
qed simp

lemma chain_split:
  assumes "chain P E pv (xs @ c # ys)" and "distinct (xs @ c # ys)" and "q \<notin> set (xs @ c # ys)"
    and "\<forall>pv nx. nodeL P c (E c) pv nx \<longrightarrow> nodeL P' c (E' c) pv q" and "nodeL P' q (E' q) c (case ys of [] \<Rightarrow> 0 | d # _ \<Rightarrow> d)"
    and "\<forall>x \<in> set xs. P' x = P x" and "\<forall>x \<in> set (tl ys). P' x = P x" and "\<forall>x. x \<noteq> c \<longrightarrow> x \<noteq> q \<longrightarrow> E' x = E x"
    and "\<forall>d ys'. ys = d # ys' \<longrightarrow> (\<forall>nx. nodeL P d (E d) c nx \<longrightarrow> nodeL P' d (E d) q nx)"
  shows "chain P' E' pv (xs @ c # q # ys)"
  using assms
proof (induction xs arbitrary: pv)
  case Nil
  have "chain P' E' q ys"
  proof (cases ys)
    case (Cons d zs)
    have "chain P' E' d zs \<longleftrightarrow> chain P E d zs" using Nil.prems Cons by (intro chain_cong) auto
    moreover have "E' d = E d" using Nil.prems Cons by auto
    ultimately show ?thesis using Nil.prems Cons by auto
  qed simp
  then show ?case using Nil.prems by auto
next
  case (Cons x xs)
  have "(case xs @ c # q # ys of [] \<Rightarrow> 0 | d # _ \<Rightarrow> d) = (case xs @ c # ys of [] \<Rightarrow> 0 | d # _ \<Rightarrow> d)" by (cases xs) auto
  moreover have "E' x = E x" using Cons.prems(2,3,8) by auto
  then have "nodeL P' x (E' x) pv nx = nodeL P x (E x) pv nx" for nx using Cons.prems(6) nodeL_cong [of P' x P] by simp
  ultimately show ?case using Cons by auto
qed

section \<open>A leaf is changed in place\<close>

lemma evolves_leaves: "evolves t t' \<Longrightarrow> leaves t' N = leaves t N \<and> depth t' = depth t"
  using evolves_fields(1,2) [of t t'] by (simp add: leaves_def depth_def)

lemma inner_cong: "\<forall>c \<in> set (ids N rt m). P' c = P c \<Longrightarrow> inner P N rt m \<Longrightarrow> inner P' N rt m"
  unfolding inner_def by (metis (no_types, lifting) nodeI_cong)

lemma tree_ok_update:
  assumes t: "tree_ok t N E" and c: "c \<in> set (lids (leaves t N))" and ev: "evolves t t'"
    and n: "\<forall>pv nx. nodeL (pg t) c (E c) pv nx \<longrightarrow> nodeL (pg t') c es pv nx" and o: "\<forall>x. x \<noteq> c \<longrightarrow> pg t' x = pg t x"
    and r: "\<forall>e \<in> set es. route (leaves t N) (fst e) = c"
  shows "tree_ok t' N (E(c := es))"
proof -
  note f = evolves_fields [OF ev] and k = tree_okD [OF t]
  have l: "leaves t' N = leaves t N" "depth t' = depth t" using evolves_leaves [OF ev] by auto
  have "inner (pg t') N (root t) (depth t)" by (rule inner_cong [OF _ k(2)]) (use o c k(3) in auto)
  moreover have "metaOK t'" by (rule metaOK_evolves [OF k(9) ev]) (use o c k(7) in auto)
  moreover have "chain (pg t') (E(c := es)) 0 (lids (leaves t N))" by (rule chain_update [OF k(10,14), of c]) (use n o in auto)
  moreover have "placed (E(c := es)) (leaves t N)" using k(11) r by (auto simp: placed_def)
  moreover have "hintOK t' (leaves t N)" using k(12) f by (simp add: hintOK_def)
  moreover have "set (ids N (root t) (Suc (depth t))) \<subseteq> alive (eng t')" using k(4,5) f(9) by (auto simp: leaves_def)
  ultimately show ?thesis using k f by (simp add: tree_ok_def l) (simp add: leaves_def)
qed

lemma contents_unique: "keysorted xs \<Longrightarrow> keysorted ys \<Longrightarrow> set xs = set ys \<Longrightarrow> xs = ys"
  by (rule map_sorted_distinct_set_unique [of fst]) (auto simp: keysorted_def strict_sorted_iff inj_on_def distinct_map)

lemma tree_contents_sorted: "tree_ok t N E \<Longrightarrow> keysorted (contents E (leaves t N))"
  using contents_sorted tree_okD(11,14) leaf_sorted by blast

lemma noteRight_sel [simp]:
  "eng (noteRight c k t) = eng t" "root (noteRight c k t) = root t" "height (noteRight c k t) = height t" "tmeta (noteRight c k t) = tmeta t"
  "hintParent (noteRight c k t) = hintParent t" "liveRows (noteRight c k t) = liveRows t" "liveKnown (noteRight c k t) = liveKnown t"
  by (simp_all add: noteRight_def)

lemma hintOK_noteRight: "hintOK t l \<Longrightarrow> c \<in> set (lids l) \<Longrightarrow> route l k = c \<Longrightarrow> hintOK (noteRight c k t) l"
  by (auto simp: hintOK_def noteRight_def)

lemma tree_ok_noteRight: "tree_ok t N E \<Longrightarrow> c \<in> set (lids (leaves t N)) \<Longrightarrow> route (leaves t N) k = c \<Longrightarrow> tree_ok (noteRight c k t) N E"
  by (rule tree_ok_hints) (auto intro: hintOK_noteRight dest: tree_okD(12))

section \<open>A leaf has been split\<close>

text \<open>The pages before the separator is added: the leaf and its new right neighbour are in the
  chain, the internal nodes do not know of the new one.\<close>

definition halfway :: "Tree \<Rightarrow> inodes \<Rightarrow> lnodes \<Rightarrow> PageID \<Rightarrow> bytes \<Rightarrow> PageID \<Rightarrow> lnodes \<Rightarrow> Tree \<Rightarrow> bool" where
  "halfway t N E c sep q E' t1 \<longleftrightarrow> root t1 = root t \<and> height t1 = height t \<and> tmeta t1 = tmeta t \<and> metaOK t1 \<and> eng_ok (eng t1) \<and>
     alive (eng t) \<subseteq> alive (eng t1) \<and> q \<notin> alive (eng t) \<and> q \<in> alive (eng t1) \<and>
     (\<forall>x \<in> set (ids N (root t) (depth t)). pg t1 x = pg t x) \<and>
     (let l = leaves t N in route l sep = c \<and> sep \<notin> fst ` set (snd l) \<and> chain (pg t1) E' 0 (lids (insL sep q l)) \<and>
       (\<forall>x. x \<noteq> c \<longrightarrow> x \<noteq> q \<longrightarrow> E' x = E x) \<and> (\<forall>e \<in> set (E' c). route l (fst e) = c \<and> fst e < sep) \<and>
       (\<forall>e \<in> set (E' q). route l (fst e) = c \<and> sep \<le> fst e))"

lemma halfwayD:
  assumes "halfway t N E c sep q E' t1"
  shows "root t1 = root t" "height t1 = height t" "tmeta t1 = tmeta t" "metaOK t1" "eng_ok (eng t1)" "alive (eng t) \<subseteq> alive (eng t1)"
    "q \<notin> alive (eng t)" "q \<in> alive (eng t1)" "\<forall>x \<in> set (ids N (root t) (depth t)). pg t1 x = pg t x" "route (leaves t N) sep = c"
    "sep \<notin> fst ` set (snd (leaves t N))" "chain (pg t1) E' 0 (lids (insL sep q (leaves t N)))" "\<forall>x. x \<noteq> c \<longrightarrow> x \<noteq> q \<longrightarrow> E' x = E x"
    "\<forall>e \<in> set (E' c). route (leaves t N) (fst e) = c \<and> fst e < sep" "\<forall>e \<in> set (E' q). route (leaves t N) (fst e) = c \<and> sep \<le> fst e"
  using assms by (simp_all add: halfway_def Let_def)

lemma placed_split:
  assumes t: "tree_ok t N E" and h: "halfway t N E c sep q E' t1"
  shows "placed E' (insL sep q (leaves t N))"
  unfolding placed_def
proof (intro ballI)
  let ?l = "leaves t N"
  note k = tree_okD [OF t] and hh = halfwayD [OF h]
  fix x e assume x: "x \<in> set (lids (insL sep q ?l))" and e: "e \<in> set (E' x)"
  have r: "route (insL sep q ?l) (fst e) = (if route ?l (fst e) = c \<and> sep \<le> fst e then q else route ?l (fst e))"
    by (rule route_insL [OF k(13) hh(11,10) k(14)])
  have x': "x = q \<or> x \<in> set (lids ?l)" using x by (simp add: insL_set_lids)
  show "route (insL sep q ?l) (fst e) = x"
  proof (cases "x = c \<or> x = q")
    case True
    then show ?thesis using r e hh(14,15) by (metis not_le)
  next
    case False
    then have "route ?l (fst e) = x" using e hh(13) k(11) x' by (auto simp: placed_def)
    then show ?thesis using r False by auto
  qed
qed

lemma split_done:
  assumes t: "tree_ok t N E" and h: "halfway t N E c sep q E' t1" and s: "sepDone t1 N (depth t) sep q t'"
    and hint: "hintOK t' (insL sep q (leaves t N))"
  obtains N' where "tree_ok t' N' E'" "leaves t' N' = insL sep q (leaves t N)"
proof -
  let ?l = "leaves t N" and ?m = "depth t"
  note k = tree_okD [OF t] and hh = halfwayD [OF h]
  obtain N' d where d: "keeps t1 t'" "metaOK t'" "d \<le> 1" "height t' = height t + int d" "inner (pg t') N' (root t') (?m + d)"
    "lev N' (root t') (?m + d) = insL sep q ?l" "set (ids N' (root t') (?m + d)) \<subseteq> alive (eng t') - (alive (eng t1) - set (ids N (root t) ?m))"
    "\<forall>x \<in> alive (eng t1) - set (ids N (root t) ?m). x \<noteq> tmeta t \<longrightarrow> pg t' x = pg t1 x"
    using s unfolding sepDone_def hh(1-3) leaves_def by blast
  note kf = keeps_fields [OF d(1)]
  have dep: "depth t' = ?m + d" using d(4) k(1) by (simp add: depth_def)
  have lv: "leaves t' N' = insL sep q ?l" using d(6) by (simp add: leaves_def dep)
  have L: "set (lids (insL sep q ?l)) = insert q (set (lids ?l))" by (rule insL_set_lids)
  have La: "x \<in> alive (eng t1) - set (ids N (root t) ?m)" "x \<noteq> tmeta t" if "x \<in> set (lids (insL sep q ?l))" for x
    using that L hh(6-8) k(3-5,7,9) by (auto simp: metaOK_def alive_def)
  have "distinct (lids (insL sep q ?l))" by (rule insL_distinct [OF k(14)]) (use hh(7) k(5) in auto)
  then have "distinct (ids N' (root t') (Suc (depth t')))" using d(5,6,7) La by (auto simp: inner_def dep)
  moreover have "set (ids N' (root t') (Suc (depth t'))) \<subseteq> alive (eng t')" using d(6,7) La kf(7) by (auto simp: dep)
  moreover have "tmeta t' \<notin> set (ids N' (root t') (Suc (depth t')))"
    using d(6,7) La(2) k(6) hh(3,4) kf(1) by (auto simp: dep metaOK_def alive_def)
  moreover have "chain (pg t') E' 0 (lids (leaves t' N'))"
    unfolding lv using hh(12) chain_cong [of "lids (insL sep q ?l)" "pg t'" "pg t1" E' E' 0] d(8) La by simp
  moreover have "placed E' (leaves t' N')" unfolding lv by (rule placed_split [OF t h])
  ultimately have "tree_ok t' N' E'" using d(2,4,5) k(1) kf(5) hint by (simp add: tree_ok_def dep lv)
  then show thesis using that lv by blast
qed

lemma set_swap: "A \<inter> B = {} \<Longrightarrow> S \<subseteq> A \<Longrightarrow> X = insert e S \<Longrightarrow> X \<union> B = insert e ((A \<union> B) - (A - S))"
  by blast

lemma contents_split:
  assumes t: "tree_ok t N E" and h: "halfway t N E c sep q E' t1" and es: "set (E' c) \<union> set (E' q) = insert e (S :: leafEntry set)" and S: "S \<subseteq> set (E c)"
  shows "set (contents E' (insL sep q (leaves t N))) = insert e (set (contents E (leaves t N)) - (set (E c) - S))"
proof -
  let ?l = "leaves t N"
  note k = tree_okD [OF t] and hh = halfwayD [OF h]
  have cl: "c \<in> set (lids ?l)" unfolding hh(10) [symmetric] by (rule route_in [OF k(13)])
  have ql: "q \<notin> set (lids ?l)" using hh(7) k(5) by blast
  have "set (contents E ?l) = set (E c) \<union> (\<Union>x \<in> set (lids ?l) - {c}. set (E x))" using cl by (auto simp: contents_def)
  moreover have "x = c" if "x \<in> set (lids ?l)" "e \<in> set (E x)" "e \<in> set (E c)" for x e using k(11) cl that unfolding placed_def by metis
  then have "set (E c) \<inter> (\<Union>x \<in> set (lids ?l) - {c}. set (E x)) = {}" by blast
  moreover have o: "\<forall>x \<in> set (lids ?l) - {c}. E' x = E x" using ql hh(13) by auto
  have "set (lids (insL sep q ?l)) = insert c (insert q (set (lids ?l) - {c}))" using cl by (auto simp: insL_set_lids)
  then have "set (contents E' (insL sep q ?l)) = set (E' c) \<union> set (E' q) \<union> (\<Union>x \<in> set (lids ?l) - {c}. set (E x))"
    unfolding contents_def set_concat set_map using o by (simp add: Un_assoc)
  ultimately show ?thesis using set_swap [OF _ S es] by simp
qed

section \<open>Building the halves\<close>

lemma rebuildL:
  assumes "\<forall>e \<in> set es. leafOK e" and "keysorted es" and "leafPageBytes es \<le> 16384" and "c \<noteq> 0" and "nhPrev hdr = pv" and "nhNext hdr = nx"
  obtains r where "rebuildLeaf c hdr es = Some (Inr r)" "\<And>P. P c = Inr r \<Longrightarrow> nodeL P c es pv nx"
    "\<And>dst. pageID dst = Some c \<Longrightarrow> overwrite dst r = Some (r, Inr ())"
proof -
  from rebuildLeaf_spec [OF assms(1), of c hdr] assms(3)
  obtain r where r: "rebuildLeaf c hdr es = Some (Inr r)" "leaf_page r c hdr (mset es)" by auto
  show thesis by (rule that [OF r(1) _ node_overwrite [OF r(2)]]) (use assms r(2) in \<open>auto simp: nodeL_def\<close>)
qed

lemma relink_ok:
  assumes n: "nx \<noteq> 0 \<longrightarrow> nodeL (pg t) nx es pv nn \<and> nx \<in> alive (eng t)" and e: "eng_ok (eng t)"
  shows "wp (if nx \<noteq> 0 then setSiblingPrev nx q else pret ()) (\<lambda>res t'. (evolves t t' \<and> alive (eng t') = alive (eng t) \<and>
    (\<forall>k. room k (eng t') = room k (eng t)) \<and> (\<forall>x. x \<noteq> nx \<or> x = 0 \<longrightarrow> pg t' x = pg t x) \<and>
    (nx \<noteq> 0 \<longrightarrow> nodeL (pg t') nx es q nn)) \<and> res = Inr ()) t"
proof (cases "nx = 0")
  case True
  then show ?thesis using e evolves_refl by (simp add: wp_simps)
next
  case False
  have n1: "nodeL (pg t) nx es pv nn" "nx \<in> alive (eng t)" using n False by auto
  obtain p hdr where p: "pg t nx = Inr p" "leaf_page p nx hdr (mset es)" "nhNext hdr = nn" "readHeader p = Some (Inr hdr)"
    by (rule nodeL_reads [OF n1(1)])
  obtain r where r: "writeHeader p (hdr\<lparr>nhPrev := q\<rparr>) = Some (r, Inr ())" "leaf_page r nx (hdr\<lparr>nhPrev := q\<rparr>) (mset es)"
    using node_writeHeader [OF p(2), of "hdr\<lparr>nhPrev := q\<rparr>"] by auto
  have "nodeL ((pg t)(nx := Inr r)) nx es q nn" using n1(1) r(2) p(3) by (auto simp: nodeL_def)
  then show ?thesis using False p r(1) e n1(2)
    by (simp add: setSiblingPrev_def wp_simps) (auto intro!: evolves_setPageI evolves_touch)
qed

lemma halfway_make:
  assumes t: "tree_ok t N E" and ev: "evolves t t1" and q: "q \<notin> alive (eng t)" "q \<in> alive (eng t1)"
    and s: "route (leaves t N) sep = c" "sep \<notin> fst ` set (snd (leaves t N))" and n0: "nodeL (pg t) c (E c) pvc nxc"
    and n1: "nodeL (pg t1) c es1 pvc q" and n2: "nodeL (pg t1) q es2 c nxc"
    and n3: "nxc \<noteq> 0 \<longrightarrow> (\<exists>nn. nodeL (pg t) nxc (E nxc) c nn \<and> nodeL (pg t1) nxc (E nxc) q nn)"
    and o: "\<forall>x. x \<noteq> c \<longrightarrow> x \<noteq> q \<longrightarrow> (x \<noteq> nxc \<or> x = 0) \<longrightarrow> pg t1 x = pg t x"
    and e1: "\<forall>e \<in> set es1. route (leaves t N) (fst e) = c \<and> fst e < sep" and e2: "\<forall>e \<in> set es2. route (leaves t N) (fst e) = c \<and> sep \<le> fst e"
  shows "halfway t N E c sep q (E(c := es1, q := es2)) t1"
proof -
  let ?l = "leaves t N"
  note k = tree_okD [OF t] and f = evolves_fields [OF ev]
  obtain xs ys where xy: "lids ?l = xs @ c # ys" "lids (insL sep q ?l) = xs @ c # q # ys" by (rule lids_insL [OF k(13) s(2,1)])
  have ch: "chain (pg t) E 0 (xs @ c # ys)" and d: "distinct (xs @ c # ys)" using k(10,14) xy(1) by auto
  have z: "0 \<notin> set (lids ?l)" using k(5) by (auto simp: alive_def)
  have nx: "nxc = (case ys of [] \<Rightarrow> 0 | d # _ \<Rightarrow> d)"
  proof -
    have "chain P E pv (xs @ c # ys) \<Longrightarrow> \<exists>pv. nodeL P c (E c) pv (case ys of [] \<Rightarrow> 0 | d # _ \<Rightarrow> d)" for P pv by (induction xs arbitrary: pv) auto
    then show ?thesis using ch nodeL_hdr(2) [OF n0] by blast
  qed
  have nxl: "nxc = 0 \<or> nxc \<in> set ys" using nx by (cases ys) auto
  have ql: "q \<notin> set (lids ?l)" using q(1) k(5) by blast
  have "chain (pg t1) (E(c := es1, q := es2)) 0 (xs @ c # q # ys)"
  proof (rule chain_split [OF ch d])
    show "q \<notin> set (xs @ c # ys)" using ql xy(1) by simp
    have qc: "q \<noteq> c" using ql xy(1) by auto
    show "\<forall>pv nx. nodeL (pg t) c (E c) pv nx \<longrightarrow> nodeL (pg t1) c ((E(c := es1, q := es2)) c) pv q"
      using n1 nodeL_hdr(1) [OF n0] qc by auto
    show "nodeL (pg t1) q ((E(c := es1, q := es2)) q) c (case ys of [] \<Rightarrow> 0 | d # _ \<Rightarrow> d)" using n2 nx by simp
    show "\<forall>x \<in> set xs. pg t1 x = pg t x" "\<forall>x \<in> set (tl ys). pg t1 x = pg t x"
      using o ql xy(1) d nx z by (cases ys; auto)+
    show "\<forall>d ys'. ys = d # ys' \<longrightarrow> (\<forall>nx. nodeL (pg t) d (E d) c nx \<longrightarrow> nodeL (pg t1) d (E d) q nx)"
      using n3 nx z xy(1) nodeL_hdr(2) by auto metis
  qed auto
  moreover have "\<forall>x \<in> set (ids N (root t) (depth t)). pg t1 x = pg t x" using o k(3,4) q(1) nxl xy(1) by (auto simp: alive_def)
  moreover have "tmeta t \<noteq> q" using k(9) q by (auto simp: metaOK_def alive_def)
  then have "metaOK t1" by (intro metaOK_evolves [OF k(9) ev] o [rule_format]) (use k(7) nxl xy(1) in auto)
  ultimately show ?thesis using f q s e1 e2 ql xy unfolding halfway_def Let_def xy(2) by auto
qed

section \<open>Finishing a split\<close>

lemma hintOK_keeps: "keeps t t' \<Longrightarrow> hintOK t l \<Longrightarrow> hintOK t' l"
  using keeps_fields(2,3) [of t t'] by (simp add: hintOK_def)

lemma finish_split:
  assumes t: "tree_ok t N E" and h: "halfway t N E c sep q E' t1" and r: "room (Suc (depth t)) (eng t1)" and k: "keyOK sep"
    and ht: "height t < 65535" and ev: "cutsFit N (root t) (depth t) sep"
    and hint: "hintOK t1 (insL sep q (leaves t N))"
  shows "wp (insertSeparator (routes N (root t) sep (depth t)) sep q)
    (\<lambda>res t'. (keeps t1 t' \<and> (\<exists>N'. tree_ok t' N' E' \<and> leaves t' N' = insL sep q (leaves t N))) \<and> res = Inr ()) t1"
proof -
  note o = tree_okD [OF t] and hh = halfwayD [OF h]
  have i: "inner (pg t1) N (root t) (depth t)" by (rule inner_cong [OF hh(9) o(2)])
  have q0: "q \<noteq> 0" using hh(8) by (simp add: alive_def)
  have "wp (insertSeparator (routes N (root t1) sep (depth t)) sep q) (\<lambda>res t'. res = Inr () \<and> sepDone t1 N (depth t) sep q t') t1"
    by (rule insertSeparator_ok; (unfold hh(1-3))?)
      (use i o(1,4,6) hh(4-6,11) r ht k q0 ev root_alive [OF t] in \<open>auto simp: internalOK_def leaves_def\<close>)
  then show ?thesis unfolding hh(1)
  proof (rule wp_mono, goal_cases)
    case (1 res t')
    have "keeps t1 t'" using 1 by (simp add: sepDone_def)
    moreover from this have "hintOK t' (insL sep q (leaves t N))" using hintOK_keeps hint by blast
    ultimately show ?case using split_done [OF t h, of t'] 1 by metis
  qed
qed

lemma route_up_leaf:
  assumes t: "tree_ok t N E" and r: "route (leaves t N) a = route (leaves t N) b"
  shows "routes N (root t) a (depth t) = routes N (root t) b (depth t)"
proof (cases "depth t")
  case (Suc i)
  let ?l = "lev N (root t) i"
  note o = tree_okD [OF t]
  have lv: "leaves t N = flat N ?l" by (simp add: leaves_def Suc)
  have s: "lsorted (flat N ?l)" "lsorted ?l" using o(13) flat_sorted lv by auto
  have d: "distinct (lids (flat N ?l))" "distinct (lids ?l)" using o(14) lv inner_distinct [OF o(2), of i] Suc by simp_all
  have "route (leaves t N) k \<in> set (lids (N (route ?l k)))" "route ?l k \<in> set (lids ?l)" for k
    using route_flat [OF s(1) d(2), of k] route_in [OF s(2), of k] route_in [OF node_sorted [OF s(1) route_in [OF s(2), of k]], of k] lv by simp_all
  then have "route ?l a = route ?l b" using flat_unique [OF d(1)] r by metis
  then show ?thesis using routes_up [OF o(2), of i a b] Suc by simp
qed simp

text \<open>Every key of a leaf is routed to it.\<close>

lemma leaf_keys_route: "tree_ok t N E \<Longrightarrow> c \<in> set (lids (leaves t N)) \<Longrightarrow> e \<in> set (E c) \<Longrightarrow> route (leaves t N) (fst e) = c"
  using tree_okD(11) by (auto simp: placed_def)

lemma next_leaf:
  assumes t: "tree_ok t N E" and n: "nodeL (pg t) c (E c) pv nx" and c: "c \<in> set (lids (leaves t N))" and nx: "nx \<noteq> 0"
  obtains nn where "nodeL (pg t) nx (E nx) c nn" "nx \<in> set (lids (leaves t N))" "nx \<noteq> c"
proof -
  obtain xs ys where l: "lids (leaves t N) = xs @ c # ys" using c by (meson split_list)
  have "chain P E pv (xs @ c # ys) \<Longrightarrow> \<exists>pv. chain P E pv (c # ys)" for P pv by (induction xs arbitrary: pv) auto
  then obtain pv' where ch: "chain (pg t) E pv' (c # ys)" using tree_okD(10) [OF t] l by metis
  then have "nx = (case ys of [] \<Rightarrow> 0 | d # _ \<Rightarrow> d)" using nodeL_hdr(2) [OF n] by auto
  then obtain zs where ys: "ys = nx # zs" using nx by (cases ys) auto
  have "nodeL (pg t) nx (E nx) c (case zs of [] \<Rightarrow> 0 | d # _ \<Rightarrow> d)" using ch ys by simp
  then show thesis using that l ys tree_okD(14) [OF t] by auto
qed

lemma leafPageBytes_insort: "leafPageBytes (insort_key fst e es) = leafPageBytes es + cost e"
  unfolding leafPageBytes_cost by (induction es) auto

section \<open>The general split\<close>

text \<open>What holds before a split and what it achieves.\<close>

text \<open>Free pages for a split on every level and a new root, no deferred crash, and a height that still fits its field.\<close>

definition spacious :: "Tree \<Rightarrow> bool" where
  "spacious t \<longleftrightarrow> room (Suc (Suc (depth t))) (eng t) \<and> calm t \<and> height t < 65535"

definition splittable :: "Tree \<Rightarrow> inodes \<Rightarrow> bytes set \<Rightarrow> bool" where
  "splittable t N K \<longleftrightarrow> spacious t \<and> (\<forall>k \<in> K. cutsFit N (root t) (depth t) k)"

lemma splittableD:
  assumes "splittable t N K"
  shows "room (Suc (Suc (depth t))) (eng t)" "calm t" "height t < 65535" "k \<in> K \<Longrightarrow> cutsFit N (root t) (depth t) k"
  using assms by (auto simp: splittable_def spacious_def)

definition holds :: "Tree \<Rightarrow> leafEntry set \<Rightarrow> bool" where
  "holds t S \<longleftrightarrow> (\<exists>N E. tree_ok t N E \<and> set (contents E (leaves t N)) = S)"

lemma split_point:
  assumes s: "keysorted al" and m: "1 \<le> mid" "mid < length al" and r: "\<forall>e \<in> set al. route l (fst e) = c"
    and l: "lsorted l" "distinct (lids l)"
  shows "route l (fst (al ! mid)) = c" and "fst (al ! mid) \<notin> fst ` set (snd l)"
    and "\<forall>e \<in> set (take mid al). fst e < fst (al ! mid)" and "\<forall>e \<in> set (drop mid al). fst (al ! mid) \<le> fst e"
    and "keysorted (take mid al)" and "keysorted (drop mid al)"
proof -
  have al: "al = take mid al @ al ! mid # drop (Suc mid) al" using m by (simp add: id_take_nth_drop)
  have k: "keysorted (take mid al @ al ! mid # drop (Suc mid) al)" using s al by simp
  have d: "drop mid al = al ! mid # drop (Suc mid) al" using m by (simp add: Cons_nth_drop_Suc)
  show r1: "route l (fst (al ! mid)) = c" using r m by simp
  show lt: "\<forall>e \<in> set (take mid al). fst e < fst (al ! mid)" "\<forall>e \<in> set (drop mid al). fst (al ! mid) \<le> fst e"
    using k unfolding d by (auto simp: keysorted_append less_imp_le)
  show "keysorted (take mid al)" "keysorted (drop mid al)" using k unfolding d by (auto simp: keysorted_append)
  have "al ! 0 \<in> set (take mid al)" using m by (auto simp: in_set_conv_nth intro!: exI [of _ 0])
  moreover from this have "route l (fst (al ! 0)) = c" using r by (meson in_set_takeD)
  ultimately show "fst (al ! mid) \<notin> fst ` set (snd l)" using sep_new [OF l, of "fst (al ! 0)"] r1 lt by simp
qed

lemma splitLeafAndInsert_ok:
  fixes key val ents
  defines "al \<equiv> insort_key fst (key, val) ents"
  assumes t: "tree_ok t N E" and c: "c = route (leaves t N) key" and n0: "nodeL (pg t) c (E c) (nhPrev hdr) (nhNext hdr)"
    and es: "keysorted ents" "set ents \<subseteq> set (E c)" "leafPageBytes ents \<le> 16384" "ents \<noteq> []" "key \<notin> fst ` set ents" and kv: "leafOK (key, val)"
    and sp: "splittable t N (fst ` set al)"
  shows "wp (splitLeafAndInsert (routes N (root t) key (Suc (depth t))) hdr ents (key, val))
    (\<lambda>res t'. holds t' (insert (key, val) (set (contents E (leaves t N)) - (set (E c) - set ents))) \<and> res = Inr ()) t"
proof -
  let ?l = "leaves t N" and ?t0 = "clearHint t"
  note o = tree_okD [OF t]
  have t0: "tree_ok ?t0 N E" "leaves ?t0 N = ?l" "depth ?t0 = depth t"
    using tree_ok_clearHint [OF t] by (simp_all add: leaves_def depth_def)
  have al: "set al = insert (key, val) (set ents)" "keysorted al" "length al = Suc (length ents)"
    unfolding al_def using es(1,5) by (simp_all add: set_insort_key insort_keysorted)
  have sort: "sortLeaves (ents @ [(key, val)]) = al" unfolding al_def sortLeaves_def using sort_snoc [OF es(1,5)] .
  have cl: "c \<in> set (lids ?l)" unfolding c by (rule route_in [OF o(13)])
  have ok: "\<forall>e \<in> set al. leafOK e" using al(1) kv es(2) n0 by (auto simp: nodeL_def)
  have rt: "\<forall>e \<in> set al. route ?l (fst e) = c" using al(1) es(2) leaf_keys_route [OF t cl] c by auto
  have sz: "leafPageBytes al \<le> 16384 + 8152" using es(3) leafOK_cost [OF kv] by (simp add: al_def leafPageBytes_insort)
  have "2 \<le> length al" using al(3) es(4) by (cases ents) auto
  then obtain mid where mid: "splitLeafIndex al = Inr mid" "cut_ok al mid" by (rule full_leaf_splits [OF ok sz])
  have m: "1 \<le> mid" "mid < length al" "leafFits (take mid al)" "leafFits (drop mid al)" "\<not> length al < 2"
    using mid(2) al(3) by (auto simp: cut_ok_def)
  define sep where "sep = fst (al ! mid)"
  note pt = split_point [OF al(2) m(1,2) rt o(13,14), folded sep_def]
  have oks: "\<forall>e \<in> set (take mid al). leafOK e" "\<forall>e \<in> set (drop mid al). leafOK e" using ok by (meson in_set_takeD in_set_dropD)+
  then have fits: "leafPageBytes (take mid al) \<le> 16384" "leafPageBytes (drop mid al) \<le> 16384" using m(3,4) leafFits_iff by blast+
  have hd: "fst (drop mid al ! 0) = sep" using m(2) by (simp add: sep_def)
  have path: "routes N (root t) key (depth t) = routes N (root t) sep (depth t)" using route_up_leaf [OF t, of key sep] pt(1) c by simp
  have rc: "\<forall>e \<in> set (take mid al). route ?l (fst e) = c" "\<forall>e \<in> set (drop mid al). route ?l (fst e) = c" using rt by (meson in_set_takeD in_set_dropD)+
  have c0: "c \<noteq> 0" "c \<in> alive (eng t)" using cl o(5) by (auto simp: alive_def)
  obtain pc where pc: "pg t c = Inr pc" "pageID pc = Some c" using n0 by (auto simp: nodeL_def node_page_def)
  have le: "last (routes N (root t) key (Suc (depth t))) = c" "butlast (routes N (root t) key (Suc (depth t))) = routes N (root t) sep (depth t)"
    using leaf_route [of N t key] c path by simp_all
  let ?Q = "\<lambda>res t'. holds t' (insert (key, val) (set (contents E ?l) - (set (E c) - set ents))) \<and> res = Inr ()"
  have room: "room (Suc (Suc (depth t))) (eng ?t0)" using splittableD(1) [OF sp] by simp
  show ?thesis
    unfolding splitLeafAndInsert_def wp_pbind [of "pmodify clearHint"] wp_pmodify andThen_simps Let_def sort if_not_P [OF m(5)] mid(1) wp_pbind [of "pgo _"] wp_basic hd le
      wp_pbind [of "onEng (NewPage _)"]
  proof (rule wp_NewPage [OF _ room], goal_cases)
    case (4 t' q pn)
    note f = evolves_fields [OF 4(1)]
    have qc: "q \<noteq> c" using 4(5) c0(2) by auto
    obtain L where L: "rebuildLeaf c (emptyHdr\<lparr>nhPrev := nhPrev hdr, nhNext := q\<rparr>) (take mid al) = Some (Inr L)"
      "\<And>P. P c = Inr L \<Longrightarrow> nodeL P c (take mid al) (nhPrev hdr) q" "\<And>dst. pageID dst = Some c \<Longrightarrow> overwrite dst L = Some (L, Inr ())"
      by (rule rebuildL [OF oks(1) pt(5) fits(1) c0(1), of "emptyHdr\<lparr>nhPrev := nhPrev hdr, nhNext := q\<rparr>" "nhPrev hdr" q]) simp_all
    obtain R where R: "rebuildLeaf q (emptyHdr\<lparr>nhPrev := c, nhNext := nhNext hdr\<rparr>) (drop mid al) = Some (Inr R)"
      "\<And>P. P q = Inr R \<Longrightarrow> nodeL P q (drop mid al) c (nhNext hdr)" "\<And>dst. pageID dst = Some q \<Longrightarrow> overwrite dst R = Some (R, Inr ())"
      by (rule rebuildL [OF oks(2) pt(6) fits(2) 4(6), of "emptyHdr\<lparr>nhPrev := c, nhNext := nhNext hdr\<rparr>" c "nhNext hdr"]) simp_all
    let ?t4 = "setPage c L (touch c (setPage q R t'))"
    have ev4: "evolves ?t0 ?t4" using 4(7) c0(2) by (intro evolves_setPageI evolves_touchI 4(1)) simp
    obtain nn where nn: "nhNext hdr \<noteq> 0 \<longrightarrow> nodeL (pg t) (nhNext hdr) (E (nhNext hdr)) c nn \<and> nhNext hdr \<in> set (lids ?l) \<and> nhNext hdr \<noteq> c"
      using next_leaf [OF t n0 cl] by metis
    have nq: "nhNext hdr \<noteq> 0 \<longrightarrow> nhNext hdr \<noteq> q \<and> nhNext hdr \<in> alive (eng t)" using nn o(5) 4(5) by auto
    have n4: "nhNext hdr \<noteq> 0 \<longrightarrow> nodeL (pg ?t4) (nhNext hdr) (E (nhNext hdr)) c nn \<and> nhNext hdr \<in> alive (eng ?t4)"
      using nn nq 4(4,7) nodeL_cong [of "pg ?t4" "nhNext hdr" "pg t"] by auto
    have tail: "wp (pbind (if nhNext hdr \<noteq> 0 then setSiblingPrev (nhNext hdr) q else pret ()) (\<lambda>_. insertSeparator (routes N (root t) sep (depth t)) sep q)) ?Q ?t4"
    proof (rule wp_pbindI [OF relink_ok [OF n4 evolves_fields(7) [OF ev4], of q]], elim conjE, goal_cases)
      case (1 t5)
      have ev5: "evolves ?t0 t5" using evolves_trans [OF ev4 1(1)] .
      have P: "pg t5 x = (if x = c then Inr L else if x = q then Inr R else pg t x)" if "x \<noteq> nhNext hdr \<or> x = 0" for x
        using 1(4) that 4(4) by simp
      have nc: "c \<noteq> nhNext hdr \<or> c = 0" "q \<noteq> nhNext hdr \<or> q = 0" using nn nq c0(1) 4(6) by auto
      have hw: "halfway ?t0 N E c sep q (E(c := take mid al, q := drop mid al)) t5"
      proof (rule halfway_make [OF t0(1) ev5, where pvc = "nhPrev hdr" and nxc = "nhNext hdr"]; (unfold t0(2))?)
        show "nodeL (pg t5) c (take mid al) (nhPrev hdr) q" using L(2) [of "pg t5"] P [OF nc(1)] by simp
        show "nodeL (pg t5) q (drop mid al) c (nhNext hdr)" using R(2) [of "pg t5"] P [OF nc(2)] qc by simp
        show "nhNext hdr \<noteq> 0 \<longrightarrow> (\<exists>nn. nodeL (pg ?t0) (nhNext hdr) (E (nhNext hdr)) c nn \<and> nodeL (pg t5) (nhNext hdr) (E (nhNext hdr)) q nn)"
          using nn 1(5) by auto
      qed (use 4(5,7) 1(2) pt rc n0 P in auto)
      have "keyOK sep" using ok m(2) by (auto simp: sep_def leafOK_def)
      moreover have "cutsFit N (root t) (depth t) sep" by (rule splittableD(4) [OF sp]) (use m(2) in \<open>simp add: sep_def\<close>)
      moreover have "hintOK t5 (insL sep q ?l)" using evolves_fields(4) [OF ev5] by (simp add: hintOK_def)
      ultimately have "wp (insertSeparator (routes N (root t) sep (depth t)) sep q)
          (\<lambda>res t'. (keeps t5 t' \<and> (\<exists>N'. tree_ok t' N' (E(c := take mid al, q := drop mid al)) \<and> leaves t' N' = insL sep q ?l)) \<and> res = Inr ()) t5"
        using finish_split [OF t0(1) hw] 1(3) 4(2) splittableD(3) [OF sp] unfolding t0(2,3) by auto
      moreover have "set (contents (E(c := take mid al, q := drop mid al)) (insL sep q ?l)) = insert (key, val) (set (contents E ?l) - (set (E c) - set ents))"
        using contents_split [OF t0(1) hw _ es(2), of "(key, val)"] al(1) qc set_append [of "take mid al" "drop mid al"] unfolding t0(2) by simp
      ultimately show ?case by (elim wp_mono) (unfold holds_def, elim conjE exE, intro conjI exI, assumption, simp_all)
    qed
    show ?case using tail 4 L R pc qc c0(1) f(8) splittableD(2) [OF sp] pageNew_ID [OF 4(3)] by (simp add: wp_simps)
  qed (use o(8) in \<open>simp_all add: page_types\<close>)
qed

section \<open>The split on the right\<close>

text \<open>A new leaf with its header and one record.\<close>

lemma fresh_leaf:
  assumes "leafOK e" and "q \<noteq> 0" and "pageNew q PageTypeBTreeLeaf = Some pn"
  obtains p1 r i where "initNode pn hdr = Some (p1, Inr ())" "pageAppend p1 (leafBytes e) = Some (r, Inr i)"
    "\<And>P. P q = Inr r \<Longrightarrow> nodeL P q [e] (nhPrev hdr) (nhNext hdr)"
proof -
  obtain p1 where p1: "initNode pn hdr = Some (p1, Inr ())" "leaf_page p1 q hdr {#}" "scount p1 = 1"
    using initNode_new [OF page_types(2), of q hdr leafBytes] assms(3) by auto
  obtain pn: "page_inv pn" "scount pn = 0" "uppern pn = 16384" "page_map pn = Map.empty"
    using pageNew_spec [of q PageTypeBTreeLeaf] assms(3) by auto
  have fh: "first_hole pn = None" using pn(2) by (simp add: first_hole_def)
  have tg: "target pn = 0" using fh pn(2) by (simp add: target_def)
  have "pageInsert pn (hdrBytes hdr) = placeRecord pn 0 None (hdrBytes hdr)"
    using page_inv_length [OF pn(1)] page_inv_lower [OF pn(1)] pn fh
    by (simp add: pageInsert_def findHole_page [OF pn(1)] Let_def)
  moreover obtain r0 where "placeRecord pn 0 None (hdrBytes hdr) = Some (r0, Inr 0)" "PageInv.placed pn 0 (hdrBytes hdr) r0"
    using placeRecord_spec [OF pn(1), of "hdrBytes hdr"] pn fh tg by (auto simp: need_def)
  moreover have "pageInsert pn (hdrBytes hdr) = Some (p1, Inr 0)"
    using p1(1) SlotCount_inv [OF pn(1)] pn(2) calculation(1,2) by (simp add: initNode_def encodeHeader_eq)
  ultimately have up: "uppern p1 + 28 = 16384" using pn(3) by (simp add: PageInv.placed_def)
  have sz: "length (leafBytes e) \<le> 8148" "length (leafBytes e) \<le> 16332" using assms(1) by (auto simp: length_leafBytes leafRecordSize_def leafOK_def)
  obtain r i where r: "pageAppend p1 (leafBytes e) = Some (r, Inr i)" "leaf_page r q hdr (add_mset e {#})"
    using p1(2) sz(2)
  proof (cases rule: node_append)
    case 2
    then show ?thesis using pageAppend_spec [OF node_page_inv [OF p1(2)] sz(2)] p1(3) up sz(1) by auto
  qed blast
  show thesis by (rule that [OF p1(1) r(1)]) (use r(2) assms in \<open>auto simp: nodeL_def\<close>)
qed

lemma wp_ptryI:
  assumes "wp m (\<lambda>r s'. P s' \<and> r = x) s" and "\<And>s'. P s' \<Longrightarrow> wp (f x) R s'"
  shows "wp (ptry m f) R s"
  unfolding wp_ptry by (rule wp_mono [OF assms(1)]) (auto simp: eitherWay_def assms(2))

lemma tree_ok_hintParent:
  "tree_ok t N E \<Longrightarrow> tree_ok (t\<lparr>hintParent := x\<rparr>) N E" "leaves (t\<lparr>hintParent := x\<rparr>) N = leaves t N"
  using tree_ok_hints [of t N E "t\<lparr>hintParent := x\<rparr>"] tree_okD(12) by (auto simp: hintOK_def leaves_def depth_def)

text \<open>The halves do not depend on the hints nor on what the buffer pool holds.\<close>

lemma halfway_cong:
  assumes "halfway t N E c sep q E' t1" and "pg t2 = pg t1" "root t2 = root t1" "height t2 = height t1" "tmeta t2 = tmeta t1"
    "alive (eng t2) = alive (eng t1)" "eng_ok (eng t2)" "EngPrimaryTree (eng t2) = EngPrimaryTree (eng t1)"
  shows "halfway t N E c sep q E' t2"
proof -
  have "metaOK t2" using halfwayD(4) [OF assms(1)] assms(2-) by (simp add: metaOK_def meta_at_def)
  then show ?thesis using assms by (simp add: halfway_def)
qed

lemma attachSlow_ok:
  assumes t: "tree_ok t N E" and h: "halfway t N E c sep q E' t1" and r: "room (Suc (depth t)) (eng t1)" and k: "keyOK sep"
    and ht: "height t < 65535" and ev: "cutsFit N (root t) (depth t) sep"
    and hint: "hintOK t1 (insL sep q (leaves t N))" and mx: "route (leaves t N) leftMax = c"
  shows "wp (attachSlow leftMax sep q) (\<lambda>res t'. (\<exists>N'. tree_ok t' N' E' \<and> leaves t' N' = insL sep q (leaves t N)) \<and> res = Inr ()) t1"
proof -
  let ?Q = "\<lambda>res t'. (\<exists>N'. tree_ok t' N' E' \<and> leaves t' N' = insL sep q (leaves t N)) \<and> res = Inr ()"
  note o = tree_okD [OF t] and hh = halfwayD [OF h]
  have path: "routes N (root t) leftMax (depth t) = routes N (root t) sep (depth t)" using route_up_leaf [OF t] mx hh(10) by simp
  have rd: "root t1 = root t" "depth t1 = depth t" using hh(1,2) by (simp_all add: depth_def)
  have i: "inner (pg t1) N (root t1) (depth t1)" unfolding rd by (rule inner_cong [OF hh(9) o(2)])
  have al: "set (ids N (root t1) (depth t1)) \<subseteq> alive (eng t1)" unfolding rd using o(4) hh(6) by blast
  have hintParent: "?Q (Inr ()) (t'\<lparr>hintParent := x\<rparr>)" if "?Q (Inr ()) t'" for t' x
    using that tree_ok_hintParent(1) [of t' _ E' x] tree_ok_hintParent(2) [of x t'] by auto
  show ?thesis unfolding attachSlow_def
  proof (rule wp_pbindI [OF descend_ok [OF i al]], goal_cases)
    case (1 t2)
    note f = quiet_fields [OF 1]
    have h2: "halfway t N E c sep q E' t2"
      by (rule halfway_cong [OF h]) (use f quiet_eng_ok [OF 1] hh(5) in auto)
    have fin: "wp (insertSeparator (routes N (root t) sep (depth t)) sep q) ?Q t2"
      by (rule wp_mono [OF finish_split [OF t h2 _ k ht ev]]) (use r hint f in \<open>auto simp: hintOK_def\<close>)
    have pp: "(if 1 < length (routes N (root t1) leftMax (Suc (depth t1))) then butlast (routes N (root t1) leftMax (Suc (depth t1))) else []) = routes N (root t) sep (depth t)"
      using path unfolding rd by (simp add: routes_def)
    show ?case unfolding Let_def pp
    proof (rule wp_ptryI [OF fin], simp only: sum.case, goal_cases)
      case (1 t3)
      then obtain N' where N': "tree_ok t3 N' E'" "leaves t3 N' = insL sep q (leaves t N)" by blast
      show ?case
      proof (cases "routes N (root t) sep (depth t) = []")
        case True
        then show ?thesis using hintParent 1 by (simp add: wp_simps)
      next
        case False
        show ?thesis unfolding if_not_P [OF False]
        proof (rule wp_ptryI [OF tree_descend [OF N'(1)]], goal_cases)
          case (1 t4)
          have "leaves t4 N' = leaves t3 N'" using quiet_fields(2,3) [OF 1] by (simp add: leaves_def depth_def)
          then have "?Q (Inr ()) t4" using N' quiet_tree_ok [OF 1 N'(1)] by auto
          then show ?case using hintParent by (simp add: wp_simps)
        qed
      qed
    qed
  qed
qed

lemma splitLeafAppend_ok:
  assumes t: "tree_ok t N E" and hp: "hintParent t = 0" and c: "c = route (leaves t N) key"
    and n0: "nodeL (pg t) c (E c) (nhPrev hdr) (nhNext hdr)" and es: "\<forall>e \<in> set (E c). fst e < key"
    and mx: "route (leaves t N) leftMax = c" "leftMax < key" and kv: "leafOK (key, val)" and sp: "splittable t N {key}"
  shows "wp (splitLeafAppend c hdr leftMax key (leafBytes (key, val)))
    (\<lambda>res t'. holds t' (insert (key, val) (set (contents E (leaves t N)))) \<and> res = Inr ()) t"
proof -
  let ?l = "leaves t N" and ?t0 = "t\<lparr>hintRight := 0, hintMax := []\<rparr>"
  note o = tree_okD [OF t]
  have t0: "tree_ok ?t0 N E" "leaves ?t0 N = ?l" "depth ?t0 = depth t"
    using tree_ok_hints [OF t, of ?t0] by (auto simp add: leaves_def depth_def hintOK_def)
  have cl: "c \<in> set (lids ?l)" unfolding c by (rule route_in [OF o(13)])
  have c0: "c \<noteq> 0" "c \<in> alive (eng t)" using cl o(5) by (auto simp: alive_def)
  obtain pc hc where pc: "pg t c = Inr pc" "leaf_page pc c hc (mset (E c))" using n0 by (auto simp: nodeL_def)
  have room: "room (Suc (Suc (depth t))) (eng ?t0)" using splittableD(1) [OF sp] by simp
  have new: "key \<notin> fst ` set (snd ?l)" using sep_new [OF o(13,14), of leftMax key] mx c by simp
  let ?Q = "\<lambda>res t'. holds t' (insert (key, val) (set (contents E ?l))) \<and> res = Inr ()"
  show ?thesis
    unfolding splitLeafAppend_def wp_pbind [of "pmodify _"] wp_pmodify andThen_simps Let_def wp_pbind [of "onEng (NewPage _)"]
  proof (rule wp_NewPage [OF _ room], goal_cases)
    case (4 t' q pn)
    note f = evolves_fields [OF 4(1)]
    have qc: "q \<noteq> c" using 4(5) c0(2) by auto
    obtain p1 R i where R: "initNode pn (emptyHdr\<lparr>nhPrev := c, nhNext := nhNext hdr\<rparr>) = Some (p1, Inr ())"
      "pageAppend p1 (leafBytes (key, val)) = Some (R, Inr i)" "\<And>P. P q = Inr R \<Longrightarrow> nodeL P q [(key, val)] c (nhNext hdr)"
      by (rule fresh_leaf [OF kv 4(6,3), of "emptyHdr\<lparr>nhPrev := c, nhNext := nhNext hdr\<rparr>"]) simp
    obtain L where L: "writeHeader pc (hdr\<lparr>nhNext := q\<rparr>) = Some (L, Inr ())" "leaf_page L c (hdr\<lparr>nhNext := q\<rparr>) (mset (E c))"
      using node_writeHeader [OF pc(2)] by blast
    let ?t4 = "setPage c L (setPage q R (setPage q p1 t'))"
    have ev4: "evolves ?t0 ?t4" using 4(7) c0(2) by (intro evolves_setPageI 4(1))
    obtain nn where nn: "nhNext hdr \<noteq> 0 \<longrightarrow> nodeL (pg t) (nhNext hdr) (E (nhNext hdr)) c nn \<and> nhNext hdr \<in> set (lids ?l) \<and> nhNext hdr \<noteq> c"
      using next_leaf [OF t n0 cl] by metis
    have nq: "nhNext hdr \<noteq> 0 \<longrightarrow> nhNext hdr \<noteq> q \<and> nhNext hdr \<in> alive (eng t)" using nn o(5) 4(5) by auto
    have n4: "nhNext hdr \<noteq> 0 \<longrightarrow> nodeL (pg ?t4) (nhNext hdr) (E (nhNext hdr)) c nn \<and> nhNext hdr \<in> alive (eng ?t4)"
      using nn nq 4(4,7) nodeL_cong [of "pg ?t4" "nhNext hdr" "pg t"] by auto
    have tail: "wp (pbind (if nhNext hdr \<noteq> 0 then setSiblingPrev (nhNext hdr) q else pret ())
        (\<lambda>_. pbind (pmodify (noteRight q key)) (\<lambda>_. attachRight leftMax key q))) ?Q ?t4"
    proof (rule wp_pbindI [OF relink_ok [OF n4 evolves_fields(7) [OF ev4], of q]], elim conjE, goal_cases)
      case (1 t5)
      have ev5: "evolves ?t0 t5" using evolves_trans [OF ev4 1(1)] .
      have P: "pg t5 x = (if x = c then Inr L else if x = q then Inr R else pg t x)" if "x \<noteq> nhNext hdr \<or> x = 0" for x
        using 1(4) that 4(4) by simp
      have nc: "c \<noteq> nhNext hdr \<or> c = 0" "q \<noteq> nhNext hdr \<or> q = 0" using nn nq c0(1) 4(6) by auto
      have hw: "halfway ?t0 N E c key q (E(c := E c, q := [(key, val)])) t5"
      proof (rule halfway_make [OF t0(1) ev5, where pvc = "nhPrev hdr" and nxc = "nhNext hdr"]; (unfold t0(2))?)
        show "nodeL (pg t5) c (E c) (nhPrev hdr) q" using n0 L(2) P [OF nc(1)] by (auto simp: nodeL_def)
        show "nodeL (pg t5) q [(key, val)] c (nhNext hdr)" using R(3) [of "pg t5"] P [OF nc(2)] qc by simp
        show "nhNext hdr \<noteq> 0 \<longrightarrow> (\<exists>nn. nodeL (pg ?t0) (nhNext hdr) (E (nhNext hdr)) c nn \<and> nodeL (pg t5) (nhNext hdr) (E (nhNext hdr)) q nn)"
          using nn 1(5) by auto
      qed (use 4(5,7) 1(2) n0 P new c es leaf_keys_route [OF t cl] in auto)
      let ?t6 = "noteRight q key t5"
      have hw6: "halfway ?t0 N E c key q (E(c := E c, q := [(key, val)])) ?t6"
        by (rule halfway_cong [OF hw]) (use evolves_fields(7) [OF ev5] in auto)
      obtain xs ys where "lids (insL key q ?l) = xs @ c # q # ys" by (rule lids_insL [OF o(13) new c [symmetric]])
      then have q: "q \<in> set (lids (insL key q ?l))" "route (insL key q ?l) key = q"
        using route_insL [OF o(13) new c [symmetric] o(14), of q key] c by simp_all
      have "hintOK ?t6 (insL key q ?l)" by (rule hintOK_noteRight [OF _ q]) (use evolves_fields(4) [OF ev5] in \<open>simp add: hintOK_def\<close>)
      moreover have "room (Suc (depth t)) (eng ?t6)" using 1(3) 4(2) by simp
      moreover have "keyOK key" using kv by (simp add: leafOK_def)
      ultimately have "wp (attachSlow leftMax key q)
          (\<lambda>res t'. (\<exists>N'. tree_ok t' N' (E(c := E c, q := [(key, val)])) \<and> leaves t' N' = insL key q ?l) \<and> res = Inr ()) ?t6"
        using attachSlow_ok [OF t0(1) hw6, of leftMax] splittableD(3,4) [OF sp] mx(1) unfolding t0(2,3) by simp
      moreover have "set (contents (E(c := E c, q := [(key, val)])) (insL key q ?l)) = insert (key, val) (set (contents E ?l))"
        using contents_split [OF t0(1) hw, of "(key, val)" "set (E c)"] qc unfolding t0(2) by simp
      ultimately have "wp (attachSlow leftMax key q) ?Q ?t6"
        by (elim wp_mono) (unfold holds_def, elim conjE exE, intro conjI exI, assumption, simp_all)
      moreover have "hintParent ?t6 = 0" using evolves_fields(6) [OF ev5] hp by simp
      ultimately show ?case by (simp add: wp_simps attachRight_def)
    qed
    have "calm t'" using f(8) splittableD(2) [OF sp] by (simp add: calm_def)
    then show ?case using tail 4 L R pc qc c0(1) pageNew_ID [OF 4(3)] by (simp add: wp_simps)
  qed (use o(8) in \<open>simp_all add: page_types\<close>)
qed

section \<open>Inserting a record\<close>

abbreviation tooBig :: nerr where
  "tooBig \<equiv> New InvalidArgument ''btree.Insert'' ''record exceeds page capacity''"

abbreviation fullPage :: nerr where
  "fullPage \<equiv> New PageFull ''page.Insert'' ''page is full''"

text \<open>Whether the page of a leaf has room for one more record, after a compaction if need be.\<close>

definition leafTakes :: "Tree \<Rightarrow> PageID \<Rightarrow> bytes \<Rightarrow> bool" where
  "leafTakes t c rec \<longleftrightarrow> (case pg t c of Inl _ \<Rightarrow> False | Inr p \<Rightarrow> fits p rec)"

lemma leafTakes_cong: "pg t' c = pg t c \<Longrightarrow> leafTakes t' c rec = leafTakes t c rec"
  by (simp add: leafTakes_def)

text \<open>What an insertion achieves: the record is there; only where the leaf for the key holds no record, and its
  slot directory leaves no room for this one, it is refused and nothing changes.\<close>

definition insertion :: "bool \<Rightarrow> lnodes \<Rightarrow> level \<Rightarrow> leafEntry \<Rightarrow> unit res \<Rightarrow> Tree \<Rightarrow> bool" where
  "insertion takes E l e res t' \<longleftrightarrow> (if E (route l (fst e)) = [] \<and> \<not> takes
     then res = Inl tooBig \<and> holds t' (set (contents E l)) else res = Inr () \<and> holds t' (insert e (set (contents E l))))"

lemma leaf_not_in: "tree_ok t N E \<Longrightarrow> key \<notin> fst ` set (contents E (leaves t N)) \<Longrightarrow> key \<notin> fst ` set (E (route (leaves t N) key))"
  using tree_leaf [of t N E key] by (auto simp: contents_def)

lemma contents_upd:
  assumes "c \<in> set (lids l)"
  shows "set (contents (E(c := insort_key fst e (E c))) l) = insert e (set (contents E l))"
  using assms by (auto simp: contents_def set_insort_key)

lemma setPage_fields [simp]: "root (setPage c p t) = root t" "height (setPage c p t) = height t" "tmeta (setPage c p t) = tmeta t"
    "hintRight (setPage c p t) = hintRight t" "hintMax (setPage c p t) = hintMax t" "hintParent (setPage c p t) = hintParent t"
  by (simp_all add: setPage_def)

lemma leaf_insert_ok:
  fixes key val
  assumes t: "tree_ok t N E" and c: "c = route (leaves t N) key" and k: "key \<notin> fst ` set (contents E (leaves t N))" and kv: "leafOK (key, val)"
  obtains p p' sl where "pg t c = Inr p" "pageInsert p (leafBytes (key, val)) = Some (p', Inr sl)"
      "tree_ok (setPage c p' t) N (E(c := insort_key fst (key, val) (E c)))" "leafTakes t c (leafBytes (key, val))"
  | p p' where "pg t c = Inr p" "pageInsert p (leafBytes (key, val)) = Some (p', Inl fullPage)" "tree_ok (setPage c p' t) N E"
      "\<not> leafTakes t c (leafBytes (key, val))" "\<not> leafTakes (setPage c p' t) c (leafBytes (key, val))"
proof -
  obtain pv nx where n: "nodeL (pg t) c (E c) pv nx" "c \<in> set (lids (leaves t N))" unfolding c by (rule tree_leaf [OF t])
  obtain p hdr where p: "pg t c = Inr p" "leaf_page p c hdr (mset (E c))" "nhPrev hdr = pv" "nhNext hdr = nx"
    by (rule nodeL_reads [OF n(1)])
  have sz: "length (leafBytes (key, val)) \<le> 16332" using kv by (auto simp: length_leafBytes leafRecordSize_def leafOK_def)
  have new: "key \<notin> fst ` set (E c)" using leaf_not_in [OF t k] c by simp
  have es: "keysorted (E c)" "\<forall>e \<in> set (E c). leafOK e" "c \<noteq> 0" using n(1) by (auto simp: nodeL_def)
  have up: "tree_ok (setPage c p' t) N (E(c := es'))"
    if "leaf_page p' c hdr (mset es')" "keysorted es'" "\<forall>e \<in> set es'. leafOK e" "\<forall>e \<in> set es'. route (leaves t N) (fst e) = c" for p' es'
  proof (rule tree_ok_update [OF t n(2)])
    have "nodeL (pg (setPage c p' t)) c es' pv nx" using that(1-3) p(3,4) es(3) by (auto simp: nodeL_def)
    then show "\<forall>pv nx. nodeL (pg t) c (E c) pv nx \<longrightarrow> nodeL (pg (setPage c p' t)) c es' pv nx" using nodeL_hdr [OF n(1)] by blast
  qed (use tree_okD(8) [OF t] that(4) evolves_setPageI evolves_refl in auto)
  from p(2) sz show thesis
  proof (cases rule: node_insert)
    case (1 r)
    then show thesis
      by (intro that(1) [OF p(1) 1(1)] up)
        (use es new kv c leaf_keys_route [OF t n(2)] p(1) in \<open>auto simp: set_insort_key insort_keysorted leafTakes_def\<close>)
  next
    case (2 r)
    have "same_contents r p" using pageInsert_spec [OF node_page_inv [OF p(2)] sz] 2(1,2) by auto
    then have sc: "scount r = scount p" "cum r (scount p) = live_bytes p" "first_hole r = first_hole p" unfolding same_contents_def by auto
    have "\<not> fits r (leafBytes (key, val))" using 2(2) unfolding fits_def need_def target_def sc .
    then show thesis using that(2) [OF p(1) 2(1)] up [of r "E c"] 2(2,3) p(1) es leaf_keys_route [OF t n(2)] by (auto simp: leafTakes_def)
  qed
qed

lemma splittable_mono: "splittable t N K \<Longrightarrow> K' \<subseteq> K \<Longrightarrow> splittable t N K'"
  by (auto simp: splittable_def)

lemma splittable_cong:
  "splittable t N K \<Longrightarrow> room (Suc (Suc (depth t))) (eng t') = room (Suc (Suc (depth t))) (eng t) \<Longrightarrow> calm t' = calm t \<Longrightarrow>
    height t' = height t \<Longrightarrow> root t' = root t \<Longrightarrow> splittable t' N K"
  by (simp add: splittable_def spacious_def depth_def)

definition fullLeaf :: "PageID list \<Rightarrow> PageID \<Rightarrow> bytes \<Rightarrow> bytes \<Rightarrow> (Tree, unit) proc" where
  "fullLeaf path c key val = pbind (pageRead c readHeader) (\<lambda>hdr.
     appendSplit c hdr key (leafBytes (key, val))
       (pbind (pageRead c collectLeaves) (\<lambda>ents.
        if length ents = 0 then pfail tooBig else splitLeafAndInsert path hdr ents (key, val))))"

lemma fullLeaf_ok:
  fixes key val
  assumes t: "tree_ok t N E" and hints: "hintRight t = 0" "hintParent t = 0" and c: "c = route (leaves t N) key"
    and k: "key \<notin> fst ` set (contents E (leaves t N))" and kv: "leafOK (key, val)"
    and sp: "splittable t N (insert key (fst ` set (E c)))"
  shows "wp (fullLeaf (routes N (root t) key (Suc (depth t))) c key val) (insertion False E (leaves t N) (key, val)) t"
proof -
  obtain pv nx where n: "nodeL (pg t) c (E c) pv nx" "c \<in> set (lids (leaves t N))" unfolding c by (rule tree_leaf [OF t])
  obtain p hdr where p: "pg t c = Inr p" "nhPrev hdr = pv" "nhNext hdr = nx" "c \<noteq> 0" "readHeader p = Some (Inr hdr)"
    "collectLeaves p = Some (Inr (E c))" "maxLeafKey p = Some (Inr (if E c = [] then None else Some (fst (last (E c)))))"
    by (rule nodeL_reads [OF n(1)])
  have n0: "nodeL (pg t) c (E c) (nhPrev hdr) (nhNext hdr)" using n(1) p(2,3) by simp
  have ks: "keysorted (E c)" "key \<notin> fst ` set (E c)"
    using leaf_sorted [OF t n(2)] leaf_not_in [OF t k] c by auto
  show ?thesis
  proof (cases "E c = []")
    case True
    moreover have "holds t (set (contents E (leaves t N)))" using t by (auto simp: holds_def)
    ultimately show ?thesis using p hints c by (simp add: fullLeaf_def appendSplit_def wp_simps insertion_def)
  next
    case False
    let ?m = "fst (last (E c))"
    have me: "last (E c) \<in> set (E c)" using False by simp
    have mr: "route (leaves t N) ?m = c" by (rule leaf_keys_route [OF t n(2) me])
    show ?thesis
    proof (cases "?m < key")
      case lt: True
      have "e = last (E c) \<or> fst e < ?m" if "e \<in> set (E c)" for e
        using that ks(1) False by (cases "E c" rule: rev_cases) (auto simp: keysorted_append)
      then have "\<forall>e \<in> set (E c). fst e < key" using lt order.strict_trans by blast
      from splitLeafAppend_ok [OF t hints(2) c n0 this mr lt kv splittable_mono [OF sp]]
      have "wp (splitLeafAppend c hdr ?m key (leafBytes (key, val))) (insertion False E (leaves t N) (key, val)) t"
        by (rule wp_mono) (use False c in \<open>auto simp: insertion_def\<close>)
      then show ?thesis using p hints lt False by (simp add: fullLeaf_def appendSplit_def wp_simps)
    next
      case ge: False
      have sz: "leafPageBytes (E c) \<le> 16384" using nodeL_bytes [OF n(1)] .
      have "splittable t N (fst ` set (insort_key fst (key, val) (E c)))" using sp by (simp add: set_insort_key)
      from splitLeafAndInsert_ok [OF t c n0 ks(1) _ sz False ks(2) kv this]
      have "wp (splitLeafAndInsert (routes N (root t) key (Suc (depth t))) hdr (E c) (key, val)) (insertion False E (leaves t N) (key, val)) t"
        by (rule wp_mono) (use False c in \<open>auto simp: insertion_def\<close>)
      then show ?thesis using p hints ge False by (simp add: fullLeaf_def appendSplit_def wp_simps)
    qed
  qed
qed

lemma leafPut_ok:
  fixes key val
  assumes t: "tree_ok t N E" and c: "c = route (leaves t N) key" and k: "key \<notin> fst ` set (contents E (leaves t N))" and kv: "leafOK (key, val)"
    and full: "\<And>p'. tree_ok (setPage c p' t) N E \<Longrightarrow> \<not> leafTakes (setPage c p' t) c (leafBytes (key, val)) \<Longrightarrow>
      wp full (insertion False E (leaves t N) (key, val)) (setPage c p' t)"
  shows "wp (ptry (pageDo c (\<lambda>p. pageInsert p (leafBytes (key, val)))) (\<lambda>r. case r of
      Inl err \<Rightarrow> if \<not> HasCode err PageFull then pfail err else full | Inr _ \<Rightarrow> pmodify (noteRight c key)))
    (insertion (leafTakes t c (leafBytes (key, val))) E (leaves t N) (key, val)) t"
  using t c k kv
proof (cases rule: leaf_insert_ok)
  case (1 p p' sl)
  let ?t = "noteRight c key (setPage c p' t)" and ?E = "E(c := insort_key fst (key, val) (E c))"
  have cl: "c \<in> set (lids (leaves t N))" unfolding c by (rule route_in [OF tree_okD(13) [OF t]])
  have l: "leaves (setPage c p' t) N = leaves t N" "leaves ?t N = leaves t N" by (simp_all add: leaves_def depth_def)
  have "tree_ok ?t N ?E" by (rule tree_ok_noteRight [OF 1(3), unfolded l, OF cl c [symmetric]])
  moreover have "set (contents ?E (leaves ?t N)) = insert (key, val) (set (contents E (leaves t N)))" unfolding l by (rule contents_upd [OF cl])
  ultimately have "insertion True E (leaves t N) (key, val) (Inr ()) ?t" unfolding insertion_def holds_def by auto
  then show ?thesis using 1 by (simp add: wp_simps)
next
  case (2 p p')
  have "HasCode fullPage PageFull" by (simp add: HasCode_def)
  then show ?thesis using 2 full [OF 2(3,5)] by (simp add: wp_simps)
qed

lemma insertAt_ok:
  fixes key val
  assumes t: "tree_ok t N E" and hints: "hintRight t = 0" "hintParent t = 0" and kv: "leafOK (key, val)"
    and k: "key \<notin> fst ` set (contents E (leaves t N))" and sp: "splittable t N (insert key (fst ` set (E (route (leaves t N) key))))"
  shows "wp (insertAt key val dup) (insertion (leafTakes t (route (leaves t N) key) (leafBytes (key, val))) E (leaves t N) (key, val)) t"
  unfolding insertAt_def
proof (rule wp_pbindI [OF tree_descend [OF t, of key]], goal_cases)
  case (1 t1)
  note t1 = quiet_tree_ok [OF 1 t] and f = quiet_fields [OF 1]
  have l: "leaves t1 N = leaves t N" "depth t1 = depth t" using f(2,3) by (simp_all add: leaves_def depth_def)
  let ?c = "route (leaves t N) key" and ?path = "routes N (root t) key (Suc (depth t))"
  obtain p hdr fd where p: "pg t1 ?c = Inr p" "?c \<noteq> 0" "?c \<in> alive (eng t1)" "expectType p PageTypeBTreeLeaf = Some (Inr ())"
    "findLeafSlot p key = Some (Inr fd)" "map_option snd fd = map_of (contents E (leaves t N)) key"
    using leaf_lookup [OF t1, of ?c key] unfolding l by metis
  have fd: "fd = None" using p(6) k by (metis map_of_eq_None_iff map_option_is_None)
  have enc: "encodeLeaf key val = Some (Inr (leafBytes (key, val)))" using encodeLeaf_ok [OF kv] by simp
  let ?t2 = "touch ?c t1"
  have q2: "quiet t ?t2" using quiet_trans [OF 1 quiet_touch [OF p(3)]] .
  note t2 = quiet_tree_ok [OF q2 t] and f2 = quiet_fields [OF q2]
  have l2: "leaves ?t2 N = leaves t N" "depth ?t2 = depth t" using f2(2,3) by (simp_all add: leaves_def depth_def)
  have le: "last ?path = ?c" using leaf_route [of N t key] by simp
  have rest: "wp (ptry (pageDo ?c (\<lambda>p. pageInsert p (leafBytes (key, val)))) (\<lambda>r. case r of
           Inr _ \<Rightarrow> pmodify (noteRight ?c key)
         | Inl err \<Rightarrow> if \<not> HasCode err PageFull then pfail err else fullLeaf ?path ?c key val)) (insertion (leafTakes t ?c (leafBytes (key, val))) E (leaves t N) (key, val)) ?t2"
    unfolding leafTakes_cong [OF f2(1) [THEN fun_cong], symmetric]
  proof (rule leafPut_ok [OF t2, unfolded l2, OF refl k kv])
    fix p'
    let ?t3 = "setPage ?c p' ?t2"
    assume t3: "tree_ok ?t3 N E"
    have l3: "leaves ?t3 N = leaves t N" "depth ?t3 = depth t" "root ?t3 = root t" using f2(2,3) by (simp_all add: leaves_def depth_def)
    have "splittable ?t3 N (insert key (fst ` set (E ?c)))" by (rule splittable_cong [OF sp]) (use f2 in simp_all)
    then show "wp (fullLeaf ?path ?c key val) (insertion False E (leaves t N) (key, val)) ?t3"
      using fullLeaf_ok [OF t3, of ?c key val] k kv hints f2(5,7) unfolding l3 by simp
  qed
  from this [unfolded fullLeaf_def] show ?case using p f fd unfolding Let_def le by (cases dup) (simp_all add: wp_simps enc)
qed

lemma insertAt_dup:
  assumes t: "tree_ok t N E" and k: "map_of (contents E (leaves t N)) key = Some v"
  shows "wp (insertAt key val True) (\<lambda>res t'. quiet t t' \<and> res = Inl (New AlreadyExists ''btree.Insert'' ''duplicate key'')) t"
  unfolding insertAt_def
proof (rule wp_pbindI [OF tree_descend [OF t, of key]], goal_cases)
  case (1 t1)
  note t1 = quiet_tree_ok [OF 1 t] and f = quiet_fields [OF 1]
  have l: "leaves t1 N = leaves t N" using f(2,3) by (simp add: leaves_def depth_def)
  let ?c = "route (leaves t N) key"
  obtain p hdr fd where p: "pg t1 ?c = Inr p" "?c \<noteq> 0" "?c \<in> alive (eng t1)" "expectType p PageTypeBTreeLeaf = Some (Inr ())"
    "findLeafSlot p key = Some (Inr fd)" "map_option snd fd = map_of (contents E (leaves t N)) key"
    using leaf_lookup [OF t1, of ?c key] unfolding l by metis
  have "fd \<noteq> None" using p(6) k by auto
  moreover have "quiet t (touch ?c t1)" using quiet_trans [OF 1 quiet_touch [OF p(3)]] .
  moreover have le: "last (routes N (root t) key (Suc (depth t))) = ?c" using leaf_route [of N t key] by simp
  ultimately show ?case using p unfolding Let_def le by (simp add: wp_simps)
qed

lemma insertOnLeaf_ok:
  fixes key val
  assumes t: "tree_ok t N E" and kv: "leafOK (key, val)" and k: "key \<notin> fst ` set (contents E (leaves t N))"
    and sp: "splittable t N (insert key (fst ` set (E (route (leaves t N) key))))"
  shows "wp (insertOnLeaf (route (leaves t N) key) key val)
    (insertion (leafTakes t (route (leaves t N) key) (leafBytes (key, val))) E (leaves t N) (key, val)) t"
proof -
  let ?c = "route (leaves t N) key"
  obtain p where p: "pg t ?c = Inr p" "?c \<noteq> 0" "?c \<in> alive (eng t)" "expectType p PageTypeBTreeLeaf = Some (Inr ())"
    using leaf_lookup [OF t, of ?c key] by metis
  let ?t1 = "touch ?c t"
  have q: "quiet t ?t1" by (rule quiet_touch [OF p(3)])
  note t1 = quiet_tree_ok [OF q t] and f = quiet_fields [OF q]
  have l1: "leaves ?t1 N = leaves t N" using f(2,3) by (simp add: leaves_def depth_def)
  have "wp (ptry (pageDo ?c (\<lambda>p. pageInsert p (leafBytes (key, val)))) (\<lambda>r. case r of
      Inl err \<Rightarrow> if \<not> HasCode err PageFull then pfail err else pbind (pmodify clearHint) (\<lambda>_. insertAt key val False)
    | Inr _ \<Rightarrow> pmodify (noteRight ?c key))) (insertion (leafTakes t ?c (leafBytes (key, val))) E (leaves t N) (key, val)) ?t1"
    unfolding leafTakes_cong [OF f(1) [THEN fun_cong], symmetric]
  proof (rule leafPut_ok [OF t1, unfolded l1, OF refl k kv])
    fix p'
    let ?t2 = "clearHint (setPage ?c p' ?t1)"
    assume a: "tree_ok (setPage ?c p' ?t1) N E" "\<not> leafTakes (setPage ?c p' ?t1) ?c (leafBytes (key, val))"
    from a(1) have t2: "tree_ok ?t2 N E" by (rule tree_ok_clearHint)
    have l2: "leaves ?t2 N = leaves t N" using f(2,3) by (simp add: leaves_def depth_def)
    have "\<not> leafTakes ?t2 ?c (leafBytes (key, val))" using a(2) leafTakes_cong [of ?t2 ?c "setPage ?c p' ?t1"] by simp
    moreover have "splittable ?t2 N (insert key (fst ` set (E ?c)))"
      by (rule splittable_cong [OF sp]) (use f in \<open>simp_all add: calm_def\<close>)
    ultimately show "wp (pbind (pmodify clearHint) (\<lambda>_. insertAt key val False)) (insertion False E (leaves t N) (key, val)) (setPage ?c p' ?t1)"
      using insertAt_ok [OF t2 _ _ kv, of False] k unfolding l2 by (simp add: wp_simps)
  qed
  then show ?thesis using p encodeLeaf_ok [OF kv] by (simp add: insertOnLeaf_def wp_simps)
qed

end
