(* ===== verification/BTreeUpdate.thy ===== *)
theory BTreeUpdate
  imports BTreeInsert
begin

text \<open>Replacing the value of a key (\<open>updateLocked\<close> of \<open>src/internal/storage/btree/update.go\<close>): in place
  when the leaf has room, through the general split when it has not.\<close>

lemma split_at_key:
  assumes "keysorted es" and "(key, old) \<in> set es"
  obtains xs ys where "es = xs @ (key, old) # ys" "length (takeWhile (\<lambda>e. fst e < key) es) = length xs" "keysorted (xs @ ys)"
    "key \<notin> fst ` set (xs @ ys)"
proof -
  obtain xs ys where es: "es = xs @ (key, old) # ys" using assms(2) by (meson split_list)
  then have s: "\<forall>x \<in> set xs. fst x < key" "\<forall>y \<in> set ys. key < fst y" "keysorted xs" "keysorted ys" "\<forall>x \<in> set xs. \<forall>y \<in> set ys. fst x < fst y"
    using assms(1) by (auto simp: keysorted_append)
  have "takeWhile (\<lambda>e. fst e < key) es = xs" using s(1) unfolding es by (subst takeWhile_append2) auto
  moreover have "keysorted (xs @ ys)" using s by (auto simp: keysorted_append)
  moreover have "key \<notin> fst ` set (xs @ ys)" using s(1,2) by auto
  ultimately show thesis using that es by simp
qed

abbreviation oneRecord :: nerr where
  "oneRecord \<equiv> New InvalidArgument ''btree.splitLeaf'' ''cannot split a single record''"

text \<open>Whether the page of a leaf has room for a record in the place of another, after a compaction if need be.\<close>

definition leafRetakes :: "Tree \<Rightarrow> PageID \<Rightarrow> bytes \<Rightarrow> bytes \<Rightarrow> bool" where
  "leafRetakes t c old rec \<longleftrightarrow> (case pg t c of Inl _ \<Rightarrow> False
     | Inr p \<Rightarrow> 48 + 4 * scount p + (live_bytes p - length old) + length rec \<le> 16384)"

text \<open>What an update achieves: the value is replaced; only where the record is alone on its leaf, and the slot
  directory leaves no room for the new one, it is refused and nothing changes.\<close>

definition replacement :: "bool \<Rightarrow> lnodes \<Rightarrow> level \<Rightarrow> leafEntry \<Rightarrow> bytes \<Rightarrow> unit res \<Rightarrow> Tree \<Rightarrow> bool" where
  "replacement takes E l e old res t' \<longleftrightarrow> (if E (route l (fst e)) = [(fst e, old)] \<and> \<not> takes
     then res = Inl oneRecord \<and> holds t' (set (contents E l))
     else res = Inr () \<and> holds t' (insert e (set (contents E l) - {(fst e, old)})))"

lemma contents_replace:
  assumes t: "tree_ok t N E" and c: "c \<in> set (lids (leaves t N))" and o: "e \<in> set (E c)"
    and es: "set es = insert e' (set (E c) - {e})"
  shows "set (contents (E(c := es)) (leaves t N)) = insert e' (set (contents E (leaves t N)) - {e})"
proof -
  have "e \<notin> set (E x)" if "x \<in> set (lids (leaves t N))" "x \<noteq> c" for x
    using leaf_keys_route [OF t that(1), of e] leaf_keys_route [OF t c o] that(2) by auto
  then show ?thesis using c es by (auto simp: contents_def)
qed

lemma updateLocked_missing:
  assumes t: "tree_ok t N E" and k: "map_of (contents E (leaves t N)) key = None"
  shows "wp (updateLocked key val) (\<lambda>res t'. quiet t t' \<and> res = Inl (New NotFound ''btree.Update'' ''key not found'')) t"
  unfolding updateLocked_def
proof (rule wp_pbindI [OF tree_descend [OF t, of key]], goal_cases)
  case (1 t1)
  note t1 = quiet_tree_ok [OF 1 t] and f = quiet_fields [OF 1]
  have l: "leaves t1 N = leaves t N" using f(2,3) by (simp add: leaves_def depth_def)
  let ?c = "route (leaves t N) key"
  obtain p hdr fd where p: "pg t1 ?c = Inr p" "?c \<noteq> 0" "?c \<in> alive (eng t1)" "expectType p PageTypeBTreeLeaf = Some (Inr ())"
    "findLeafSlot p key = Some (Inr fd)" "map_option snd fd = map_of (contents E (leaves t N)) key"
    using leaf_lookup [OF t1, of ?c key] unfolding l by metis
  have "fd = None" using p(6) k by auto
  moreover have "quiet t (touch ?c t1)" using quiet_trans [OF 1 quiet_touch [OF p(3)]] .
  moreover have le: "last (routes N (root t) key (Suc (depth t))) = ?c" using leaf_route [of N t key] by simp
  ultimately show ?case using p unfolding Let_def le by (simp add: wp_simps)
qed

definition fullUpdate :: "PageID list \<Rightarrow> PageID \<Rightarrow> bytes \<Rightarrow> bytes \<Rightarrow> (Tree, unit) proc" where
  "fullUpdate path c key val = pbind (pageRead c readHeader) (\<lambda>hdr.
     pbind (pageRead c collectLeaves) (\<lambda>ents.
     case findLeaf ents key of (i, ok) \<Rightarrow>
     if \<not> ok then pfail (New NotFound ''btree.Update'' ''key not found'')
     else splitLeafAndInsert path hdr (take i ents @ drop (i + 1) ents) (key, val)))"

lemma leafPageBytes_remove: "leafPageBytes (xs @ ys) \<le> leafPageBytes (xs @ e # ys)"
  unfolding leafPageBytes_cost by simp

lemma fullUpdate_ok:
  fixes key val
  assumes t: "tree_ok t N E" and c: "c = route (leaves t N) key" and k: "(key, old) \<in> set (E c)" and kv: "leafOK (key, val)"
    and sp: "splittable t N (fst ` set (E c))"
  shows "wp (fullUpdate (routes N (root t) key (Suc (depth t))) c key val) (replacement False E (leaves t N) (key, val) old) t"
proof -
  obtain pv nx where n: "nodeL (pg t) c (E c) pv nx" "c \<in> set (lids (leaves t N))" unfolding c by (rule tree_leaf [OF t])
  obtain p hdr where p: "pg t c = Inr p" "nhPrev hdr = pv" "nhNext hdr = nx" "c \<noteq> 0" "readHeader p = Some (Inr hdr)"
    "collectLeaves p = Some (Inr (E c))" by (rule nodeL_reads [OF n(1)])
  have n0: "nodeL (pg t) c (E c) (nhPrev hdr) (nhNext hdr)" using n(1) p(2,3) by simp
  have ks: "keysorted (E c)" using leaf_sorted [OF t n(2)] .
  obtain xs ys where xy: "E c = xs @ (key, old) # ys" "length (takeWhile (\<lambda>e. fst e < key) (E c)) = length xs" "keysorted (xs @ ys)"
    "key \<notin> fst ` set (xs @ ys)" by (rule split_at_key [OF ks k])
  have "findLeaf (E c) key = (length xs, True)" using findLeaf_spec [OF ks, of key] xy(1,2) by auto
  then have run: "wp (fullUpdate path c key val) Q t = wp (splitLeafAndInsert path hdr (xs @ ys) (key, val)) Q t" for path Q
    using p xy(1) by (simp add: fullUpdate_def wp_simps)
  show ?thesis
  proof (cases "xs @ ys = []")
    case True
    have "holds (clearHint t) (set (contents E (leaves t N)))" using tree_ok_clearHint [OF t] by (auto simp: holds_def leaves_def depth_def)
    then show ?thesis using True xy(1) c unfolding run
      by (simp add: splitLeafAndInsert_def wp_simps sortLeaves_def insertionSort_def replacement_def)
  next
    case False
    have sz: "leafPageBytes (xs @ ys) \<le> 16384" using nodeL_bytes [OF n(1)] leafPageBytes_remove [of xs ys "(key, old)"] xy(1) by simp
    have "splittable t N (fst ` set (insort_key fst (key, val) (xs @ ys)))"
      by (rule splittable_mono [OF sp]) (use xy(1) in \<open>auto simp: set_insort_key\<close>)
    from splitLeafAndInsert_ok [OF t c n0 xy(3) _ sz False xy(4) kv this]
    have "wp (splitLeafAndInsert (routes N (root t) key (Suc (depth t))) hdr (xs @ ys) (key, val))
        (\<lambda>res t'. holds t' (insert (key, val) (set (contents E (leaves t N)) - (set (E c) - set (xs @ ys)))) \<and> res = Inr ()) t"
      using xy(1) by auto
    moreover have "(key, old) \<notin> set (xs @ ys)" using xy(4) by force
    then have "set (E c) - set (xs @ ys) = {(key, old)}" using xy(1) by auto
    moreover have "E c \<noteq> [(key, old)]" using False xy(1) by (cases xs) auto
    ultimately show ?thesis unfolding run by (elim wp_mono) (simp add: replacement_def c [symmetric])
  qed
qed

lemma updateLocked_ok:
  fixes key val
  assumes t: "tree_ok t N E" and k: "map_of (contents E (leaves t N)) key = Some old" and kv: "leafOK (key, val)"
    and sp: "splittable t N (fst ` set (E (route (leaves t N) key)))"
  shows "wp (updateLocked key val) (replacement (leafRetakes t (route (leaves t N) key) (leafBytes (key, old)) (leafBytes (key, val)))
    E (leaves t N) (key, val) old) t"
  unfolding updateLocked_def
proof (rule wp_pbindI [OF tree_descend [OF t, of key]], goal_cases)
  case (1 t1)
  let ?c = "route (leaves t N) key" and ?path = "routes N (root t) key (Suc (depth t))" 
  let ?tk = "leafRetakes t ?c (leafBytes (key, old)) (leafBytes (key, val))"
  let ?Q = "replacement ?tk E (leaves t N) (key, val) old"
  have cl: "?c \<in> set (lids (leaves t N))" by (rule route_in [OF tree_okD(13) [OF t]])
  let ?t2 = "touch ?c t1"
  have ca: "?c \<in> alive (eng t1)" using tree_okD(5) [OF t] cl quiet_fields(8) [OF 1] by blast
  have q2: "quiet t ?t2" using quiet_trans [OF 1 quiet_touch [OF ca]] .
  note t2 = quiet_tree_ok [OF q2 t] and f2 = quiet_fields [OF q2]
  have l2: "leaves ?t2 N = leaves t N" "depth ?t2 = depth t" using f2(2,3) by (simp_all add: leaves_def depth_def)
  obtain pv nx where n: "nodeL (pg ?t2) ?c (E ?c) pv nx" using tree_leaf [OF t2, of key] unfolding l2 by blast
  obtain p hdr where p: "pg ?t2 ?c = Inr p" "leaf_page p ?c hdr (mset (E ?c))" "nhPrev hdr = pv" "nhNext hdr = nx" "?c \<noteq> 0"
    "expectType p PageTypeBTreeLeaf = Some (Inr ())" by (rule nodeL_reads [OF n])
  have old: "map_of (E ?c) key = Some old" using k tree_lookup [OF t, of key] by simp
  then have mem: "(key, old) \<in> set (E ?c)" by (rule map_of_SomeD)
  then have mem': "(key, old) \<in># mset (E ?c)" by simp
  obtain fd where "findLeafSlot p key = Some (Inr fd)" "map_option snd fd = map_of (E ?c) key"
    "\<And>s v. fd = Some (s, v) \<Longrightarrow> 1 \<le> unat s \<and> page_map p (unat s) = Some (leafBytes (key, v))" by (rule findLeafSlot_lookup [OF n p(1), of key], rule that) blast+
  then obtain sl where sl: "findLeafSlot p key = Some (Inr (Some (sl, old)))" "1 \<le> unat sl" "page_map p (unat sl) = Some (leafBytes (key, old))"
    using old by auto
  have le: "last ?path = ?c" using leaf_route [of N t key] by simp
  have enc: "encodeLeaf key val = Some (Inr (leafBytes (key, val)))" using encodeLeaf_ok [OF kv] by simp
  have rest: "wp (ptry (pageDo ?c (\<lambda>p. pageUpdate p sl (leafBytes (key, val)))) (\<lambda>r. case r of
      Inr _ \<Rightarrow> pret () | Inl err \<Rightarrow> if \<not> HasCode err PageFull then pfail err else fullUpdate ?path ?c key val)) ?Q ?t2"
    using p(2) sl(3,2) mem'
  proof (cases rule: node_update [where e' = "(key, val)"])
    case (1 r)
    obtain xs ys where xy: "E ?c = xs @ (key, old) # ys" "key \<notin> fst ` set (xs @ ys)" by (rule split_at_key [OF leaf_sorted [OF t cl] mem])
    let ?es = "xs @ (key, val) # ys" and ?t3 = "setPage ?c r ?t2"
    have ks: "keysorted ?es" using leaf_sorted [OF t cl] xy(1) by (auto simp: keysorted_append)
    have nd: "nodeL (pg ?t3) ?c ?es pv nx" using n kv 1(2) p(3-5) ks xy(1) by (auto simp: nodeL_def)
    have "tree_ok ?t3 N (E(?c := ?es))"
    proof (rule tree_ok_update [OF t2, unfolded l2, OF cl])
      show "\<forall>pv nx. nodeL (pg ?t2) ?c (E ?c) pv nx \<longrightarrow> nodeL (pg ?t3) ?c ?es pv nx" using nd nodeL_hdr [OF n] by blast
    qed (use tree_okD(8) [OF t2] evolves_setPageI evolves_refl leaf_keys_route [OF t cl] xy(1) in auto)
    moreover have "(key, old) \<notin> set (xs @ ys)" using xy(2) by force
    then have "set ?es = insert (key, val) (set (E ?c) - {(key, old)})" using xy(1) by auto
    from contents_replace [OF t cl mem this]
    have "set (contents (E(?c := ?es)) (leaves ?t3 N)) = insert (key, val) (set (contents E (leaves t N)) - {(key, old)})"
      using f2(2,3) by (simp add: leaves_def depth_def)
    ultimately have "replacement True E (leaves t N) (key, val) old (Inr ()) ?t3" unfolding replacement_def holds_def by auto
    moreover have ?tk using 1(3) p(1) f2(1) by (simp add: leafRetakes_def)
    ultimately have "?Q (Inr ()) ?t3" by simp
    then show ?thesis using 1 p(1) by (simp add: wp_simps)
  next
    case 2
    let ?t3 = "setPage ?c p ?t2"
    have eq: "E(?c := E ?c) = E" by simp
    have "tree_ok ?t3 N (E(?c := E ?c))"
    proof (rule tree_ok_update [OF t2, unfolded l2, OF cl])
      show "\<forall>pv nx. nodeL (pg ?t2) ?c (E ?c) pv nx \<longrightarrow> nodeL (pg ?t3) ?c (E ?c) pv nx" using p(1) by (auto simp: nodeL_def)
    qed (use tree_okD(8) [OF t2] evolves_setPageI evolves_refl leaf_keys_route [OF t cl] in auto)
    then have t3: "tree_ok ?t3 N E" unfolding eq .
    have l3: "leaves ?t3 N = leaves t N" "depth ?t3 = depth t" "root ?t3 = root t" using f2(2,3) by (simp_all add: leaves_def depth_def)
    have "splittable ?t3 N (fst ` set (E ?c))" by (rule splittable_cong [OF sp]) (use f2 in simp_all)
    moreover have "\<not> ?tk" using 2(2) p(1) f2(1) by (simp add: leafRetakes_def)
    ultimately have "wp (fullUpdate ?path ?c key val) ?Q ?t3" using fullUpdate_ok [OF t3, of ?c key old val] mem kv unfolding l3 by simp
    moreover have "HasCode (New PageFull ''page.Update'' ''page is full'') PageFull" by (simp add: HasCode_def)
    ultimately show ?thesis using 2 p(1) by (simp add: wp_simps)
  qed
  from this [unfolded fullUpdate_def] show ?case using p sl f2 unfolding Let_def le by (simp add: wp_simps enc)
qed

end
