(* ===== verification/BTreeProps.thy ===== *)
theory BTreeProps
  imports BTreeUpdate
begin

text \<open>What the B+tree promises to its clients: it is a finite map from keys to values. The map is what
  the leaves hold, read off the pages by way of the separators; every operation that succeeds acts on
  it as the map operation does, every one that fails leaves it as it was.\<close>

section \<open>The map of a tree\<close>

definition stores :: "Tree \<Rightarrow> inodes \<Rightarrow> lnodes \<Rightarrow> (bytes \<rightharpoonup> bytes) \<Rightarrow> bool" where
  "stores t N E m \<longleftrightarrow> tree_ok t N E \<and> m = map_of (contents E (leaves t N))"

definition represents :: "Tree \<Rightarrow> (bytes \<rightharpoonup> bytes) \<Rightarrow> bool" where
  "represents t m \<longleftrightarrow> (\<exists>N E. stores t N E m)"

text \<open>What one more write of the key needs: free pages (\<open>spacious\<close>), and that no internal node above the leaf of
  the key has to be split where the cut by the number of entries leaves a half that overflows a page. A split
  of the leaf sends up the key itself or a key that is on the leaf.\<close>

definition cutsFitFor :: "Tree \<Rightarrow> inodes \<Rightarrow> lnodes \<Rightarrow> bytes \<Rightarrow> bool" where
  "cutsFitFor t N E key \<longleftrightarrow> (\<forall>k \<in> insert key (fst ` set (E (route (leaves t N) key))). cutsFit N (root t) (depth t) k)"

definition writable :: "Tree \<Rightarrow> (bytes \<rightharpoonup> bytes) \<Rightarrow> bytes \<Rightarrow> bool" where
  "writable t m key \<longleftrightarrow> (\<exists>N E. stores t N E m \<and> spacious t \<and> cutsFitFor t N E key)"

lemma splittable_iff: "splittable t N (insert key (fst ` set (E (route (leaves t N) key)))) \<longleftrightarrow> spacious t \<and> cutsFitFor t N E key"
  by (simp add: splittable_def cutsFitFor_def)

text \<open>It is enough that the keys are of similar lengths.\<close>

lemma even_cutsFitFor:
  assumes "tree_ok t N E" and "even_keys a b (insert key (fst ` set (contents E (leaves t N))) \<union> fst ` set (snd (leaves t N)))"
  shows "cutsFitFor t N E key"
  unfolding cutsFitFor_def
proof
  fix k assume k: "k \<in> insert key (fst ` set (E (route (leaves t N) key)))"
  have "route (leaves t N) key \<in> set (lids (leaves t N))" by (rule route_in [OF tree_okD(13) [OF assms(1)]])
  then have "k \<in> insert key (fst ` set (contents E (leaves t N)))" using k by (auto simp: contents_def)
  then have "even_keys a b (insert k (fst ` set (snd (leaves t N))))" by (intro even_keys_mono [OF assms(2)]) auto
  then show "cutsFit N (root t) (depth t) k" using even_cutsFit [OF tree_okD(2) [OF assms(1)]] by (simp add: leaves_def)
qed

lemma holds_represents:
  assumes "holds t S" and "\<And>k v. (k, v) \<in> S \<longleftrightarrow> m k = Some v"
  shows "represents t m"
proof -
  obtain N E where t: "tree_ok t N E" "set (contents E (leaves t N)) = S" using assms(1) by (auto simp: holds_def)
  have "distinct (map fst (contents E (leaves t N)))" by (rule keysorted_distinct [OF tree_contents_sorted [OF t(1)]])
  then have "map_of (contents E (leaves t N)) k = m k" for k
    using t(2) assms(2) [of k] by (cases "m k") (auto simp: map_of_eq_None_iff image_iff)
  then have "m = map_of (contents E (leaves t N))" by auto
  then show ?thesis using t(1) unfolding represents_def stores_def by blast
qed

lemma represents_of: "stores t N E m \<Longrightarrow> represents t m"
  by (auto simp: represents_def)

lemma contents_map:
  assumes "tree_ok t N E"
  shows "(k, v) \<in> set (contents E (leaves t N)) \<longleftrightarrow> map_of (contents E (leaves t N)) k = Some v"
  using keysorted_distinct [OF tree_contents_sorted [OF assms]] by simp

lemma dom_contents: "dom (map_of (contents E (leaves t N))) = fst ` set (contents E (leaves t N))"
  by (rule dom_map_of_conv_image_fst)

section \<open>A new tree\<close>

lemma meta_new:
  assumes "length rec = 16" and "pageNew mh PageTypeSlotted = Some pn"
  obtains r where "pageInsert pn rec = Some (r, Inr 0)" "meta_page r rec"
proof -
  obtain pn: "page_inv pn" "scount pn = 0" "uppern pn = 16384" "page_map pn = Map.empty"
    using pageNew_spec [of mh PageTypeSlotted] assms(2) by auto
  have t: "target pn = 0" using free_slot_target [of pn] pn(2) by (auto simp: free_slot_def)
  have "live_bytes pn = 0" using pn(2) by simp
  then have "fits pn rec" using pn t assms(1) by (simp add: fits_def need_def)
  then show thesis using pageInsert_spec [OF pn(1), of rec] t assms(1) pn(4) that by (auto simp: inserted_def meta_page_def)
qed

lemma NewPage_run:
  assumes "eng_ok e" and "room (Suc n) e" and "Known ty" "ty \<noteq> PageTypeSuperblock"
  obtains e' pid p where "NewPage ty e = Some (e', Inr pid)" "pageNew pid ty = Some p"
    "epages e' = (epages e)(pid := Inr p)" "pid \<notin> alive e" "pid \<noteq> 0" "alive e' = insert pid (alive e)" "eng_ok e'" "room n e'" "crash e' = crash e"
proof -
  let ?t = "newTree e 0 0 0 True"
  have t: "eng ?t = e" by (simp add: newTree_def)
  obtain e' pid p where e: "onEng (NewPage ty) ?t = Some (?t\<lparr>eng := e'\<rparr>, Inr pid)" "pageNew pid ty = Some p"
    "epages e' = (epages e)(pid := Inr p)" "pid \<notin> alive e" "pid \<noteq> 0" "alive e' = insert pid (alive e)" "eng_ok e'" "room n e'" "eng_keeps e e'"
    by (rule NewPage_ok [of ?t n ty, unfolded t, OF assms]) blast
  have "NewPage ty e = Some (e', Inr pid)" using e(1) unfolding onEng_def t by (auto simp: newTree_def split: option.splits)
  then show thesis using e that by (auto simp: eng_keeps_def)
qed

lemma CreateDetached_ok:
  assumes e: "eng_ok e" and r: "room (Suc (Suc n)) e"
  obtains e' h mh where "CreateDetached e = Some (e', Inr (\<lambda>e. newTree e h 1 mh True))" "tree_ok (newTree e' h 1 mh True) N (\<lambda>_. [])"
    "room n e'" "crash e' = crash e"
proof -
  obtain e1 h p1 where e1: "NewPage PageTypeBTreeLeaf e = Some (e1, Inr h)" "pageNew h PageTypeBTreeLeaf = Some p1"
    "epages e1 = (epages e)(h := Inr p1)" "h \<notin> alive e" "h \<noteq> 0" "alive e1 = insert h (alive e)" "eng_ok e1" "room (Suc n) e1" "crash e1 = crash e"
    by (rule NewPage_run [OF e r page_types(2,4)])
  obtain q1 where q1: "initNode p1 emptyHdr = Some (q1, Inr ())" "leaf_page q1 h emptyHdr {#}"
    using initNode_new [OF page_types(2), of h emptyHdr leafBytes] e1(2) by auto
  let ?e2 = "e1\<lparr>epages := (epages e1)(h := Inr q1)\<rparr>"
  have e2: "alive ?e2 = alive e1" "eng_ok ?e2" "room (Suc n) ?e2" using e1(7,8) by (simp_all add: alive_def eng_ok_def room_def)
  have slotted: "Known PageTypeSlotted" "PageTypeSlotted \<noteq> PageTypeSuperblock"
    by (simp_all add: Known_def PageTypeSlotted_def PageTypeSuperblock_def)
  obtain e3 mh p3 where e3: "NewPage PageTypeSlotted ?e2 = Some (e3, Inr mh)" "pageNew mh PageTypeSlotted = Some p3"
    "epages e3 = (epages ?e2)(mh := Inr p3)" "mh \<notin> alive ?e2" "mh \<noteq> 0" "alive e3 = insert mh (alive ?e2)" "eng_ok e3" "room n e3" "crash e3 = crash ?e2"
    by (rule NewPage_run [OF e2(2,3) slotted])
  obtain q3 where q3: "pageInsert p3 (metaBytes h 1) = Some (q3, Inr 0)" "meta_page q3 (metaBytes h 1)"
    by (rule meta_new [OF length_metaBytes e3(2)])
  let ?e4 = "e3\<lparr>epages := (epages e3)(mh := Inr q3)\<rparr>" 
  let ?t = "newTree ?e4 h 1 mh True"
  have ne: "h \<noteq> mh" using e3(4) e2(1) e1(6) by auto
  have "CreateDetached e = Some (?e4, Inr (\<lambda>e. newTree e h 1 mh True))"
    using e1(1,3) q1(1) e3(1,3) q3(1) ne by (simp add: CreateDetached_def pbind_def hdo_def pgo_def pret_def encodeMeta_eq)
  moreover have "tree_ok ?t N (\<lambda>_. [])"
  proof -
    have sel: "root ?t = h" "height ?t = 1" "tmeta ?t = mh" "eng ?t = ?e4" "depth ?t = 0" "leaves ?t N = (h, [])" "hintRight ?t = 0"
      by (simp_all add: newTree_def depth_def leaves_def)
    have "alive ?e4 = insert mh (insert h (alive e))" "eng_ok ?e4" using e3(6,7) e2(1) e1(6) by (simp_all add: alive_def eng_ok_def)
    moreover have "nodeL (pg ?t) h [] 0 0" using e1(5) q1(2) ne e3(3) unfolding sel by (auto simp: nodeL_def emptyHdr_def keysorted_def)
    moreover have "metaOK ?t" using q3(2) e3(5) calculation(1) unfolding metaOK_def meta_at_def sel by simp
    ultimately show ?thesis unfolding tree_ok_def sel using ne
      by (auto simp: inner_def lids_def hintOK_def sel placed_def)
  qed
  ultimately show thesis by (rule that) (use e3(8,9) e1(9) in \<open>simp_all add: room_def\<close>)
qed

section \<open>The operations on the map\<close>

abbreviation getValue :: "bytes \<Rightarrow> (Tree, bytes option) proc" where
  "getValue key \<equiv> pbind (leafRaw key) (\<lambda>(_, v). pret v)"

text \<open>An absent key is inserted on the leaf the lookup has found, as \<open>Txn.insertAt\<close> does.\<close>

abbreviation insertFound :: "bytes \<Rightarrow> bytes \<Rightarrow> (Tree, unit) proc" where
  "insertFound key val \<equiv> pbind (leafRaw key) (\<lambda>(leafID, _). insertOnLeaf leafID key val)"

lemma reads_spacious: "reads t t' \<Longrightarrow> spacious t \<Longrightarrow> spacious t'"
  using reads_fields [of t t'] by (simp add: spacious_def depth_def)

lemma reads_stores: "reads t t' \<Longrightarrow> stores t N E m \<Longrightarrow> stores t' N E m"
  using reads_tree_ok [of t t'] reads_fields(8) [of t t'] unfolding stores_def by metis

lemma reads_cuts: "reads t t' \<Longrightarrow> cutsFitFor t N E key \<Longrightarrow> cutsFitFor t' N E key"
  using reads_fields [of t t'] by (simp add: cutsFitFor_def depth_def)

lemma reads_takes: "reads t t' \<Longrightarrow> leafTakes t' c rec = leafTakes t c rec"
  using reads_fields(1) [of t t'] by (intro leafTakes_cong) simp

lemma represents_reads: "reads t t' \<Longrightarrow> represents t m \<Longrightarrow> represents t' m"
  using reads_stores unfolding represents_def by blast

lemma represents_quiet: "quiet t t' \<Longrightarrow> represents t m \<Longrightarrow> represents t' m"
  by (rule represents_reads) (simp_all add: reads_def)

lemma getValue_ok:
  assumes "represents t m"
  shows "wp (getValue key) (\<lambda>r t'. represents t' m \<and> r = Inr (m key)) t"
proof -
  obtain N E where t: "tree_ok t N E" "m = map_of (contents E (leaves t N))" using assms by (auto simp: represents_def stores_def)
  show ?thesis
  proof (rule wp_pbindI [OF leafRaw_ok [OF t(1), of key]], goal_cases)
    case (1 t')
    then have "represents t' m" using assms by (rule represents_reads)
    then show ?case using t(2) by (simp add: found_def wp_simps)
  qed
qed

text \<open>The outcomes of a write in terms of the map.\<close>

definition refusedBy :: "nerr \<Rightarrow> (bytes \<rightharpoonup> bytes) \<Rightarrow> unit res \<Rightarrow> Tree \<Rightarrow> bool" where
  "refusedBy err m r t' \<longleftrightarrow> r = Inl err \<and> represents t' m"

definition written :: "(bytes \<rightharpoonup> bytes) \<Rightarrow> bytes \<Rightarrow> bytes \<Rightarrow> unit res \<Rightarrow> Tree \<Rightarrow> bool" where
  "written m key val r t' \<longleftrightarrow> r = Inr () \<and> represents t' (m(key \<mapsto> val))"

lemma insertion_map:
  assumes "stores t N E m" and "m key = None" and "insertion takes E (leaves t N) (key, val) r t'"
  shows "if E (route (leaves t N) key) = [] \<and> \<not> takes then refusedBy tooBig m r t' else written m key val r t'"
proof -
  have t: "tree_ok t N E" "m = map_of (contents E (leaves t N))" using assms(1) by (auto simp: stores_def)
  have "represents t' m" if "holds t' (set (contents E (leaves t N)))"
    by (rule holds_represents [OF that]) (use contents_map [OF t(1)] t(2) in simp)
  moreover have "represents t' (m(key \<mapsto> val))" if "holds t' (insert (key, val) (set (contents E (leaves t N))))"
    by (rule holds_represents [OF that]) (use contents_map [OF t(1)] t(2) assms(2) in auto)
  ultimately show ?thesis using assms(3) by (auto simp: insertion_def refusedBy_def written_def split: if_splits)
qed

lemma insertFound_exact:
  assumes st: "stores t N E m" and sp: "spacious t" "cutsFitFor t N E key" and k: "m key = None" and kv: "leafOK (key, val)"
  shows "wp (insertFound key val) (\<lambda>r t'. if E (route (leaves t N) key) = [] \<and> \<not> leafTakes t (route (leaves t N) key) (leafBytes (key, val))
    then refusedBy tooBig m r t' else written m key val r t') t"
proof -
  have t: "tree_ok t N E" "m = map_of (contents E (leaves t N))" using st by (auto simp: stores_def)
  have k': "key \<notin> fst ` set (contents E (leaves t N))" using k t(2) by (simp add: map_of_eq_None_iff)
  show ?thesis
  proof (rule wp_pbindI [OF leafRaw_ok [OF t(1), of key]], goal_cases)
    case (1 t1)
    note t1 = reads_tree_ok [OF 1 t(1)]
    have l: "leaves t1 N = leaves t N" using reads_fields(8) [OF 1] .
    have "splittable t1 N (insert key (fst ` set (E (route (leaves t1 N) key))))"
      unfolding splittable_iff using reads_spacious [OF 1 sp(1)] reads_cuts [OF 1 sp(2)] by simp
    from insertOnLeaf_ok [OF t1 kv _ this] k'
    have "wp (insertOnLeaf (route (leaves t N) key) key val)
        (insertion (leafTakes t (route (leaves t N) key) (leafBytes (key, val))) E (leaves t N) (key, val)) t1"
      unfolding l reads_takes [OF 1] by simp
    then show ?case unfolding found_def prod.case by (rule wp_mono) (rule insertion_map [OF st k])
  qed
qed

lemma insertFound_ok:
  assumes "writable t m key" and "m key = None" and kv: "leafOK (key, val)"
  shows "wp (insertFound key val) (\<lambda>r t'. written m key val r t' \<or> refusedBy tooBig m r t') t"
proof -
  obtain N E where w: "stores t N E m" "spacious t" "cutsFitFor t N E key" using assms(1) by (auto simp: writable_def)
  show ?thesis by (rule wp_mono [OF insertFound_exact [OF w assms(2,3)]]) (auto split: if_splits)
qed

lemma insertLocked_dup:
  assumes "represents t m" and "m key = Some old"
  shows "wp (insertLocked key val) (\<lambda>r t'. represents t' m \<and> r = Inl (New AlreadyExists ''btree.Insert'' ''duplicate key'')) t"
proof -
  obtain N E where t: "tree_ok t N E" "m = map_of (contents E (leaves t N))" using assms by (auto simp: represents_def stores_def)
  show ?thesis unfolding insertLocked_def
    by (rule wp_mono [OF insertAt_dup [OF t(1), of key old]]) (use assms t(2) represents_quiet in auto)
qed

lemma replacement_map:
  assumes "stores t N E m" and "m key = Some old" and "replacement takes E (leaves t N) (key, val) old r t'"
  shows "if E (route (leaves t N) key) = [(key, old)] \<and> \<not> takes then refusedBy oneRecord m r t' else written m key val r t'"
proof -
  have t: "tree_ok t N E" "m = map_of (contents E (leaves t N))" using assms(1) by (auto simp: stores_def)
  have "represents t' m" if "holds t' (set (contents E (leaves t N)))"
    by (rule holds_represents [OF that]) (use contents_map [OF t(1)] t(2) in simp)
  moreover have "represents t' (m(key \<mapsto> val))" if "holds t' (insert (key, val) (set (contents E (leaves t N)) - {(key, old)}))"
    by (rule holds_represents [OF that]) (use contents_map [OF t(1)] t(2) assms(2) in auto)
  ultimately show ?thesis using assms(3) by (auto simp: replacement_def refusedBy_def written_def split: if_splits)
qed

lemma updateLocked_exact:
  assumes st: "stores t N E m" and sp: "spacious t" "cutsFitFor t N E key" and k: "m key = Some old" and kv: "leafOK (key, val)"
  shows "wp (updateLocked key val) (\<lambda>r t'. if E (route (leaves t N) key) = [(key, old)] \<and>
      \<not> leafRetakes t (route (leaves t N) key) (leafBytes (key, old)) (leafBytes (key, val))
    then refusedBy oneRecord m r t' else written m key val r t') t"
proof -
  have t: "tree_ok t N E" "m = map_of (contents E (leaves t N))" using st by (auto simp: stores_def)
  have "splittable t N (fst ` set (E (route (leaves t N) key)))"
    by (rule splittable_mono [where K = "insert key (fst ` set (E (route (leaves t N) key)))"]) (use splittable_iff sp in auto)
  from updateLocked_ok [OF t(1) _ kv this, of old] k t(2)
  have "wp (updateLocked key val) (replacement (leafRetakes t (route (leaves t N) key) (leafBytes (key, old)) (leafBytes (key, val)))
    E (leaves t N) (key, val) old) t" by simp
  then show ?thesis by (rule wp_mono) (rule replacement_map [OF st k])
qed

lemma updateLocked_map:
  assumes "writable t m key" and "m key = Some old" and kv: "leafOK (key, val)"
  shows "wp (updateLocked key val) (\<lambda>r t'. written m key val r t' \<or> refusedBy oneRecord m r t') t"
proof -
  obtain N E where w: "stores t N E m" "spacious t" "cutsFitFor t N E key" using assms(1) by (auto simp: writable_def)
  show ?thesis by (rule wp_mono [OF updateLocked_exact [OF w assms(2,3)]]) (auto split: if_splits)
qed

lemma updateLocked_none:
  assumes "represents t m" and "m key = None"
  shows "wp (updateLocked key val) (\<lambda>r t'. represents t' m \<and> r = Inl (New NotFound ''btree.Update'' ''key not found'')) t"
proof -
  obtain N E where t: "tree_ok t N E" "m = map_of (contents E (leaves t N))" using assms by (auto simp: represents_def stores_def)
  show ?thesis
    by (rule wp_mono [OF updateLocked_missing [OF t(1), of key]]) (use assms t(2) represents_quiet in auto)
qed

section \<open>The contract\<close>

text \<open>What a reader sees after a write: the value just written under its key when the write succeeded,
  the old value under every other key and, when it failed, under this one too.\<close>

definition seen :: "('a \<rightharpoonup> 'b) \<Rightarrow> 'a \<Rightarrow> 'b \<Rightarrow> unit res \<Rightarrow> 'a \<Rightarrow> 'b option" where
  "seen m k v r k' = (if k' = k \<and> r = Inr () then Some v else m k')"

text \<open>A store of values under keys, as the transactions above the tree use it. \<open>rep\<close> is what a state
  holds, \<open>ready\<close> that one more write of the key has the room it may need.\<close>

locale kv_store =
  fixes rep :: "'s \<Rightarrow> ('k \<rightharpoonup> 'v) \<Rightarrow> bool"
    and ready :: "'s \<Rightarrow> ('k \<rightharpoonup> 'v) \<Rightarrow> 'k \<Rightarrow> bool"
    and valid :: "'k \<Rightarrow> 'v \<Rightarrow> bool"
    and get :: "'k \<Rightarrow> ('s, 'v option) proc"
    and ins :: "'k \<Rightarrow> 'v \<Rightarrow> ('s, unit) proc"
    and upd :: "'k \<Rightarrow> 'v \<Rightarrow> ('s, unit) proc"
  assumes get_law: "rep t m \<Longrightarrow> wp (get k) (\<lambda>r t'. rep t' m \<and> r = Inr (m k)) t"
    and ready_rep: "ready t m k \<Longrightarrow> rep t m"
    and ins_law: "ready t m k \<Longrightarrow> m k = None \<Longrightarrow> valid k v \<Longrightarrow>
      wp (ins k v) (\<lambda>r t'. r = Inr () \<and> rep t' (m(k \<mapsto> v)) \<or> (\<exists>e. r = Inl e) \<and> rep t' m) t"
    and upd_law: "ready t m k \<Longrightarrow> m k = Some w \<Longrightarrow> valid k v \<Longrightarrow>
      wp (upd k v) (\<lambda>r t'. r = Inr () \<and> rep t' (m(k \<mapsto> v)) \<or> (\<exists>e. r = Inl e) \<and> rep t' m) t"
    and upd_none: "rep t m \<Longrightarrow> m k = None \<Longrightarrow> wp (upd k v) (\<lambda>r t'. rep t' m \<and> (\<exists>e. r = Inl e)) t"
begin

lemma get_run: "rep t m \<Longrightarrow> \<exists>t'. get k t = Some (t', Inr (m k)) \<and> rep t' m"
  using get_law [of t m k] by (auto simp: wp_iff)

lemma seen_get:
  assumes "r = Inr () \<and> rep t' (m(k \<mapsto> v)) \<or> (\<exists>e. r = Inl e) \<and> rep t' m"
  shows "\<exists>t''. get k' t' = Some (t'', Inr (seen m k v r k'))"
  using assms get_run [of t' "m(k \<mapsto> v)" k'] get_run [of t' m k'] by (auto simp: seen_def)

lemma ins_get:
  assumes "ready t m k" and "m k = None" and "valid k v"
  shows "\<exists>t' r. ins k v t = Some (t', r) \<and> (\<forall>k'. \<exists>t''. get k' t' = Some (t'', Inr (seen m k v r k')))"
  using ins_law [OF assms] seen_get unfolding wp_iff by blast

lemma upd_get:
  assumes "ready t m k" and "m k = Some w" and "valid k v"
  shows "\<exists>t' r. upd k v t = Some (t', r) \<and> (\<forall>k'. \<exists>t''. get k' t' = Some (t'', Inr (seen m k v r k')))"
  using upd_law [OF assms] seen_get unfolding wp_iff by blast

end

interpretation bt: kv_store represents writable "\<lambda>k v. leafOK (k, v)" getValue insertFound updateLocked
proof (unfold_locales, goal_cases)
  case (1 t m k) then show ?case by (rule getValue_ok)
next
  case (2 t m k) then show ?case by (auto simp: writable_def represents_def)
next
  case (3 t m k v) then show ?case by (rule wp_mono [OF insertFound_ok]) (auto simp: written_def refusedBy_def)
next
  case (4 t m k w v) then show ?case by (rule wp_mono [OF updateLocked_map]) (auto simp: written_def refusedBy_def)
next
  case (5 t m k v) then show ?case by (rule wp_mono [OF updateLocked_none]) auto
qed

section \<open>A fresh engine, for the examples\<close>

definition engine0 :: Engine where
  "engine0 = \<lparr>epages = (\<lambda>_. Inl errInvalid), filed = (\<lambda>_. Inl errInvalid), cached = {},
     ealloc = \<lparr>afile = \<lparr>fdisk = \<lparr>dopen = True, dpages = (\<lambda>_. None), faults = []\<rparr>,
         sb = newSuperblock \<lparr>Database = [], File = []\<rparr> 1 0, genCursor = 0, genLimit = 0\<rparr>,
       anext = 1, free = [], fset = {}, meta = [], dirty = False, capPages = 0\<rparr>,
     capacityAhead = 0, crash = None, treeLog = []\<rparr>"

lemma engine0_ok: "eng_ok engine0" "n < 1000 \<Longrightarrow> room n engine0" "crash engine0 = None"
  by (simp_all add: engine0_def eng_ok_def room_def alive_def newSuperblock_def)

definition tree0 :: Tree where
  "tree0 = (case CreateDetached engine0 of Some (e, Inr mk) \<Rightarrow> mk e)"

lemma tree0_ok: "tree_ok tree0 N (\<lambda>_. [])" "leaves tree0 N = (root tree0, [])" "room 5 (eng tree0)" "calm tree0" "height tree0 = 1"
proof -
  have r: "room (Suc (Suc 5)) engine0" by (rule engine0_ok) simp
  obtain e' h mh where c: "CreateDetached engine0 = Some (e', Inr (\<lambda>e. newTree e h 1 mh True))" "tree_ok (newTree e' h 1 mh True) N (\<lambda>_. [])"
    "room 5 e'" "crash e' = crash engine0" by (rule CreateDetached_ok [OF engine0_ok(1) r, of N])
  then have t: "tree0 = newTree e' h 1 mh True" by (simp add: tree0_def)
  show "tree_ok tree0 N (\<lambda>_. [])" using c(2) unfolding t .
  show "leaves tree0 N = (root tree0, [])" "room 5 (eng tree0)" "calm tree0" "height tree0 = 1"
    using c(3,4) by (simp_all add: t newTree_def leaves_def depth_def calm_def engine0_ok(3))
qed

lemma stores_tree0: "stores tree0 (\<lambda>_. (0, [])) (\<lambda>_. []) Map.empty" "spacious tree0" "cutsFitFor tree0 (\<lambda>_. (0, [])) E k"
proof -
  note t = tree0_ok(1,2) [of "\<lambda>_. (0, [])"] tree0_ok(3-5)
  show "stores tree0 (\<lambda>_. (0, [])) (\<lambda>_. []) Map.empty" using t(1) by (simp add: stores_def contents_def)
  have "room 2 (eng tree0)" using t(3) by (auto simp: room_def)
  then show "spacious tree0" using t by (simp add: spacious_def depth_def numeral_2_eq_2)
  show "cutsFitFor tree0 (\<lambda>_. (0, [])) E k" using t(5) by (simp add: cutsFitFor_def depth_def)
qed

text \<open>The same tree with the records \<open>es\<close> on its leaf.\<close>

definition leafTree :: "leafEntry list \<Rightarrow> Tree" where
  "leafTree es = (case rebuildLeaf (root tree0) emptyHdr es of Some (Inr p) \<Rightarrow> setPage (root tree0) p tree0)"

definition leafOf :: "leafEntry list \<Rightarrow> lnodes" where
  "leafOf es = (\<lambda>_. []) (root tree0 := es)"

lemma stores_leafTree:
  assumes ok: "\<forall>e \<in> set es. leafOK e" "keysorted es" "leafPageBytes es \<le> 16384"
  shows "stores (leafTree es) (\<lambda>_. (0, [])) (leafOf es) (map_of es)" "spacious (leafTree es)"
    "cutsFitFor (leafTree es) (\<lambda>_. (0, [])) (leafOf es) k" "leafOf es (route (leaves (leafTree es) (\<lambda>_. (0, []))) k) = es"
    "crash (eng (leafTree es)) = crash (eng tree0)"
proof -
  note t = tree0_ok(1,2) [of "\<lambda>_. (0, [])"] and s = stores_tree0
  let ?c = "root tree0" and ?N = "\<lambda>_. (0, [])"
  have c: "?c \<in> set (lids (leaves tree0 ?N))" unfolding t(2) by (simp add: lids_def)
  obtain pv nx where n: "nodeL (pg tree0) ?c [] pv nx"
    by (rule tree_leaf [OF t(1), of "[7]", unfolded t(2)]) (simp add: route_def)
  have l: "pv = 0 \<and> nx = 0" using tree_okD(10) [OF t(1)] n unfolding t(2) by (auto simp: lids_def dest: nodeL_hdr)
  obtain r where r: "rebuildLeaf ?c emptyHdr es = Some (Inr r)" "\<And>P. P ?c = Inr r \<Longrightarrow> nodeL P ?c es 0 0"
    by (rule rebuildL [OF ok, of ?c emptyHdr 0 0]) (use n in \<open>auto simp: nodeL_def emptyHdr_def\<close>)
  have t1: "leafTree es = setPage ?c r tree0" using r(1) by (simp add: leafTree_def)
  have lv: "leaves (leafTree es) ?N = (?c, [])" using t(2) by (simp add: t1 leaves_def depth_def)
  have "tree_ok (leafTree es) ?N ((\<lambda>_. [])(?c := es))" unfolding t1
  proof (rule tree_ok_update [OF t(1) c])
    have "nodeL (pg (setPage ?c r tree0)) ?c es pv nx" using r(2) [of "pg (setPage ?c r tree0)"] l by simp
    then show "\<forall>pv nx. nodeL (pg tree0) ?c [] pv nx \<longrightarrow> nodeL (pg (setPage ?c r tree0)) ?c es pv nx"
      using nodeL_hdr [OF n] by blast
  qed (use tree_okD(8) [OF t(1)] t(2) evolves_setPageI evolves_refl in \<open>auto simp: route_def\<close>)
  then show "stores (leafTree es) ?N (leafOf es) (map_of es)" by (simp add: stores_def leafOf_def contents_def lv lids_def)
  show "spacious (leafTree es)" using s(2) by (simp add: t1 spacious_def depth_def calm_def setPage_def room_def alive_def)
  show "cutsFitFor (leafTree es) ?N (leafOf es) k" using tree0_ok(5) by (simp add: t1 cutsFitFor_def depth_def)
  show "leafOf es (route (leaves (leafTree es) ?N) k) = es" by (simp add: lv route_def leafOf_def)
  show "crash (eng (leafTree es)) = crash (eng tree0)" by (simp add: t1 setPage_def)
qed

definition recs1 :: "leafEntry list" where
  "recs1 = [([7], [1, 2]), ([8], [5])]"

abbreviation tree1 :: Tree where
  "tree1 \<equiv> leafTree recs1"

lemma recs1_ok: "\<forall>e \<in> set recs1. leafOK e" "keysorted recs1" "leafPageBytes recs1 \<le> 16384"
  by (simp_all add: recs1_def leafOK_def keyOK_def keysorted_def leafPageBytes_def leafRecordSize_def)

lemmas stores_tree1 = stores_leafTree [OF recs1_ok]

section \<open>Claims\<close>

text \<open>C13: a lookup is the map lookup. On every tree whose pages hold the map \<open>m\<close>, \<open>leafRaw\<close>, through the
  hint for the right end or by descending from the root, returns the value \<open>m\<close> has under the key, or
  none, and the tree still holds \<open>m\<close>.\<close>

theorem btree_lookup:
  assumes "represents t m"
  shows "\<exists>t' leafID. leafRaw key t = Some (t', Inr (leafID, m key)) \<and> represents t' m"
proof -
  obtain N E where t: "tree_ok t N E" "m = map_of (contents E (leaves t N))" using assms by (auto simp: represents_def stores_def)
  show ?thesis using leafRaw_ok [OF t(1), of key] t(2) represents_reads [OF _ assms] by (auto simp: wp_iff found_def)
qed

theorem btree_lookup_witness: "\<exists>t' leafID. leafRaw [7] tree0 = Some (t', Inr (leafID, None)) \<and> represents t' Map.empty"
  using btree_lookup [OF represents_of [OF stores_tree0(1)], of "[7]"] by simp

text \<open>C1: inserting refines the map update. On a tree that holds \<open>m\<close>, with the key absent, enough free
  pages, a height below 65535 and no crash point armed inside the splits (\<open>spacious\<close>), and every
  internal node that a split of the leaf would reach cut into halves that fit, inserting on the leaf the lookup
  found always returns. The tree then holds \<open>m(key := val)\<close>, however many leaf and internal nodes
  were split and whether or not the root grew. Exactly when the leaf of the key holds no record and its slot
  directory leaves no room for this one, the record is refused and the tree still holds \<open>m\<close>.\<close>

theorem btree_insert_refines:
  assumes "stores t N E m" and "spacious t" and "cutsFitFor t N E key" and "m key = None" and "leafOK (key, val)"
  shows "\<exists>t' r. pbind (leafRaw key) (\<lambda>(leafID, _). insertOnLeaf leafID key val) t = Some (t', r) \<and>
    (if E (route (leaves t N) key) = [] \<and> \<not> leafTakes t (route (leaves t N) key) (leafBytes (key, val))
     then r = Inl (New InvalidArgument ''btree.Insert'' ''record exceeds page capacity'') \<and> represents t' m
     else r = Inr () \<and> represents t' (m(key \<mapsto> val)))"
  using insertFound_exact [OF assms] unfolding wp_iff refusedBy_def written_def .

theorem btree_insert_refines_witness:
  "\<exists>t'. pbind (leafRaw [9]) (\<lambda>(leafID, _). insertOnLeaf leafID [9] [1]) tree1 = Some (t', Inr ()) \<and>
    represents t' [[7] \<mapsto> [1, 2], [8] \<mapsto> [5], [9] \<mapsto> [1]]"
proof -
  have m: "map_of recs1 = [[7] \<mapsto> [1, 2], [8] \<mapsto> [5]]" by (auto simp: recs1_def)
  have "map_of recs1 [9] = None" "leafOK ([9], [1])" "recs1 \<noteq> []" by (simp_all add: recs1_def leafOK_def keyOK_def)
  then show ?thesis using btree_insert_refines [OF stores_tree1(1-3), of "[9]" "[1]"] unfolding stores_tree1(4) m by auto
qed

text \<open>C8: updating refines the map update. On a tree that holds \<open>m\<close>, with enough free pages, a height
  below 65535 and no crash point armed inside the splits (\<open>spacious\<close>), and every internal node that
  a split of the leaf would reach cut into halves that fit, \<open>updateLocked\<close> of a present key makes
  the tree hold \<open>m(key := val)\<close>, in place or through a split of the full leaf. Exactly when the
  record is alone on its leaf and the slot directory leaves no room for the new one, it is refused and the tree
  still holds \<open>m\<close>. An absent key is reported as such and leaves \<open>m\<close>.\<close>

theorem btree_update_refines:
  assumes "stores t N E m" and "spacious t" and "cutsFitFor t N E key" and "leafOK (key, val)"
  shows "\<exists>t' r. updateLocked key val t = Some (t', r) \<and> (case m key of
      Some old \<Rightarrow>
        if E (route (leaves t N) key) = [(key, old)] \<and>
          \<not> leafRetakes t (route (leaves t N) key) (leafBytes (key, old)) (leafBytes (key, val))
        then r = Inl (New InvalidArgument ''btree.splitLeaf'' ''cannot split a single record'') \<and> represents t' m
        else r = Inr () \<and> represents t' (m(key \<mapsto> val))
    | None \<Rightarrow> r = Inl (New NotFound ''btree.Update'' ''key not found'') \<and> represents t' m)"
proof (cases "m key")
  case None
  from updateLocked_none [OF represents_of [OF assms(1)] None, of val] None show ?thesis by (auto simp: wp_iff)
next
  case (Some old)
  then show ?thesis using updateLocked_exact [OF assms(1-3) Some assms(4)] by (simp only: wp_iff refusedBy_def written_def option.case)
qed

theorem btree_update_refines_witness:
  "\<exists>t'. updateLocked [7] [3] tree1 = Some (t', Inr ()) \<and> represents t' [[8] \<mapsto> [5], [7] \<mapsto> [3]]"
proof -
  have m: "(map_of recs1)([7] \<mapsto> [3]) = [[8] \<mapsto> [5], [7] \<mapsto> [3]]" by (auto simp: recs1_def)
  have "map_of recs1 [7] = Some [1, 2]" "leafOK ([7], [3])" "recs1 \<noteq> [([7], [1, 2])]" by (simp_all add: recs1_def leafOK_def keyOK_def)
  then show ?thesis using btree_update_refines [OF stores_tree1(1-3), of "[7]" "[3]"] unfolding stores_tree1(4) m by auto
qed

text \<open>C9: a write is read back and disturbs nothing else. On a tree that holds \<open>m\<close>, with enough free
  pages, a height below 65535 and no crash point armed inside the splits (\<open>spacious\<close>), and every
  internal node that a split of the leaf would reach cut into halves that fit: after inserting an absent key or
  updating a present one, a lookup of any key returns the value just written when it is that key and the write
  succeeded, and the old value in every other case.\<close>

theorem btree_read_after_write:
  assumes "stores t N E m" and "spacious t" and "cutsFitFor t N E key" and "leafOK (key, val)"
  shows "\<exists>t' r. (if m key = None then insertFound key val else updateLocked key val) t = Some (t', r) \<and>
    (\<forall>k. \<exists>t''. getValue k t' = Some (t'', Inr (if k = key \<and> r = Inr () then Some val else m k)))"
proof -
  have w: "writable t m key" using assms(1-3) unfolding writable_def by blast
  show ?thesis
  proof (cases "m key")
    case None
    from bt.ins_get [OF w None assms(4)] None show ?thesis by (simp add: seen_def)
  next
    case (Some old)
    from bt.upd_get [OF w Some assms(4)] Some show ?thesis by (simp add: seen_def)
  qed
qed

theorem btree_read_after_write_witness:
  "\<exists>t' r. updateLocked [7] [3] tree1 = Some (t', r) \<and>
    (\<exists>t''. getValue [7] t' = Some (t'', Inr (if r = Inr () then Some [3] else Some [1, 2]))) \<and>
    (\<exists>t''. getValue [8] t' = Some (t'', Inr (Some [5])))"
proof -
  have m: "map_of recs1 [7] = Some [1, 2]" "map_of recs1 [8] = Some [5]" "leafOK ([7], [3])" by (simp_all add: recs1_def leafOK_def keyOK_def)
  obtain t' r where r: "updateLocked [7] [3] tree1 = Some (t', r)"
    "\<And>k. \<exists>t''. getValue k t' = Some (t'', Inr (if k = [7] \<and> r = Inr () then Some [3] else map_of recs1 k))"
    using btree_read_after_write [OF stores_tree1(1-3), of "[7]" "[3]"] m by auto
  show ?thesis using r(1) r(2) [of "[7]"] r(2) [of "[8]"] m by auto
qed

text \<open>C37: internal nodes are cut by the number of their entries, not by their sizes. When a node cannot take a
  separator and one of the halves it is cut into exceeds a page, adding the separator fails with a full page, and
  no page in use has changed. The caller has split the node below by then, so that its new right sibling \<open>right\<close>,
  with half of the records, is not reachable from above.\<close>

theorem internal_split_overflow:
  assumes "nodeI (pg t) c n" and "c \<in> alive (eng t)" and "eng_ok (eng t)" and "room (Suc 0) (eng t)"
    and "internalOK (sep, right)" and "sep \<notin> fst ` set (snd n)"
    and "16384 < sepBytes (insort sep (map fst (snd n)))" and "\<not> halvesFit (insort sep (map fst (snd n)))"
  shows "\<exists>t'. insertSeparator (path @ [c]) sep right t = Some (t', Inl (New PageFull ''page.Insert'' ''page is full'')) \<and>
    (\<forall>x \<in> alive (eng t). pg t' x = pg t x)"
proof -
  have "wp (putSeparator c sep right) (\<lambda>res t'. (evolves t t' \<and> (\<forall>x \<in> alive (eng t). pg t' x = pg t x)) \<and>
      res = Inl (New PageFull ''page.Insert'' ''page is full'')) t"
    by (rule putSeparator_overflow [OF assms(1-6)]) (use assms(7,8) in \<open>simp_all add: map_fst_insort\<close>)
  then show ?thesis by (subst insertSeparator.simps) (auto simp: wp_iff pbind_def)
qed

text \<open>A node of nine separators of one byte and seven of 2048 bytes fits a page; an eighth long one does not, and of
  the seventeen the upper half consists of the eight long ones.\<close>

definition longKey :: "byte \<Rightarrow> bytes" where
  "longKey b = b # replicate 2047 0"

definition unevenNode :: "internalEntry list" where
  "unevenNode = map (\<lambda>b. ([b], 2)) [0, 1, 2, 3, 4, 5, 6, 7, 8] @ map (\<lambda>b. (longKey b, 2)) [10, 11, 12, 13, 14, 15, 16]"

lemma unevenNode:
  "\<forall>e \<in> set unevenNode. internalOK e" "keysorted unevenNode" "internalPageBytes unevenNode = 14649"
  "insort (longKey 17) (map fst unevenNode) = map fst unevenNode @ [longKey 17]"
proof -
  show "\<forall>e \<in> set unevenNode. internalOK e" by (simp add: unevenNode_def internalOK_def keyOK_def longKey_def)
  show "keysorted unevenNode" by (simp add: unevenNode_def keysorted_def longKey_def)
  show "internalPageBytes unevenNode = 14649" by (simp add: unevenNode_def internalPageBytes_def internalRecordSize_def longKey_def)
  show "insort (longKey 17) (map fst unevenNode) = map fst unevenNode @ [longKey 17]" by (simp add: unevenNode_def longKey_def)
qed

theorem internal_split_overflow_witness:
  "\<exists>t c t'. nodeI (pg t) c (1, unevenNode) \<and>
    insertSeparator [c] (longKey 17) 3 t = Some (t', Inl (New PageFull ''page.Insert'' ''page is full'')) \<and> pg t' c = pg t c"
proof -
  let ?c = "root tree0"
  have t: "?c \<in> alive (eng tree0)" "eng_ok (eng tree0)" "room (Suc 0) (eng tree0)"
    using root_alive [OF tree0_ok(1)] tree_okD(8) [OF tree0_ok(1)] room_mono [OF tree0_ok(3), of "Suc 0"] by simp_all
  have c0: "?c \<noteq> 0" using t(1) by (simp add: alive_def)
  obtain r where r: "rebuildInternal ?c (emptyHdr\<lparr>nhLeftmost := 1\<rparr>) unevenNode = Some (Inr r)" "\<And>P. P ?c = Inr r \<Longrightarrow> nodeI P ?c (1, unevenNode)"
    "\<And>dst. pageID dst = Some ?c \<Longrightarrow> overwrite dst r = Some (r, Inr ())"
    by (rule rebuildI [of unevenNode 1 ?c "emptyHdr\<lparr>nhLeftmost := 1\<rparr>"]) (use unevenNode c0 in simp_all)
  let ?t = "setPage ?c r tree0"
  have n: "nodeI (pg ?t) ?c (1, unevenNode)" by (rule r(2)) simp
  have sep: "internalOK (longKey 17, 3)" "longKey 17 \<notin> fst ` set unevenNode"
    "16384 < sepBytes (insort (longKey 17) (map fst unevenNode))" "\<not> halvesFit (insort (longKey 17) (map fst unevenNode))"
    unfolding unevenNode(4) by (simp_all add: unevenNode_def internalOK_def keyOK_def longKey_def sepBytes_def halvesFit_def)
  have "\<exists>t'. insertSeparator ([] @ [?c]) (longKey 17) 3 ?t = Some (t', Inl (New PageFull ''page.Insert'' ''page is full'')) \<and>
      (\<forall>x \<in> alive (eng ?t). pg t' x = pg ?t x)"
    by (rule internal_split_overflow [OF n]) (use t sep in simp_all)
  then obtain t' where "insertSeparator [?c] (longKey 17) 3 ?t = Some (t', Inl (New PageFull ''page.Insert'' ''page is full''))"
    "pg t' ?c = pg ?t ?c" using t(1) by auto
  then show ?thesis using n by blast
qed

text \<open>A new tree is empty and well formed, and takes two pages.\<close>

lemma btree_create:
  assumes "eng_ok e" and "room (Suc (Suc n)) e"
  shows "\<exists>e' mk. CreateDetached e = Some (e', Inr mk) \<and> represents (mk e') Map.empty \<and> room n e'"
proof -
  obtain e' h mh where c: "CreateDetached e = Some (e', Inr (\<lambda>e. newTree e h 1 mh True))" "tree_ok (newTree e' h 1 mh True) (\<lambda>_. (0, [])) (\<lambda>_. [])"
    "room n e'" by (rule CreateDetached_ok [OF assms])
  have "represents (newTree e' h 1 mh True) Map.empty" by (rule represents_of [of _ "\<lambda>_. (0, [])" "\<lambda>_. []"]) (use c(2) in \<open>simp add: stores_def contents_def\<close>)
  then show ?thesis using c(1,3) by blast
qed

text \<open>C38: a full leaf can always be split. For the records of a leaf that fit a page plus one more
  record, whatever their sizes, \<open>splitLeafIndex\<close> finds a cut with both sides nonempty and within a page,
  and no such cut lies nearer to the middle.\<close>

theorem split_index_bounds:
  assumes "\<forall>e \<in> set (e0 # es). leafOK e" and "leafPageBytes es \<le> 16384" and "es \<noteq> []"
  shows "\<exists>mid. splitLeafIndex (insort_key fst e0 es) = Inr mid \<and> 1 \<le> mid \<and> mid < length (insort_key fst e0 es) \<and>
    leafPageBytes (take mid (insort_key fst e0 es)) \<le> 16384 \<and> leafPageBytes (drop mid (insort_key fst e0 es)) \<le> 16384 \<and>
    (\<forall>m. cut_ok (insort_key fst e0 es) m \<longrightarrow> off_middle (insort_key fst e0 es) mid \<le> off_middle (insort_key fst e0 es) m)"
proof -
  let ?al = "insort_key fst e0 es"
  have ok: "\<forall>e \<in> set ?al. leafOK e" using assms(1) by (auto simp: set_insort_key)
  have "leafOK e0" using assms(1) by simp
  then have sz: "leafPageBytes ?al \<le> 16384 + 8152" using assms(2) leafOK_cost [of e0] by (simp add: leafPageBytes_insort)
  have "2 \<le> length ?al" using assms(3) by (cases es) simp_all
  then obtain mid where mid: "splitLeafIndex ?al = Inr mid" "cut_ok ?al mid" by (rule full_leaf_splits [OF ok sz])
  have "\<forall>e \<in> set (take mid ?al). leafOK e" "\<forall>e \<in> set (drop mid ?al). leafOK e" using ok by (meson in_set_takeD in_set_dropD)+
  then show ?thesis using mid splitLeafIndex_best [of ?al] by (auto simp: cut_ok_def leafFits_iff)
qed

theorem split_index_bounds_witness:
  "\<exists>mid. splitLeafIndex [([1 :: 8 word], []), ([2], [])] = Inr mid \<and> 1 \<le> mid \<and> mid < 2"
  using split_index_bounds [of "([1], [])" "[([2], [])]"] by (auto simp: leafOK_def keyOK_def leafPageBytes_def leafRecordSize_def)

section \<open>Bulk insertion\<close>

text \<open>\<open>insertBatchLocked\<close> appends to the leaf it holds without looking the key up: a key that is already
  there gets a second record. Its caller passes rows in any order and does not check either.\<close>

lemma batch_duplicates:
  assumes p: "pg t c = Inr p" "leaf_page p c hdr (add_mset (key, old) M)" and kv: "leafOK (key, val)"
    and r: "52 + 4 * scount p + length (leafBytes (key, val)) \<le> uppern p"
  shows "\<exists>t' p'. put (Some c) key (leafBytes (key, val)) t = Some (t', Inr (Some c)) \<and> pg t' c = Inr p' \<and>
    leaf_page p' c hdr (add_mset (key, val) (add_mset (key, old) M))"
proof -
  have sz: "length (leafBytes (key, val)) \<le> 16332" using kv by (auto simp: length_leafBytes leafRecordSize_def leafOK_def)
  obtain p' i where p': "pageAppend p (leafBytes (key, val)) = Some (p', Inr i)" "leaf_page p' c hdr (add_mset (key, val) (add_mset (key, old) M))"
    using p(2) sz
  proof (cases rule: node_append)
    case 2
    then show ?thesis using pageAppend_spec [OF node_page_inv [OF p(2)] sz] r by auto
  qed blast
  have "wp (put (Some c) key (leafBytes (key, val))) (\<lambda>r t'. r = Inr (Some c) \<and> pg t' c = Inr p') t"
    using p(1) p'(1) by (simp add: put_def appendOrSplit_def wp_simps)
  then show ?thesis using p'(2) by (auto simp: wp_iff)
qed

end
