(* ===== verification/Undo.thy ===== *)
theory Undo
  imports WalFormat RowVersion FileMgr
begin

text \<open>
  The undo log: \<open>internal/undo/format.go\<close> and \<open>internal/undo/log.go\<close>. The log file is the list of
  bytes in it (\<open>None\<close> once it is closed), written at its end; the control file is the bytes last
  renamed into place. Every write and barrier takes the next entry of the list of faults, as in the
  data file. The wrapped key is an opaque byte string: wrapping is the key provider's business, and
  the data key itself is a field.
\<close>

section \<open>Records\<close>

definition KindInsert :: byte where "KindInsert = 1"
definition KindUpdate :: byte where "KindUpdate = 2"
definition KindDelete :: byte where "KindDelete = 3"

lemmas kind_defs = KindInsert_def KindUpdate_def KindDelete_def

record UndoRec =
  uID :: UndoID
  uTxn :: TxnID
  uPrev :: UndoID
  uKind :: byte
  uPageID :: PageID
  uKey :: bytes
  uOld :: Version

definition encodeRecord :: "UndoRec \<Rightarrow> bytes option" where
  "encodeRecord r = do {
     let b = replicate (53 + length (uKey r) + length (vPayload (uOld r))) 0;
     b \<leftarrow> PutU64 b 0 (uTxn r);
     b \<leftarrow> PutU64 b 8 (uPrev r);
     b \<leftarrow> putB b 16 (uKind r);
     b \<leftarrow> PutU64 b 17 (uPageID r);
     b \<leftarrow> PutU16 b 25 (word_of_nat (length (uKey r)));
     b \<leftarrow> PutU16 b 27 (word_of_nat (length (vPayload (uOld r))));
     b \<leftarrow> PutU64 b 29 (vXmin (uOld r));
     b \<leftarrow> PutU64 b 37 (vXmax (uOld r));
     b \<leftarrow> PutU64 b 45 (vUndo (uOld r));
     b \<leftarrow> copyAt b 53 (uKey r);
     copyAt b (53 + length (uKey r)) (vPayload (uOld r))
   }"

definition decodeRecord :: "UndoID \<Rightarrow> bytes \<Rightarrow> UndoRec go" where
  "decodeRecord uid payload =
     (if length payload < 53 then Some (Inl (New InvalidFormat ''undo.decodeRecord'' ''truncated undo payload''))
      else do {
        kl \<leftarrow> U16 payload 25;
        vl \<leftarrow> U16 payload 27;
        let klen = unat kl; vlen = unat vl in
        if 53 + klen + vlen \<noteq> length payload
        then Some (Inl (New InvalidFormat ''undo.decodeRecord'' ''invalid undo payload length''))
        else do {
          kind \<leftarrow> getB payload 16;
          if kind < KindInsert \<or> kind > KindDelete
          then Some (Inl (New InvalidFormat ''undo.decodeRecord'' ''unknown undo kind''))
          else do {
            txn \<leftarrow> U64 payload 0;
            prev \<leftarrow> U64 payload 8;
            pid \<leftarrow> U64 payload 17;
            key \<leftarrow> goSlice payload 53 (53 + klen);
            xmin \<leftarrow> U64 payload 29;
            xmax \<leftarrow> U64 payload 37;
            un \<leftarrow> U64 payload 45;
            Some (Inr \<lparr>uID = uid, uTxn = txn, uPrev = prev, uKind = kind, uPageID = pid, uKey = key,
              uOld = \<lparr>vXmin = xmin, vXmax = xmax, vUndo = un, vPayload = drop (53 + klen) payload\<rparr>\<rparr>)
          }
        }
      })"

section \<open>The log\<close>

record ULog =
  ulIdent :: Identity
  ulDek :: "DEK option"
  ulWrapped :: bytes
  ulNextID :: UndoID
  ulNonceCur :: u64
  ulNonceLim :: u64
  ulNonceHigh :: u64
  ulFile :: "bytes option"
  ulControl :: bytes
  ulRecs :: "UndoID \<rightharpoonup> UndoRec"
  ulByTxn :: "TxnID \<Rightarrow> UndoID"
  ulBuf :: bytes
  ulWritten :: u64
  ulSynced :: u64
  ulSyncErr :: "nerr option"
  ulFaults :: "fault list"

definition undoNonceBatch :: u64 where "undoNonceBatch = 65536"

definition takeFault :: "ULog \<Rightarrow> fault \<times> ULog" where
  "takeFault l = (case ulFaults l of [] \<Rightarrow> (NoFault, l) | f # fs \<Rightarrow> (f, l\<lparr>ulFaults := fs\<rparr>))"

text \<open>\<open>diskio.Write\<close>: the number of bytes written and the error.\<close>

definition undoWrite :: "bytes \<Rightarrow> ULog \<Rightarrow> ULog \<times> nat \<times> nerr option" where
  "undoWrite buf l = (case takeFault l of
      (NoFault, l) \<Rightarrow> (l\<lparr>ulFile := map_option (\<lambda>f. f @ buf) (ulFile l)\<rparr>, length buf, None)
    | (Fails e n, l) \<Rightarrow> (l\<lparr>ulFile := map_option (\<lambda>f. f @ take n buf) (ulFile l)\<rparr>, min n (length buf),
        Some (Wrap IO ''diskio.Write'' ''injected write'' e)))"

definition undoBarrier :: "string \<Rightarrow> string \<Rightarrow> (ULog, unit) proc" where
  "undoBarrier op msg l = (case takeFault l of
      (NoFault, l) \<Rightarrow> Some (l, Inr ())
    | (Fails e _, l) \<Rightarrow> Some (l, Inl (Wrap IO op msg e)))"

definition undoFsync :: "string \<Rightarrow> string \<Rightarrow> (ULog, unit) proc" where
  "undoFsync op msg = ptry (undoBarrier ''diskio.Sync'' ''injected sync'') (\<lambda>r. case r of Inl e \<Rightarrow> pfail (Wrap IO op msg e) | Inr _ \<Rightarrow> pret ())"

section \<open>The control file\<close>

record undoControl =
  ucIdentity :: Identity
  ucNextID :: UndoID
  ucNonceHigh :: u64
  ucWrapped :: bytes

definition encodeUndoControl :: "undoControl \<Rightarrow> bytes option" where
  "encodeUndoControl c = do {
     let b = replicate (72 + length (ucWrapped c)) 0;
     b \<leftarrow> PutU32 b 0 0x4355534E;
     b \<leftarrow> PutU16 b 4 1;
     b \<leftarrow> copyRange b 8 24 (Database (ucIdentity c));
     b \<leftarrow> copyRange b 24 40 (File (ucIdentity c));
     b \<leftarrow> PutU64 b 40 (ucNextID c);
     b \<leftarrow> PutU64 b 48 (ucNonceHigh c);
     b \<leftarrow> PutU16 b 56 (word_of_nat (length (ucWrapped c)));
     b \<leftarrow> copyAt b 72 (ucWrapped c);
     h \<leftarrow> checksumWrite (take 72 b) 68;
     Some (h @ drop 72 b)
   }"

definition readControl :: "bytes \<Rightarrow> undoControl go" where
  "readControl buf =
     (if length buf < 72 then Some (Inl (New InvalidFormat ''undo.readControl'' ''truncated control file''))
      else do {
        m \<leftarrow> U32 buf 0;
        if m \<noteq> 0x4355534E then Some (Inl (New InvalidFormat ''undo.readControl'' ''bad UNDO control magic''))
        else do {
          ver \<leftarrow> U16 buf 4;
          if ver \<noteq> 1 then Some (Inl (New InvalidFormat ''undo.readControl'' ''unsupported control version''))
          else do {
            ck \<leftarrow> checksumVerify (take 72 buf) 68;
            case ck of
              Inl e \<Rightarrow> Some (Inl (Wrap Corruption ''undo.readControl'' ''checksum'' e))
            | Inr _ \<Rightarrow> do {
                wl \<leftarrow> U16 buf 56;
                if 72 + unat wl > length buf
                then Some (Inl (New InvalidFormat ''undo.readControl'' ''truncated wrapped UNDO DEK''))
                else do {
                  nid \<leftarrow> U64 buf 40;
                  nh \<leftarrow> U64 buf 48;
                  w \<leftarrow> goSlice buf 72 (72 + unat wl);
                  db \<leftarrow> goSlice buf 8 24;
                  fl \<leftarrow> goSlice buf 24 40;
                  Some (Inr \<lparr>ucIdentity = \<lparr>Database = db, File = fl\<rparr>, ucNextID = nid, ucNonceHigh = nh, ucWrapped = w\<rparr>)
                }
              }
          }
        }
      })"

text \<open>The new control file is complete and synced before the rename; the rename is atomic, and what
  may fail after it is the sync of the directory.\<close>

definition writeControlLocked :: "(ULog, unit) proc" where
  "writeControlLocked =
     pbind (pget (\<lambda>l. \<lparr>ucIdentity = ulIdent l, ucNextID = ulNextID l, ucNonceHigh = ulNonceHigh l, ucWrapped = ulWrapped l\<rparr>)) (\<lambda>c.
     pbind (pgo (map_option Inr (encodeUndoControl c))) (\<lambda>buf.
     pbind (undoFsync ''undo.writeControl'' ''sync'') (\<lambda>_.
     pbind (pmodify (\<lambda>l. l\<lparr>ulControl := buf\<rparr>)) (\<lambda>_.
     undoBarrier ''diskio.SyncDir'' ''injected fsync''))))"

section \<open>Appending\<close>

definition sealHeader :: "DEK \<Rightarrow> UndoID \<Rightarrow> bytes option" where
  "sealHeader d uid = do {
     h \<leftarrow> PutU32 (replicate 40 0) 0 0x4455534E;
     h \<leftarrow> PutU16 h 4 1;
     h \<leftarrow> PutU16 h 6 (dSuite d);
     h \<leftarrow> PutU32 h 8 (dVersion d);
     PutU64 h 12 uid
   }"

text \<open>The nonce is taken before the key is looked at; a nil key panics on its fields.\<close>

definition sealRecord :: "sealer \<Rightarrow> DEK option \<Rightarrow> u64 \<Rightarrow> UndoRec \<Rightarrow> bytes go" where
  "sealRecord seal dek gen r = (case dek of None \<Rightarrow> None | Some d \<Rightarrow> do {
     payload \<leftarrow> encodeRecord r;
     h \<leftarrow> sealHeader d (uID r);
     aad \<leftarrow> goSlice h 0 20;
     gbind (SealBytes seal dek gen aad payload) (\<lambda>(nonce, ct). do {
       h \<leftarrow> PutU32 h 20 (word_of_nat (length ct));
       h \<leftarrow> copyRange h 24 36 nonce;
       h \<leftarrow> checksumWrite h 36;
       Some (Inr (h @ ct))
     })
   })"

definition sealRecordLocked :: "sealer \<Rightarrow> UndoRec \<Rightarrow> (ULog, bytes) proc" where
  "sealRecordLocked seal r =
     pbind (pget (\<lambda>l. ulNonceCur l > ulNonceLim l)) (\<lambda>spent.
     pbind (if spent
            then pbind (pmodify (\<lambda>l. l\<lparr>ulNonceLim := ulNonceHigh l + undoNonceBatch, ulNonceHigh := ulNonceHigh l + undoNonceBatch\<rparr>))
                   (\<lambda>_. writeControlLocked)
            else pret ()) (\<lambda>_.
     pbind (pget ulNonceCur) (\<lambda>gen.
     pbind (pmodify (\<lambda>l. l\<lparr>ulNonceCur := ulNonceCur l + 1\<rparr>)) (\<lambda>_.
     pbind (pget ulDek) (\<lambda>dek. pgo (sealRecord seal dek gen r))))))"

definition flushBufLocked :: "(ULog, unit) proc" where
  "flushBufLocked l = (case ulSyncErr l of
      Some e \<Rightarrow> Some (l, Inl e)
    | None \<Rightarrow>
        if ulFile l = None \<or> ulBuf l = [] then Some (l, Inr ())
        else (case undoWrite (ulBuf l) l of (l, n, err) \<Rightarrow>
          let l = l\<lparr>ulWritten := ulWritten l + word_of_nat n\<rparr> in
          case err of
            Some e \<Rightarrow> let w = Wrap IO ''undo.Flush'' ''write'' e in
              Some (if n > 0 then l\<lparr>ulSyncErr := Some w\<rparr> else l, Inl w)
          | None \<Rightarrow> Some (l\<lparr>ulBuf := []\<rparr>, Inr ())))"

definition writeRecordLocked :: "sealer \<Rightarrow> UndoRec \<Rightarrow> (ULog, unit) proc" where
  "writeRecordLocked seal r =
     pbind (sealRecordLocked seal r) (\<lambda>buf.
     pbind (pmodify (\<lambda>l. l\<lparr>ulBuf := ulBuf l @ buf\<rparr>)) (\<lambda>_.
     pbind (pget (\<lambda>l. length (ulBuf l) \<ge> 65536)) (\<lambda>full. if full then flushBufLocked else pret ())))"

definition undoAppend :: "sealer \<Rightarrow> UndoRec \<Rightarrow> (ULog, UndoID) proc" where
  "undoAppend seal r =
     pbind (pget ulFile) (\<lambda>f. if f = None then pfail (New Internal ''undo.Append'' ''log is closed'') else
     pbind (pget ulNextID) (\<lambda>uid.
     pbind (pmodify (\<lambda>l. l\<lparr>ulNextID := ulNextID l + 1\<rparr>)) (\<lambda>_.
     pbind (pget (\<lambda>l. r\<lparr>uID := uid, uPrev := (if uPrev r = 0 then ulByTxn l (uTxn r) else uPrev r)\<rparr>)) (\<lambda>r.
     ptry (writeRecordLocked seal r) (\<lambda>res. case res of
         Inl e \<Rightarrow> pbind (pmodify (\<lambda>l. l\<lparr>ulNextID := uid\<rparr>)) (\<lambda>_. pfail e)
       | Inr _ \<Rightarrow> pbind (pmodify (\<lambda>l. l\<lparr>ulRecs := (ulRecs l)(uid \<mapsto> r), ulByTxn := (ulByTxn l)(uTxn r := uid)\<rparr>)) (\<lambda>_.
           pret uid))))))"

definition InstallReplicated :: "sealer \<Rightarrow> UndoRec \<Rightarrow> (ULog, unit) proc" where
  "InstallReplicated seal r =
     pbind (pget ulFile) (\<lambda>f. if f = None then pfail (New Internal ''undo.InstallReplicated'' ''log is closed'') else
     pbind (pget ulRecs) (\<lambda>recs. if recs (uID r) \<noteq> None then pret () else
     pbind (pmodify (\<lambda>l. if uID r \<ge> ulNextID l then l\<lparr>ulNextID := uID r + 1\<rparr> else l)) (\<lambda>_.
     pbind (writeRecordLocked seal r) (\<lambda>_.
     pmodify (\<lambda>l. l\<lparr>ulRecs := (ulRecs l)(uID r \<mapsto> r),
       ulByTxn := (if uID r > ulByTxn l (uTxn r) then (ulByTxn l)(uTxn r := uID r) else ulByTxn l)\<rparr>)))))"

section \<open>Reading\<close>

definition undoGet :: "ULog \<Rightarrow> UndoID \<Rightarrow> UndoRec res" where
  "undoGet l uid = (case ulRecs l uid of
      None \<Rightarrow> Inl (New NotFound ''undo.Get'' ''undo record not found'')
    | Some r \<Rightarrow> Inr r)"

definition undoHead :: "ULog \<Rightarrow> TxnID \<Rightarrow> UndoID" where
  "undoHead l txn = ulByTxn l txn"

text \<open>The walks follow the links of the records, which a damaged log could tie into a loop.\<close>

partial_function (option) chainFrom :: "(UndoID \<rightharpoonup> UndoRec) \<Rightarrow> UndoID \<Rightarrow> UndoRec list option" where
  "chainFrom recs head =
     (if head = 0 then Some []
      else case recs head of None \<Rightarrow> Some [] | Some r \<Rightarrow> do { rs \<leftarrow> chainFrom recs (uPrev r); Some (r # rs) })"

definition undoChain :: "ULog \<Rightarrow> UndoID \<Rightarrow> UndoRec list option" where
  "undoChain l head = chainFrom (ulRecs l) head"

partial_function (option) forgetFrom :: "(UndoID \<rightharpoonup> UndoRec) \<Rightarrow> UndoID \<Rightarrow> (UndoID \<rightharpoonup> UndoRec) option" where
  "forgetFrom recs head =
     (if head = 0 then Some recs
      else case recs head of None \<Rightarrow> Some (recs(head := None)) | Some r \<Rightarrow> forgetFrom (recs(head := None)) (uPrev r))"

definition ForgetTxn :: "TxnID \<Rightarrow> ULog \<Rightarrow> ULog option" where
  "ForgetTxn txn l =
     (if txn = 0 then Some l
      else map_option (\<lambda>recs. l\<lparr>ulRecs := recs, ulByTxn := (ulByTxn l)(txn := 0)\<rparr>) (forgetFrom (ulRecs l) (ulByTxn l txn)))"

section \<open>Durability\<close>

definition undoSync :: "(ULog, unit) proc" where
  "undoSync l =
     (if ulFile l = None
      then (case ulSyncErr l of
          Some e \<Rightarrow> Some (l, Inl e)
        | None \<Rightarrow> if ulBuf l \<noteq> [] \<or> ulWritten l > ulSynced l then Some (l, Inl (New Internal ''undo.Sync'' ''log is closed''))
                 else Some (l, Inr ()))
      else pbind flushBufLocked (\<lambda>_.
        pbind (pget ulWritten) (\<lambda>target.
        pbind (pget (\<lambda>l. target \<le> ulSynced l)) (\<lambda>clean.
        if clean then pret ()
        else ptry (undoBarrier ''diskio.DataSync'' ''injected fdatasync'') (\<lambda>r. case r of
            Inl e \<Rightarrow> let w = Wrap IO ''undo.Sync'' ''fdatasync'' e in
              pbind (pmodify (\<lambda>l. l\<lparr>ulSyncErr := Some w\<rparr>)) (\<lambda>_. pfail w)
          | Inr _ \<Rightarrow> pmodify (\<lambda>l. if target > ulSynced l then l\<lparr>ulSynced := target\<rparr> else l))))) l)"

definition undoClose :: "(ULog, unit) proc" where
  "undoClose l = (if ulFile l = None then Some (l, Inr ())
     else ptry flushBufLocked (\<lambda>r. pbind (pmodify (\<lambda>l. l\<lparr>ulFile := None\<rparr>)) (\<lambda>_. pgo (Some r))) l)"

definition undoCrashClose :: "ULog \<Rightarrow> ULog" where
  "undoCrashClose l = l\<lparr>ulFile := None\<rparr>"

text \<open>\<open>Vacuum\<close>, without a budget: the records still in memory, in the order of their ids, are sealed
  again into a new file that replaces the log.\<close>

fun resealAll :: "sealer \<Rightarrow> UndoRec list \<Rightarrow> bytes \<Rightarrow> (ULog, bytes) proc" where
  "resealAll seal [] tmp = pret tmp"
| "resealAll seal (r # rs) tmp = pbind (sealRecordLocked seal r) (\<lambda>buf. resealAll seal rs (tmp @ buf))"

definition retained :: "ULog \<Rightarrow> UndoRec list" where
  "retained l = map (\<lambda>i. the (ulRecs l i)) (sorted_list_of_set (dom (ulRecs l)))"

definition Vacuum :: "sealer \<Rightarrow> (ULog, unit) proc" where
  "Vacuum seal l = (case ulSyncErr l of
      Some e \<Rightarrow> Some (l, Inl e)
    | None \<Rightarrow>
        if ulFile l = None then Some (l, Inl (New Internal ''undo.Vacuum'' ''log is closed''))
        else pbind flushBufLocked (\<lambda>_.
          pbind (undoFsync ''undo.Vacuum'' ''sync old log'') (\<lambda>_.
          pbind (pget retained) (\<lambda>rs.
          pbind (resealAll seal rs []) (\<lambda>tmp.
          pbind (undoFsync ''undo.Vacuum'' ''sync temporary log'') (\<lambda>_.
          pbind (pmodify (\<lambda>l. l\<lparr>ulFile := Some tmp\<rparr>)) (\<lambda>_.
          pbind (undoBarrier ''diskio.SyncDir'' ''injected fsync'') (\<lambda>_.
          pmodify (\<lambda>l. l\<lparr>ulSynced := ulWritten l\<rparr>)))))))) l)"

section \<open>Opening\<close>

function replayRecords :: "opener \<Rightarrow> bytes \<Rightarrow> nat \<Rightarrow> ULog \<Rightarrow> (ULog \<times> nat \<times> unit res) option" where
  "replayRecords opn rest end l =
     (if length rest < 40 then Some (l, end, Inr ())
      else do {
        let hdr = take 40 rest;
        m \<leftarrow> U32 hdr 0;
        if m \<noteq> 0x4455534E then Some (l, end, Inr ())
        else do {
          ck \<leftarrow> checksumVerify hdr 36;
          if isl ck then Some (l, end, Inr ())
          else do {
            ver \<leftarrow> U16 hdr 4;
            if ver \<noteq> 1 then Some (l, end, Inl (New InvalidFormat ''undo.Open'' ''unsupported undo record version''))
            else do {
              cl \<leftarrow> U32 hdr 20;
              if unat cl < AuthTagSize \<or> unat cl > LogicalPageSize then Some (l, end, Inr ())
              else if length rest < 40 + unat cl then Some (l, end, Inr ())
              else do {
                let ct = take (unat cl) (drop 40 rest);
                uid \<leftarrow> U64 hdr 12;
                aad \<leftarrow> goSlice hdr 0 20;
                nonce \<leftarrow> goSlice hdr 24 36;
                pl \<leftarrow> OpenBytes opn (ulDek l) nonce aad ct;
                case pl of
                  Inl _ \<Rightarrow> Some (l, end, Inr ())
                | Inr payload \<Rightarrow> do {
                    dr \<leftarrow> decodeRecord uid payload;
                    case dr of
                      Inl e \<Rightarrow> Some (l, end, Inl e)
                    | Inr r \<Rightarrow> replayRecords opn (drop (40 + unat cl) rest) (end + 40 + unat cl)
                        (l\<lparr>ulRecs := (ulRecs l)(uid \<mapsto> r), ulByTxn := (ulByTxn l)(uTxn r := uid),
                           ulNextID := (if uid \<ge> ulNextID l then uid + 1 else ulNextID l)\<rparr>)
                  }
              }
            }
          }
        }
      })"
  by pat_completeness auto

termination replayRecords
  by (relation "measure (\<lambda>(_, rest, _, _). length rest)") auto

declare replayRecords.simps [simp del]

text \<open>\<open>replay\<close> cuts the file where reading stopped.\<close>

definition undoReplay :: "opener \<Rightarrow> (ULog, unit) proc" where
  "undoReplay opn l = (case ulFile l of None \<Rightarrow> None | Some f \<Rightarrow>
     (case replayRecords opn f 0 l of
        None \<Rightarrow> None
      | Some (l, end, Inl e) \<Rightarrow> Some (l, Inl e)
      | Some (l, end, Inr _) \<Rightarrow>
          pbind (if length f > end
                 then pbind (pmodify (\<lambda>l. l\<lparr>ulFile := Some (take end f)\<rparr>)) (\<lambda>_. undoFsync ''undo.Open'' ''sync torn-tail truncation'')
                 else pret ()) (\<lambda>_.
          pmodify (\<lambda>l. l\<lparr>ulWritten := word_of_nat end, ulSynced := word_of_nat end\<rparr>)) l))"

text \<open>\<open>Open\<close> from the bytes of the two files and the unwrapped key; a missing log file is created empty.\<close>

definition undoOpen :: "opener \<Rightarrow> DEK res \<Rightarrow> Identity \<Rightarrow> bytes \<Rightarrow> bytes option \<Rightarrow> fault list \<Rightarrow> ULog go" where
  "undoOpen opn dek ident ctl file fs = gbind (readControl ctl) (\<lambda>c.
     if ucIdentity c \<noteq> ident then Some (Inl (New Corruption ''undo.Open'' ''UNDO identity does not match data file''))
     else gbind (Some dek) (\<lambda>d.
       let cur = ucNonceHigh c + 1;
           lim = cur + undoNonceBatch - 1;
           l = \<lparr>ulIdent = ident, ulDek = Some d, ulWrapped = ucWrapped c, ulNextID = (if ucNextID c = 0 then 1 else ucNextID c),
             ulNonceCur = cur, ulNonceLim = lim, ulNonceHigh = lim, ulFile = Some (case file of None \<Rightarrow> [] | Some f \<Rightarrow> f),
             ulControl = ctl, ulRecs = Map.empty, ulByTxn = (\<lambda>_. 0), ulBuf = [], ulWritten = 0, ulSynced = 0, ulSyncErr = None,
             ulFaults = fs\<rparr>
       in case pbind writeControlLocked (\<lambda>_. undoReplay opn) l of
            None \<Rightarrow> None
          | Some (l, Inl e) \<Rightarrow> Some (Inl e)
          | Some (l, Inr _) \<Rightarrow> Some (Inr l)))"

text \<open>\<open>Create\<close> with a generated key and its wrapped form.\<close>

definition undoCreate :: "DEK \<Rightarrow> bytes \<Rightarrow> Identity \<Rightarrow> fault list \<Rightarrow> ULog go" where
  "undoCreate d wrapped ident fs =
     (let l = \<lparr>ulIdent = ident, ulDek = Some d, ulWrapped = wrapped, ulNextID = 1, ulNonceCur = 1, ulNonceLim = undoNonceBatch,
        ulNonceHigh = undoNonceBatch, ulFile = None, ulControl = [], ulRecs = Map.empty, ulByTxn = (\<lambda>_. 0), ulBuf = [], ulWritten = 0,
        ulSynced = 0, ulSyncErr = None, ulFaults = fs\<rparr>
      in case pbind writeControlLocked (\<lambda>_. pbind (pmodify (\<lambda>l. l\<lparr>ulFile := Some []\<rparr>)) (\<lambda>_. undoBarrier ''diskio.SyncDir'' ''injected fsync'')) l of
           None \<Rightarrow> None
         | Some (l, Inl e) \<Rightarrow> Some (Inl e)
         | Some (l, Inr _) \<Rightarrow> Some (Inr l))"

section \<open>Sequences of operations\<close>

datatype UndoOp = UAppend UndoRec | UFlush | USync

primrec undoDo :: "sealer \<Rightarrow> UndoOp \<Rightarrow> (ULog, unit) proc" where
  "undoDo seal (UAppend r) = pbind (undoAppend seal r) (\<lambda>_. pret ())"
| "undoDo seal UFlush = flushBufLocked"
| "undoDo seal USync = undoSync"

primrec runUndo :: "sealer \<Rightarrow> UndoOp list \<Rightarrow> (ULog, unit) proc" where
  "runUndo seal [] = pret ()"
| "runUndo seal (x # xs) = pbind (undoDo seal x) (\<lambda>_. runUndo seal xs)"

end
