(* ===== verification/UndoProps.thy ===== *)
theory UndoProps
  imports Undo BTreeWp
begin

text \<open>
  The undo log survives crashes: what was appended before a successful \<open>Sync\<close> is what \<open>Open\<close> reads
  back, whatever part of the unsynced tail is lost or torn. Also the nonces of its records.
\<close>

section \<open>Records\<close>

lemma putB_fields [field_steps]:
  assumes "laid 0 (length b) fs" and "off + 1 \<le> length b"
  shows "putB (putFields b fs) off v = Some (putFields b (fs @ [(off, [v])]))"
  using assms(2) length_putFields [OF assms(1)] by (simp add: putB_def putFields_snoc)

text \<open>Fields without gaps that fill the buffer are the buffer.\<close>

fun contig :: "nat \<Rightarrow> nat \<Rightarrow> (nat \<times> 'a list) list \<Rightarrow> bool" where
  "contig lo n [] \<longleftrightarrow> lo = n"
| "contig lo n ((off, v) # fs) \<longleftrightarrow> off = lo \<and> contig (lo + length v) n fs"

lemma contig_le: "contig lo n fs \<Longrightarrow> lo \<le> n"
  by (induction lo n fs rule: contig.induct) auto

lemma putFields_contig: "contig lo (length b) fs \<Longrightarrow> putFields b fs = take lo b @ concat (map snd fs)"
proof (induction fs arbitrary: lo b)
  case (Cons f fs)
  obtain off v where f: "f = (off, v)" by (cases f)
  have c: "off = lo" "contig (lo + length v) (length b) fs" using Cons.prems by (simp_all add: f)
  have l: "lo + length v \<le> length b" by (rule contig_le [OF c(2)])
  then have "putFields (blit b lo v) fs = take (lo + length v) (blit b lo v) @ concat (map snd fs)"
    using c(2) by (intro Cons.IH) simp
  then show ?case using c(1) l by (simp add: f putFields_Cons blit_def)
qed (simp add: putFields_def)

definition recBytes :: "UndoRec \<Rightarrow> bytes" where
  "recBytes r = le_bytes 8 (unat (uTxn r)) @ le_bytes 8 (unat (uPrev r)) @ [uKind r] @ le_bytes 8 (unat (uPageID r)) @
     le_bytes 2 (unat (word_of_nat (length (uKey r)) :: u16)) @ le_bytes 2 (unat (word_of_nat (length (vPayload (uOld r))) :: u16)) @
     le_bytes 8 (unat (vXmin (uOld r))) @ le_bytes 8 (unat (vXmax (uOld r))) @ le_bytes 8 (unat (vUndo (uOld r))) @
     uKey r @ vPayload (uOld r)"

lemma encodeRecord_eq: "encodeRecord r = Some (recBytes r)"
proof -
  let ?n = "53 + length (uKey r) + length (vPayload (uOld r))"
  let ?fs = "[(0, le_bytes 8 (unat (uTxn r))), (8, le_bytes 8 (unat (uPrev r))), (16, [uKind r]), (17, le_bytes 8 (unat (uPageID r))),
    (25, le_bytes 2 (unat (word_of_nat (length (uKey r)) :: u16))), (27, le_bytes 2 (unat (word_of_nat (length (vPayload (uOld r))) :: u16))),
    (29, le_bytes 8 (unat (vXmin (uOld r)))), (37, le_bytes 8 (unat (vXmax (uOld r)))), (45, le_bytes 8 (unat (vUndo (uOld r)))),
    (53, uKey r), (53 + length (uKey r), vPayload (uOld r))]"
  have "encodeRecord r = Some (putFields (replicate ?n 0) ?fs)" by (simp add: encodeRecord_def field_steps)
  also have "putFields (replicate ?n 0) ?fs = recBytes r" by (subst putFields_contig [of 0]) (simp_all add: recBytes_def)
  finally show ?thesis .
qed

lemma length_recBytes [simp]: "length (recBytes r) = 53 + length (uKey r) + length (vPayload (uOld r))"
  by (simp add: recBytes_def)

lemma slice_Cons: "0 < off \<Longrightarrow> slice (x # b) off n = slice b (off - 1) n"
  by (cases off) (simp_all add: slice_def)

definition recOK :: "UndoRec \<Rightarrow> bool" where
  "recOK r \<longleftrightarrow> length (uKey r) + length (vPayload (uOld r)) \<le> 16315 \<and> uKind r \<in> {KindInsert, KindUpdate, KindDelete}"

lemma decodeRecord_bytes:
  assumes "recOK r"
  shows "decodeRecord (uID r) (recBytes r) = Some (Inr r)"
proof -
  have u: "unat (word_of_nat (length (uKey r)) :: u16) = length (uKey r)"
    "unat (word_of_nat (length (vPayload (uOld r))) :: u16) = length (vPayload (uOld r))"
    using assms by (simp_all add: recOK_def unat_of_nat)
  have k: "\<not> uKind r < KindInsert" "\<not> KindDelete < uKind r" using assms by (auto simp: recOK_def kind_defs)
  have rd: "U16 (recBytes r) 25 = Some (word_of_nat (length (uKey r)))" "U16 (recBytes r) 27 = Some (word_of_nat (length (vPayload (uOld r))))"
    "getB (recBytes r) 16 = Some (uKind r)" "U64 (recBytes r) 0 = Some (uTxn r)" "U64 (recBytes r) 8 = Some (uPrev r)"
    "U64 (recBytes r) 17 = Some (uPageID r)" "U64 (recBytes r) 29 = Some (vXmin (uOld r))" "U64 (recBytes r) 37 = Some (vXmax (uOld r))"
    "U64 (recBytes r) 45 = Some (vUndo (uOld r))"
    by (simp_all add: recBytes_def U16_def U64_def slice_append_left slice_append_right slice_Cons getB_def nth_append del: unsigned_of_nat)
  have "recBytes r = take 53 (recBytes r) @ uKey r @ vPayload (uOld r)" by (simp add: recBytes_def)
  then have tl: "drop 53 (recBytes r) = uKey r @ vPayload (uOld r)" by (metis append_take_drop_id same_append_eq)
  then have "slice (recBytes r) 53 (length (uKey r)) = uKey r" "drop (53 + length (uKey r)) (recBytes r) = vPayload (uOld r)"
    by (simp_all add: slice_def add.commute [of 53] flip: drop_drop)
  then show ?thesis using k rd unfolding decodeRecord_def by (simp add: u goSlice_def del: unsigned_of_nat)
qed

section \<open>Sealed records\<close>

definition framed :: "sealer \<Rightarrow> DEK \<Rightarrow> UndoRec \<Rightarrow> bytes \<Rightarrow> bytes \<Rightarrow> bool" where
  "framed seal d r hdr ct \<longleftrightarrow> length hdr = 40 \<and> U32 hdr 0 = Some 0x4455534E \<and> U16 hdr 4 = Some 1 \<and> U64 hdr 12 = Some (uID r) \<and>
     U32 hdr 20 = Some (word_of_nat (length ct)) \<and> checksumVerify hdr 36 = Some (Inr ()) \<and>
     (\<exists>aad n. goSlice hdr 0 20 = Some aad \<and> goSlice hdr 24 36 = Some n \<and> length n = 12 \<and> ct = seal (dKey d) n (recBytes r) aad)"

lemma sealRecord_framed:
  assumes d: "dSuite d = CipherAES256GCM" and g: "gen \<noteq> 0"
  obtains hdr ct where "sealRecord seal (Some d) gen r = Some (Inr (hdr @ ct))" "framed seal d r hdr ct"
proof -
  let ?fs = "[(0, le_bytes 4 (unat (0x4455534E :: u32))), (4, le_bytes 2 (unat (1 :: u16))), (6, le_bytes 2 (unat (dSuite d))),
    (8, le_bytes 4 (unat (dVersion d))), (12, le_bytes 8 (unat (uID r)))]"
  define h where "h = putFields (replicate 40 0) ?fs"
  have lh: "length h = 40" unfolding h_def by (subst length_putFields [of 0]) simp_all
  have sh: "sealHeader d (uID r) = Some h" by (simp add: sealHeader_def h_def field_steps)
  let ?n = "le_bytes 8 (unat gen) @ le_bytes 4 (unat (dVersion d))"
  let ?aad = "slice h 0 20"
  define ct where "ct = seal (dKey d) ?n (recBytes r) ?aad"
  let ?gs = "[(20, le_bytes 4 (unat (word_of_nat (length ct) :: u32))), (24, ?n)]"
  define h2 where "h2 = putFields h ?gs"
  have l2: "length h2 = 40" unfolding h2_def using lh by (subst length_putFields [of 0]) simp_all
  obtain h3 where h3: "checksumWrite h2 36 = Some h3" using checksumWrite_some [of 36 h2] l2 by auto
  note rd = checksumWrite_reads [OF h3]
  have p: "PutU32 h 20 (word_of_nat (length ct)) = Some (putFields h [hd ?gs])" "copyRange (putFields h [hd ?gs]) 24 36 ?n = Some h2"
    using lh by (simp_all add: PutU32_def putFields_def h2_def copyRange_def)
  have "sealRecord seal (Some d) gen r = Some (Inr (h3 @ ct))"
    using d g sh lh p h3 by (simp add: sealRecord_def encodeRecord_eq goSlice_def SealBytes_def makeNonce_eq ct_def [symmetric])
  moreover have "framed seal d r h3 ct" unfolding framed_def
  proof (intro conjI exI)
    have s0: "slice h3 off k = slice h off k" if "off + k \<le> 20" for off k
      using that rd(2) [of off k] l2 slice_putFields_below [of 20 h ?gs off k] lh by (simp add: h2_def)
    have s1: "slice h3 20 4 = le_bytes 4 (unat (word_of_nat (length ct) :: u32))" "slice h3 24 12 = ?n"
      using rd(2) [of 20 4] rd(2) [of 24 12] l2 slice_putFields [of 0 h ?gs 20 "le_bytes 4 (unat (word_of_nat (length ct) :: u32))"]
        slice_putFields [of 0 h ?gs 24 ?n] lh by (simp_all add: h2_def del: unsigned_of_nat)
    have f: "slice h off (length v) = v" if "(off, v) \<in> set ?fs" for off v
      unfolding h_def by (rule slice_putFields [of 0]) (use that in simp_all)
    show l3: "length h3 = 40" using rd(1) l2 by simp
    show "U32 h3 0 = Some 0x4455534E" "U16 h3 4 = Some 1" "U64 h3 12 = Some (uID r)"
      using s0 f [of 0 "le_bytes 4 (unat (0x4455534E :: u32))"] f [of 4 "le_bytes 2 (unat (1 :: u16))"] f [of 12 "le_bytes 8 (unat (uID r))"] l3
      by (simp_all add: U32_def U16_def U64_def del: unsigned_numeral unsigned_1)
    show "U32 h3 20 = Some (word_of_nat (length ct))" using s1(1) l3 by (simp add: U32_def del: unsigned_of_nat)
    show "checksumVerify h3 36 = Some (Inr ())" using checksum_write_verify [OF h3] by simp
    show "goSlice h3 0 20 = Some ?aad" "goSlice h3 24 36 = Some ?n" using s0 [of 0 20] s1(2) l3 by (simp_all add: goSlice_def)
    show "length ?n = 12" by simp
    show "ct = seal (dKey d) ?n (recBytes r) ?aad" by (rule ct_def)
  qed
  ultimately show thesis by (rule that)
qed

definition sealed :: "sealer \<Rightarrow> DEK \<Rightarrow> UndoRec \<Rightarrow> bytes \<Rightarrow> bool" where
  "sealed seal d r bs \<longleftrightarrow> recOK r \<and> (\<exists>hdr ct. bs = hdr @ ct \<and> framed seal d r hdr ct)"

definition install :: "ULog \<Rightarrow> UndoRec \<Rightarrow> ULog" where
  "install l r = l\<lparr>ulRecs := (ulRecs l)(uID r \<mapsto> r), ulByTxn := (ulByTxn l)(uTxn r := uID r),
     ulNextID := (if uID r \<ge> ulNextID l then uID r + 1 else ulNextID l)\<rparr>"

lemma sealed_len:
  assumes "recOK r" and "framed seal d r hdr ct" and law: "aead_law seal opn"
  shows "length ct = length (recBytes r) + 16" "unat (word_of_nat (length ct) :: u32) = length ct" "16 \<le> length ct" "length ct \<le> 16384"
proof -
  show l: "length ct = length (recBytes r) + 16" using assms(2) law by (auto simp: framed_def aead_law_def)
  then show "16 \<le> length ct" "length ct \<le> 16384" using assms(1) by (auto simp: recOK_def)
  then show "unat (word_of_nat (length ct) :: u32) = length ct" by (intro unat_len32) simp
qed

lemma replay_step:
  assumes "sealed seal d r bs" and dek: "ulDek l = Some d" and law: "aead_law seal opn" and suite: "dSuite d = CipherAES256GCM"
  shows "replayRecords opn (bs @ rest) end l = replayRecords opn rest (end + length bs) (install l r)"
proof -
  obtain hdr ct where b: "bs = hdr @ ct" "framed seal d r hdr ct" and ok: "recOK r" using assms(1) by (auto simp: sealed_def)
  obtain aad n where f: "length hdr = 40" "U32 hdr 0 = Some 0x4455534E" "U16 hdr 4 = Some 1" "U64 hdr 12 = Some (uID r)"
     "U32 hdr 20 = Some (word_of_nat (length ct))" "checksumVerify hdr 36 = Some (Inr ())"
     "goSlice hdr 0 20 = Some aad" "goSlice hdr 24 36 = Some n" "length n = 12" "ct = seal (dKey d) n (recBytes r) aad"
    using b(2) by (auto simp: framed_def)
  note l = sealed_len [OF ok b(2) law]
  have o: "OpenBytes opn (Some d) n aad ct = Some (Inr (recBytes r))" using f(9,10) suite law by (simp add: OpenBytes_def aead_law_def)
  show ?thesis
    by (subst replayRecords.simps)
      (use b(1) f(1-9) l o dek decodeRecord_bytes [OF ok] in \<open>simp add: Let_def install_def add.assoc del: unsigned_of_nat\<close>)
qed

lemma replay_torn:
  assumes "sealed seal d r bs" and "k < length bs" and law: "aead_law seal opn"
  shows "replayRecords opn (take k bs) end l = Some (l, end, Inr ())"
proof (cases "k < 40")
  case False
  obtain hdr ct where b: "bs = hdr @ ct" "framed seal d r hdr ct" and ok: "recOK r" using assms(1) by (auto simp: sealed_def)
  have f: "length hdr = 40" "U32 hdr 0 = Some 0x4455534E" "U16 hdr 4 = Some 1" "U32 hdr 20 = Some (word_of_nat (length ct))"
    "checksumVerify hdr 36 = Some (Inr ())" using b(2) by (auto simp: framed_def)
  note l = sealed_len [OF ok b(2) law]
  have t: "take 40 (take k bs) = hdr" "length (take k bs) = k" using False f(1) assms(2) b(1) by auto
  have k: "k < 40 + length ct" using assms(2) b(1) f(1) by simp
  show ?thesis by (subst replayRecords.simps) (use t f l k False in \<open>simp add: Let_def del: unsigned_of_nat take_take\<close>)
next
  case True
  then have "length (take k bs) < 40" by simp
  then show ?thesis by (subst replayRecords.simps) (simp only: if_True)
qed

lemma install_dek [simp]: "ulDek (install l r) = ulDek l"
  by (simp add: install_def)

text \<open>A log cut anywhere reads back as its whole records.\<close>

lemma replay_cut:
  assumes "list_all2 (sealed seal d) rs bss" and "ulDek l = Some d" and law: "aead_law seal opn" and suite: "dSuite d = CipherAES256GCM"
  shows "\<exists>n \<le> length rs. replayRecords opn (take k (concat bss)) e l = Some (foldl install l (take n rs), e + length (concat (take n bss)), Inr ()) \<and>
    (\<forall>m \<le> length rs. length (concat (take m bss)) \<le> k \<longrightarrow> m \<le> n)"
  using assms(1,2)
proof (induction rs bss arbitrary: l e k rule: list_all2_induct)
  case Nil
  have "replayRecords opn [] e l = Some (l, e, Inr ())" by (subst replayRecords.simps) simp
  then show ?case by simp
next
  case (Cons r rs bs bss)
  show ?case
  proof (cases "length bs \<le> k")
    case True
    obtain n where n: "n \<le> length rs"
      "replayRecords opn (take (k - length bs) (concat bss)) (e + length bs) (install l r) =
         Some (foldl install (install l r) (take n rs), e + length bs + length (concat (take n bss)), Inr ())"
      "\<forall>m \<le> length rs. length (concat (take m bss)) \<le> k - length bs \<longrightarrow> m \<le> n"
      using Cons.IH [of "install l r" "k - length bs" "e + length bs"] Cons.prems by auto
    have "replayRecords opn (take k (concat (bs # bss))) e l = Some (foldl install l (take (Suc n) (r # rs)), e + length (concat (take (Suc n) (bs # bss))), Inr ())"
      using True n(2) replay_step [OF Cons.hyps(1) Cons.prems law suite, of "take (k - length bs) (concat bss)" e] by (simp add: add.assoc)
    moreover have "m \<le> Suc n" if "m \<le> length (r # rs)" "length (concat (take m (bs # bss))) \<le> k" for m
      using that n(3) by (cases m) auto
    ultimately show ?thesis using n(1) by (intro exI [of _ "Suc n"]) auto
  next
    case False
    then have "replayRecords opn (take k (concat (bs # bss))) e l = Some (l, e, Inr ())"
      using replay_torn [OF Cons.hyps(1) _ law, of k e l] by simp
    moreover have "m \<le> 0" if "length (concat (take m (bs # bss))) \<le> k" for m using that False by (cases m) auto
    ultimately show ?thesis by (intro exI [of _ 0]) auto
  qed
qed

section \<open>Runs of the log\<close>

text \<open>What a log that has not failed looks like: the file followed by the buffer are the records
  appended so far, each sealed under the log's key, and what the last barrier covered is a whole
  number of them.\<close>

definition logged :: "sealer \<Rightarrow> DEK \<Rightarrow> UndoRec list \<Rightarrow> nat \<Rightarrow> ULog \<Rightarrow> bool" where
  "logged seal d rs m l \<longleftrightarrow> ulDek l = Some d \<and> ulSyncErr l = None \<and> (\<exists>f bss. ulFile l = Some f \<and> f @ ulBuf l = concat bss \<and>
     list_all2 (sealed seal d) rs bss \<and> m \<le> length rs \<and> length (concat (take m bss)) \<le> length f \<and>
     (length f < 2 ^ 64 \<longrightarrow> ulWritten l = word_of_nat (length f) \<and> ulSynced l = word_of_nat (length (concat (take m bss)))))"

text \<open>Steps that touch only the control file, the nonces and the pending faults.\<close>

definition aside :: "ULog \<Rightarrow> ULog \<Rightarrow> bool" where
  "aside l l' \<longleftrightarrow> ulDek l' = ulDek l \<and> ulFile l' = ulFile l \<and> ulBuf l' = ulBuf l \<and> ulWritten l' = ulWritten l \<and> ulSynced l' = ulSynced l \<and>
     ulSyncErr l' = ulSyncErr l \<and> ulRecs l' = ulRecs l \<and> ulByTxn l' = ulByTxn l \<and> ulNextID l' = ulNextID l"

lemma aside_refl [simp]: "aside l l"
  by (simp add: aside_def)

lemma aside_trans: "aside a b \<Longrightarrow> aside b c \<Longrightarrow> aside a c"
  by (simp add: aside_def)

lemma takeFault_aside: "takeFault l = (f, l') \<Longrightarrow> aside l l'"
  by (auto simp: takeFault_def aside_def split: list.splits)

lemma undoBarrier_aside: "undoBarrier op msg l = Some (l', r) \<Longrightarrow> aside l l'"
  using takeFault_aside by (auto simp: undoBarrier_def split: prod.splits fault.splits)

lemma undoFsync_aside: "undoFsync op msg l = Some (l', r) \<Longrightarrow> aside l l'"
  by (auto simp: undoFsync_def ptry_def pfail_def pret_def split: option.splits sum.splits dest!: undoBarrier_aside)

lemma writeControl_aside: "writeControlLocked l = Some (l', r) \<Longrightarrow> aside l l'"
  by (auto simp: writeControlLocked_def pbind_def pget_def pgo_def pmodify_def split: option.splits sum.splits
      dest!: undoBarrier_aside undoFsync_aside) (simp_all add: aside_def)

lemma sealRecordLocked_eq:
  assumes "sealRecordLocked seal r l = Some (l', Inr bs)"
  obtains l1 where "aside l l1" "l' = l1\<lparr>ulNonceCur := ulNonceCur l1 + 1\<rparr>" "sealRecord seal (ulDek l1) (ulNonceCur l1) r = Some (Inr bs)"
proof -
  define l0 where "l0 = l\<lparr>ulNonceLim := ulNonceHigh l + undoNonceBatch, ulNonceHigh := ulNonceHigh l + undoNonceBatch\<rparr>"
  obtain l1 where l1: "(if ulNonceCur l > ulNonceLim l then writeControlLocked l0 else Some (l, Inr ())) = Some (l1, Inr ())"
    "l' = l1\<lparr>ulNonceCur := ulNonceCur l1 + 1\<rparr>" "sealRecord seal (ulDek l1) (ulNonceCur l1) r = Some (Inr bs)"
    using assms(1) by (auto simp: sealRecordLocked_def pbind_def pget_def pmodify_def pgo_def pret_def l0_def split: option.splits sum.splits if_splits)
  have "aside l l0" by (simp add: aside_def l0_def)
  then have "aside l l1" using l1(1) writeControl_aside [of l0 l1] aside_trans by (auto split: if_splits)
  then show thesis using that l1(2,3) by blast
qed

lemma sealRecordLocked_aside: "sealRecordLocked seal r l = Some (l', Inr bs) \<Longrightarrow> aside l l'"
  by (erule sealRecordLocked_eq) (simp add: aside_def)

lemma sealRecordLocked_run:
  assumes "sealRecordLocked seal r l = Some (l', Inr bs)" and "ulDek l = Some d" and "dSuite d = CipherAES256GCM" and "recOK r"
  shows "sealed seal d r bs \<and> aside l l'"
proof -
  obtain l1 where l1: "aside l l1" "sealRecord seal (ulDek l1) (ulNonceCur l1) r = Some (Inr bs)" by (rule sealRecordLocked_eq [OF assms(1)])
  have dk: "ulDek l1 = Some d" using assms(2) l1(1) by (simp add: aside_def)
  have g: "ulNonceCur l1 \<noteq> 0"
  proof
    assume "ulNonceCur l1 = 0"
    then show False using l1(2) dk assms(3) by (auto simp: sealRecord_def SealBytes_def encodeRecord_eq sealHeader_def go_defs goSlice_def)
  qed
  obtain hdr ct where "sealRecord seal (Some d) (ulNonceCur l1) r = Some (Inr (hdr @ ct))" "framed seal d r hdr ct"
    by (rule sealRecord_framed [OF assms(3) g])
  then have "sealed seal d r bs" using l1(2) dk assms(4) unfolding sealed_def by auto
  then show ?thesis using sealRecordLocked_aside [OF assms(1)] by blast
qed

lemma logged_aside: "logged seal d rs m l \<Longrightarrow> aside l l' \<Longrightarrow> logged seal d rs m l'"
  by (simp add: logged_def aside_def)

lemma flush_logged:
  assumes l: "logged seal d rs m l" and r: "flushBufLocked l = Some (l', Inr ())"
  shows "logged seal d rs m l' \<and> ulBuf l' = [] \<and> ulRecs l' = ulRecs l \<and> ulByTxn l' = ulByTxn l \<and> ulNextID l' = ulNextID l"
proof -
  obtain f bss where f: "ulDek l = Some d" "ulSyncErr l = None" "ulFile l = Some f" "f @ ulBuf l = concat bss" "list_all2 (sealed seal d) rs bss"
    "m \<le> length rs" "length (concat (take m bss)) \<le> length f"
    "length f < 2 ^ 64 \<longrightarrow> ulWritten l = word_of_nat (length f) \<and> ulSynced l = word_of_nat (length (concat (take m bss)))"
    using l by (auto simp: logged_def)
  show ?thesis
  proof (cases "ulBuf l = []")
    case True
    then show ?thesis using l r f(2) by (auto simp: flushBufLocked_def)
  next
    case False
    obtain l1 where t: "takeFault l = (NoFault, l1)" "l' = l1\<lparr>ulFile := Some (f @ ulBuf l), ulWritten := ulWritten l1 + word_of_nat (length (ulBuf l)), ulBuf := []\<rparr>"
      using r f(2,3) False takeFault_aside
      by (auto simp: flushBufLocked_def undoWrite_def aside_def Let_def split: prod.splits fault.splits option.splits if_splits)
    note s = takeFault_aside [OF t(1), unfolded aside_def]
    note c = f(4) [symmetric]
    have "logged seal d rs m l'" unfolding logged_def
      using s f(1-3,5-8) t(2) by (intro conjI exI [of _ "f @ ulBuf l"] exI [of _ bss]) (auto simp: c)
    then show ?thesis using t(2) s by simp
  qed
qed

lemma write_logged:
  assumes l: "logged seal d rs m l" and d: "dSuite d = CipherAES256GCM" "recOK r" and w: "writeRecordLocked seal r l = Some (l', Inr ())"
  shows "logged seal d (rs @ [r]) m l' \<and> ulRecs l' = ulRecs l \<and> ulByTxn l' = ulByTxn l \<and> ulNextID l' = ulNextID l"
proof -
  obtain l1 bs where s: "sealRecordLocked seal r l = Some (l1, Inr bs)"
    "(let l2 = l1\<lparr>ulBuf := ulBuf l1 @ bs\<rparr> in if length (ulBuf l2) \<ge> 65536 then flushBufLocked l2 else Some (l2, Inr ())) = Some (l', Inr ())"
    using w by (auto simp: writeRecordLocked_def pbind_def pmodify_def pget_def pret_def Let_def split: option.splits sum.splits if_splits)
  have k: "sealed seal d r bs" "aside l l1" using sealRecordLocked_run [OF s(1) _ d] l by (auto simp: logged_def)
  let ?l2 = "l1\<lparr>ulBuf := ulBuf l1 @ bs\<rparr>"
  have "logged seal d rs m l1" by (rule logged_aside [OF l k(2)])
  then obtain f bss where f: "ulDek l1 = Some d" "ulSyncErr l1 = None" "ulFile l1 = Some f" "f @ ulBuf l1 = concat bss" "list_all2 (sealed seal d) rs bss"
    "m \<le> length rs" "length (concat (take m bss)) \<le> length f"
    "length f < 2 ^ 64 \<longrightarrow> ulWritten l1 = word_of_nat (length f) \<and> ulSynced l1 = word_of_nat (length (concat (take m bss)))"
    by (auto simp: logged_def)
  have "length bss = length rs" using f(5) by (simp add: list_all2_lengthD)
  then have "logged seal d (rs @ [r]) m ?l2" unfolding logged_def
    using f k(1) by (intro conjI exI [of _ f] exI [of _ "bss @ [bs]"]) (auto simp: list_all2_appendI)
  then show ?thesis using s(2) flush_logged [of seal d "rs @ [r]" m ?l2 l'] k(2) by (auto simp: aside_def Let_def split: if_splits)
qed

lemma sealed_length: "sealed seal d r bs \<Longrightarrow> aead_law seal opn \<Longrightarrow> length bs \<le> 16424"
  using sealed_len(4) by (force simp: sealed_def framed_def)

lemma concat_sealed: "list_all2 (sealed seal d) rs bss \<Longrightarrow> aead_law seal opn \<Longrightarrow> length (concat bss) \<le> 16424 * length rs"
  by (induction rule: list_all2_induct) (auto dest!: sealed_length)

lemma logged_size:
  assumes "logged seal d rs m l" and "aead_law seal opn" and "length rs < 2 ^ 40"
  shows "\<forall>f. ulFile l = Some f \<longrightarrow> length f < 2 ^ 64"
proof -
  obtain f bss where f: "ulFile l = Some f" "f @ ulBuf l = concat bss" "list_all2 (sealed seal d) rs bss" using assms(1) by (auto simp: logged_def)
  have "length f \<le> length (concat bss)" by (simp flip: f(2))
  then show ?thesis using concat_sealed [OF f(3) assms(2)] f(1) assms(3) by simp
qed

lemma sync_logged:
  assumes l: "logged seal d rs m l" and s: "undoSync l = Some (l', Inr ())" and n: "aead_law seal opn" "length rs < 2 ^ 40"
  shows "logged seal d rs (length rs) l' \<and> ulRecs l' = ulRecs l \<and> ulByTxn l' = ulByTxn l \<and> ulNextID l' = ulNextID l"
proof -
  have nf: "ulFile l \<noteq> None" using l by (auto simp: logged_def)
  then obtain l1 where l1: "flushBufLocked l = Some (l1, Inr ())" using s by (auto simp: undoSync_def pbind_def split: option.splits sum.splits)
  have l2: "ulWritten l1 \<le> ulSynced l1 \<and> l' = l1 \<or> ulWritten l1 > ulSynced l1 \<and> (\<exists>l2. aside l1 l2 \<and> l' = l2\<lparr>ulSynced := ulWritten l1\<rparr>)"
  proof (cases "ulWritten l1 \<le> ulSynced l1")
    case True
    then show ?thesis using s nf l1 by (simp add: undoSync_def pbind_def pget_def pret_def)
  next
    case False
    then obtain l2 where t: "undoBarrier ''diskio.DataSync'' ''injected fdatasync'' l1 = Some (l2, Inr ())"
      "l' = (if ulWritten l1 > ulSynced l2 then l2\<lparr>ulSynced := ulWritten l1\<rparr> else l2)"
      using s nf l1 by (auto simp: undoSync_def pbind_def ptry_def pget_def pmodify_def pfail_def Let_def split: option.splits sum.splits)
    then show ?thesis using undoBarrier_aside [OF t(1)] False by (auto simp: aside_def)
  qed
  note k = flush_logged [OF l l1]
  then obtain f bss where f: "ulDek l1 = Some d" "ulSyncErr l1 = None" "ulFile l1 = Some f" "f = concat bss" "list_all2 (sealed seal d) rs bss"
    "m \<le> length rs" "length (concat (take m bss)) \<le> length f"
    "length f < 2 ^ 64 \<longrightarrow> ulWritten l1 = word_of_nat (length f) \<and> ulSynced l1 = word_of_nat (length (concat (take m bss)))"
    by (auto simp: logged_def)
  have lf: "length f < 2 ^ 64" using logged_size [OF conjunct1 [OF k] n] f(3) by simp
  then have w: "ulWritten l1 = word_of_nat (length f)" "unat (ulWritten l1) = length f" "unat (ulSynced l1) = length (concat (take m bss))"
    using f(7,8) by (simp_all add: unat_of_nat)
  have "length bss = length rs" using f(5) by (simp add: list_all2_lengthD)
  then have full: "take (length rs) bss = bss" by simp
  have "ulSynced l' = word_of_nat (length f)"
    using l2 w f(7) by (auto simp: word_le_nat_alt word_less_nat_alt) (metis le_antisym word_unat_eq_iff)
  then show ?thesis using l2 k f full w(1) unfolding logged_def
    by (auto simp: aside_def intro!: exI [of _ bss])
qed

section \<open>The control file\<close>

lemma undo_control_roundtrip:
  assumes "length (Database (ucIdentity c)) = 16" and "length (File (ucIdentity c)) = 16" and "length (ucWrapped c) < 2 ^ 16"
  obtains b where "encodeUndoControl c = Some b" "readControl b = Some (Inr c)"
proof -
  let ?n = "72 + length (ucWrapped c)"
  let ?fs = "[(0, le_bytes 4 (unat (0x4355534E :: u32))), (4, le_bytes 2 (unat (1 :: u16))), (8, Database (ucIdentity c)), (24, File (ucIdentity c)),
    (40, le_bytes 8 (unat (ucNextID c))), (48, le_bytes 8 (unat (ucNonceHigh c))),
    (56, le_bytes 2 (unat (word_of_nat (length (ucWrapped c)) :: u16))), (72, ucWrapped c)]"
  define h where "h = putFields (replicate ?n 0) ?fs"
  have lh: "length h = ?n" unfolding h_def using assms by (subst length_putFields [of 0]) simp_all
  have u: "unat (word_of_nat (length (ucWrapped c)) :: u16) = length (ucWrapped c)" using assms(3) by (simp add: unat_of_nat)
  obtain t where t: "checksumWrite (take 72 h) 68 = Some t" using checksumWrite_some [of 68 "take 72 h"] lh by auto
  note rd = checksumWrite_reads [OF t]
  have lt: "length t = 72" using rd(1) lh by simp
  have f: "slice h off (length v) = v" if "(off, v) \<in> set ?fs" for off v
    unfolding h_def by (rule slice_putFields [of 0]) (use that assms in simp_all)
  have s: "slice (t @ drop 72 h) off k = slice h off k" if "off + k \<le> 68" for off k
    using that rd(2) [of off k] lt lh by (simp add: slice_append_left) (simp add: slice_def take_drop min_def)
  have e: "encodeUndoControl c = Some (t @ drop 72 h)"
    using t assms unfolding h_def by (simp add: encodeUndoControl_def field_steps)
  have w: "drop 72 h = ucWrapped c" using f [of 72 "ucWrapped c"] lh by (simp add: slice_def)
  have v: "checksumVerify (take 72 (t @ drop 72 h)) 68 = Some (Inr ())" using checksum_write_verify [OF t] lt by simp
  have x: "slice (t @ drop 72 h) 72 (length (ucWrapped c)) = ucWrapped c" using lt w by (simp add: slice_append_right slice_def)
  have y: "U16 (t @ drop 72 h) 56 = Some (word_of_nat (length (ucWrapped c)))"
    using lt lh s f [of 56 "le_bytes 2 (unat (word_of_nat (length (ucWrapped c)) :: u16))"] by (simp add: U16_def del: unsigned_of_nat)
  have "readControl (t @ drop 72 h) = Some (Inr c)"
    using lt lh s f [of 0 "le_bytes 4 (unat (0x4355534E :: u32))"] f [of 4 "le_bytes 2 (unat (1 :: u16))"] f [of 8 "Database (ucIdentity c)"]
      f [of 24 "File (ucIdentity c)"] f [of 40 "le_bytes 8 (unat (ucNextID c))"] f [of 48 "le_bytes 8 (unat (ucNonceHigh c))"] u v x y assms(1,2)
    by (simp add: readControl_def U32_def U16_def [of _ 4] U64_def goSlice_def del: unsigned_numeral unsigned_1 unsigned_of_nat take_append)
  then show thesis using that e by blast
qed

section \<open>Nonces\<close>

text \<open>While nothing fails, the nonces in use stay below the bound the control file records.\<close>

definition nonces :: "Identity \<Rightarrow> nat \<Rightarrow> ULog \<Rightarrow> bool" where
  "nonces idn n l \<longleftrightarrow> ulIdent l = idn \<and> length (Database idn) = 16 \<and> length (File idn) = 16 \<and> length (ulWrapped l) < 2 ^ 16 \<and>
     ulNonceLim l = ulNonceHigh l \<and> ulNonceCur l \<noteq> 0 \<and> unat (ulNonceCur l) \<le> unat (ulNonceHigh l) + 1 \<and> unat (ulNonceHigh l) \<le> 65536 * Suc n \<and>
     (\<exists>i. readControl (ulControl l) = Some (Inr \<lparr>ucIdentity = idn, ucNextID = i, ucNonceHigh = ulNonceHigh l, ucWrapped = ulWrapped l\<rparr>))"

definition still :: "ULog \<Rightarrow> ULog \<Rightarrow> bool" where
  "still l l' \<longleftrightarrow> ulIdent l' = ulIdent l \<and> ulWrapped l' = ulWrapped l \<and> ulNonceCur l' = ulNonceCur l \<and> ulNonceLim l' = ulNonceLim l \<and>
     ulNonceHigh l' = ulNonceHigh l \<and> ulControl l' = ulControl l"

lemma still_trans: "still a b \<Longrightarrow> still b c \<Longrightarrow> still a c"
  by (simp add: still_def)

lemma nonces_still: "nonces idn n l \<Longrightarrow> still l l' \<Longrightarrow> nonces idn n l'"
  by (simp add: nonces_def still_def)

lemma nonces_mono: "nonces idn n l \<Longrightarrow> n \<le> k \<Longrightarrow> nonces idn k l"
  by (auto simp: nonces_def)

lemma takeFault_still: "takeFault l = (f, l') \<Longrightarrow> still l l'"
  by (auto simp: takeFault_def still_def split: list.splits)

lemma undoBarrier_still: "undoBarrier op msg l = Some (l', r) \<Longrightarrow> still l l'"
  using takeFault_still by (auto simp: undoBarrier_def split: prod.splits fault.splits)

lemma undoFsync_still: "undoFsync op msg l = Some (l', r) \<Longrightarrow> still l l'"
  by (auto simp: undoFsync_def ptry_def pfail_def pret_def split: option.splits sum.splits dest!: undoBarrier_still)

lemma undoFsync_nofault: "ulFaults l = [] \<Longrightarrow> undoFsync op msg l = Some (l, Inr ())"
  by (simp add: undoFsync_def ptry_def pret_def undoBarrier_def takeFault_def)

lemma flush_still: "flushBufLocked l = Some (l', r) \<Longrightarrow> still l l'"
  by (auto simp: flushBufLocked_def undoWrite_def Let_def split: option.splits prod.splits fault.splits if_splits dest!: takeFault_still)
    (auto simp: still_def)

lemma sync_still: "undoSync l = Some (l', r) \<Longrightarrow> still l l'"
  by (auto simp: undoSync_def pbind_def ptry_def pget_def pmodify_def pret_def pfail_def Let_def
      split: option.splits sum.splits if_splits dest!: undoBarrier_still flush_still) (auto simp: still_def)

lemma writeControl_reads:
  assumes "writeControlLocked l = Some (l', Inr ())" and "length (Database (ulIdent l)) = 16" "length (File (ulIdent l)) = 16" "length (ulWrapped l) < 2 ^ 16"
  shows "readControl (ulControl l') = Some (Inr \<lparr>ucIdentity = ulIdent l, ucNextID = ulNextID l, ucNonceHigh = ulNonceHigh l, ucWrapped = ulWrapped l\<rparr>) \<and>
    still l (l'\<lparr>ulControl := ulControl l\<rparr>)"
proof -
  let ?c = "\<lparr>ucIdentity = ulIdent l, ucNextID = ulNextID l, ucNonceHigh = ulNonceHigh l, ucWrapped = ulWrapped l\<rparr>"
  obtain b where b: "encodeUndoControl ?c = Some b" "readControl b = Some (Inr ?c)" by (rule undo_control_roundtrip [of ?c]) (use assms(2-4) in simp_all)
  obtain l1 where l1: "undoFsync ''undo.writeControl'' ''sync'' l = Some (l1, Inr ())"
    "undoBarrier ''diskio.SyncDir'' ''injected fsync'' (l1\<lparr>ulControl := b\<rparr>) = Some (l', Inr ())"
    using assms(1) b(1) by (auto simp: writeControlLocked_def pbind_def pget_def pgo_def pmodify_def split: option.splits sum.splits)
  show ?thesis using undoFsync_still [OF l1(1)] undoBarrier_still [OF l1(2)] b(2) by (simp add: still_def)
qed

lemma sealRecordLocked_nonces:
  assumes n: "nonces idn n l" and bound: "65536 * Suc (Suc n) < 2 ^ 64" and s: "sealRecordLocked seal r l = Some (l', Inr bs)"
  shows "nonces idn (Suc n) l'"
proof -
  define l0 where "l0 = l\<lparr>ulNonceLim := ulNonceHigh l + undoNonceBatch, ulNonceHigh := ulNonceHigh l + undoNonceBatch\<rparr>"
  obtain l1 where l1: "(if ulNonceCur l > ulNonceLim l then writeControlLocked l0 else Some (l, Inr ())) = Some (l1, Inr ())"
    "l' = l1\<lparr>ulNonceCur := ulNonceCur l1 + 1\<rparr>"
    using s by (auto simp: sealRecordLocked_def pbind_def pget_def pmodify_def pgo_def pret_def l0_def split: option.splits sum.splits if_splits)
  have nn: "ulNonceLim l = ulNonceHigh l" "unat (ulNonceCur l) \<le> unat (ulNonceHigh l) + 1" "unat (ulNonceHigh l) \<le> 65536 * Suc n"
    using n by (simp_all add: nonces_def)
  have c1: "unat (ulNonceCur l + 1) = unat (ulNonceCur l) + 1" using nn bound by (subst unat_add_lem [THEN iffD1]) simp_all
  then have c0: "ulNonceCur l + 1 \<noteq> 0" by force
  show ?thesis
  proof (cases "ulNonceCur l > ulNonceLim l")
    case True
    then have w: "writeControlLocked l0 = Some (l1, Inr ())" using l1(1) by simp
    have h: "unat (ulNonceHigh l + undoNonceBatch) = unat (ulNonceHigh l) + 65536"
      using nn(3) bound by (subst unat_add_lem [THEN iffD1]) (simp_all add: undoNonceBatch_def)
    have "readControl (ulControl l1) = Some (Inr \<lparr>ucIdentity = ulIdent l0, ucNextID = ulNextID l0, ucNonceHigh = ulNonceHigh l0, ucWrapped = ulWrapped l0\<rparr>) \<and>
      still l0 (l1\<lparr>ulControl := ulControl l0\<rparr>)" by (rule writeControl_reads [OF w]) (use n in \<open>simp_all add: nonces_def l0_def\<close>)
    then show ?thesis using n l1(2) nn h c1 c0 by (simp add: nonces_def still_def l0_def)
  next
    case False
    then have "unat (ulNonceCur l) \<le> unat (ulNonceHigh l)" using nn(1) by (simp add: word_le_nat_alt not_less)
    then show ?thesis using False l1 n c1 c0 by (simp add: nonces_def)
  qed
qed

lemma write_nonces:
  assumes n: "nonces idn n l" and bound: "65536 * Suc (Suc n) < 2 ^ 64" and w: "writeRecordLocked seal r l = Some (l', Inr ())"
  shows "nonces idn (Suc n) l'"
proof -
  obtain l1 bs where s: "sealRecordLocked seal r l = Some (l1, Inr bs)" "still l1 l'"
    using w flush_still by (fastforce simp: writeRecordLocked_def pbind_def pmodify_def pget_def pret_def still_def split: option.splits sum.splits if_splits)
  show ?thesis by (rule nonces_still [OF sealRecordLocked_nonces [OF n bound s(1)] s(2)])
qed

section \<open>What survives a crash\<close>

definition recsOf :: "UndoRec list \<Rightarrow> (UndoID \<rightharpoonup> UndoRec)" where
  "recsOf rs = foldl (\<lambda>m r. m(uID r \<mapsto> r)) Map.empty rs"

definition headsOf :: "UndoRec list \<Rightarrow> TxnID \<Rightarrow> UndoID" where
  "headsOf rs = foldl (\<lambda>h r. h(uTxn r := uID r)) (\<lambda>_. 0) rs"

definition numbered :: "UndoRec list \<Rightarrow> bool" where
  "numbered rs \<longleftrightarrow> (\<forall>i < length rs. uID (rs ! i) = word_of_nat (Suc i)) \<and> length rs < 2 ^ 40"

lemma foldl_install:
  "ulRecs (foldl install l rs) = foldl (\<lambda>m r. m(uID r \<mapsto> r)) (ulRecs l) rs" "ulByTxn (foldl install l rs) = foldl (\<lambda>h r. h(uTxn r := uID r)) (ulByTxn l) rs"
  "ulDek (foldl install l rs) = ulDek l" "still l (foldl install l rs)" "ulFaults (foldl install l rs) = ulFaults l"
  by (induction rs arbitrary: l) (auto simp: install_def still_def)

lemma recsOf_snoc [simp]: "recsOf [] = Map.empty" "recsOf (rs @ [r]) = (recsOf rs)(uID r \<mapsto> r)"
  by (simp_all add: recsOf_def)

lemma headsOf_snoc [simp]: "headsOf [] = (\<lambda>_. 0)" "headsOf (rs @ [r]) = (headsOf rs)(uTxn r := uID r)"
  by (simp_all add: headsOf_def)

lemma numbered_unat: "numbered rs \<Longrightarrow> i < length rs \<Longrightarrow> unat (uID (rs ! i)) = Suc i"
  by (simp add: numbered_def unat_of_nat del: of_nat_Suc)

lemma numbered_take: "numbered rs \<Longrightarrow> numbered (take n rs)"
  by (auto simp: numbered_def)

lemma recsOf_numbered: "numbered rs \<Longrightarrow> recsOf rs u = Some r \<longleftrightarrow> (\<exists>i < length rs. rs ! i = r \<and> uID r = u)"
proof (induction rs rule: rev_induct)
  case (snoc x rs)
  have n: "numbered rs" using numbered_take [OF snoc.prems, of "length rs"] by simp
  have x: "unat (uID x) = Suc (length rs)" using numbered_unat [OF snoc.prems, of "length rs"] by simp
  have d: "uID (rs ! i) \<noteq> uID x" if "i < length rs" for i using numbered_unat [OF n that] x that by auto
  show ?case using snoc.IH [OF n] d by (auto simp: nth_append less_Suc_eq)
qed simp

lemma recsOf_prefix: "numbered rs \<Longrightarrow> k \<le> n \<Longrightarrow> recsOf (take k rs) u = Some r \<Longrightarrow> recsOf (take n rs) u = Some r"
  using recsOf_numbered [OF numbered_take, of rs k u r] recsOf_numbered [OF numbered_take, of rs n u r] by fastforce

lemma headsOf_bound: "numbered rs \<Longrightarrow> unat (headsOf rs t) \<le> length rs"
proof (induction rs rule: rev_induct)
  case (snoc x rs)
  then show ?case using numbered_take [OF snoc.prems, of "length rs"] numbered_unat [OF snoc.prems, of "length rs"] by auto
qed simp

lemma headsOf_prefix:
  assumes "numbered rs" and "k \<le> n"
  shows "headsOf (take k rs) t \<le> headsOf (take n rs) t"
  using assms(2)
proof (induction rule: dec_induct)
  case (step n)
  show ?case
  proof (cases "n < length rs")
    case True
    then have "unat (headsOf (take n rs) t) \<le> n" using headsOf_bound [OF numbered_take [OF assms(1)], of n t] by simp
    moreover have "unat (uID (rs ! n)) = Suc n" by (rule numbered_unat [OF assms(1) True])
    ultimately have "headsOf (take n rs) t \<le> uID (rs ! n)" by (simp add: word_le_nat_alt)
    then show ?thesis using step.IH True by (auto simp: take_Suc_conv_app_nth)
  qed (use step.IH in simp)
qed simp

definition undo_inv :: "sealer \<Rightarrow> DEK \<Rightarrow> Identity \<Rightarrow> UndoRec list \<Rightarrow> nat \<Rightarrow> ULog \<Rightarrow> bool" where
  "undo_inv seal d idn rs m l \<longleftrightarrow> logged seal d rs m l \<and> nonces idn (length rs) l \<and> numbered rs \<and> ulRecs l = recsOf rs \<and> ulByTxn l = headsOf rs \<and>
     ulNextID l = word_of_nat (Suc (length rs))"

lemma undoAppend_eq:
  assumes "ulFile l \<noteq> None" and "q = r\<lparr>uID := ulNextID l, uPrev := (if uPrev r = 0 then ulByTxn l (uTxn r) else uPrev r)\<rparr>"
  shows "undoAppend seal r l = (case writeRecordLocked seal q (l\<lparr>ulNextID := ulNextID l + 1\<rparr>) of
      None \<Rightarrow> None
    | Some (l1, Inl e) \<Rightarrow> Some (l1\<lparr>ulNextID := ulNextID l\<rparr>, Inl e)
    | Some (l1, Inr _) \<Rightarrow> Some (l1\<lparr>ulRecs := (ulRecs l1)(ulNextID l \<mapsto> q), ulByTxn := (ulByTxn l1)(uTxn r := ulNextID l)\<rparr>, Inr (ulNextID l)))"
  unfolding assms(2) using assms(1)
  by (cases "uPrev r = 0") (auto simp: undoAppend_def pbind_def ptry_def pget_def pmodify_def pret_def pfail_def split: option.splits sum.splits)

lemma append_inv:
  assumes inv: "undo_inv seal d idn rs m l" and d: "dSuite d = CipherAES256GCM" "recOK r" and n: "Suc (length rs) < 2 ^ 40"
    and a: "undoAppend seal r l = Some (l', Inr u)"
  shows "\<exists>p. undo_inv seal d idn (rs @ [r\<lparr>uID := u, uPrev := p\<rparr>]) m l'"
proof -
  define q where "q = r\<lparr>uID := ulNextID l, uPrev := (if uPrev r = 0 then ulByTxn l (uTxn r) else uPrev r)\<rparr>"
  define l0 where "l0 = l\<lparr>ulNextID := ulNextID l + 1\<rparr>"
  obtain l1 where l1: "writeRecordLocked seal q l0 = Some (l1, Inr ())" "u = ulNextID l"
    "l' = l1\<lparr>ulRecs := (ulRecs l1)(u \<mapsto> q), ulByTxn := (ulByTxn l1)(uTxn q := u)\<rparr>"
    using a undoAppend_eq [OF _ q_def] inv by (auto simp: undo_inv_def logged_def l0_def q_def split: option.splits sum.splits)
  have i: "logged seal d rs m l0" "nonces idn (length rs) l0" using inv by (simp_all add: undo_inv_def logged_def nonces_def l0_def)
  have q: "recOK q" "uID q = ulNextID l" using d(2) by (simp_all add: recOK_def q_def)
  have w: "logged seal d (rs @ [q]) m l1 \<and> ulRecs l1 = ulRecs l0 \<and> ulByTxn l1 = ulByTxn l0 \<and> ulNextID l1 = ulNextID l0"
    by (rule write_logged [OF i(1) d(1) q(1) l1(1)])
  have x: "nonces idn (Suc (length rs)) l1" by (rule write_nonces [OF i(2) _ l1(1)]) (use n in simp)
  have "numbered (rs @ [q])" using inv q(2) n by (auto simp: undo_inv_def numbered_def nth_append less_Suc_eq)
  then have "undo_inv seal d idn (rs @ [q]) m l'" using w x l1(2,3) inv q(2)
    by (simp add: undo_inv_def logged_def nonces_def l0_def)
  then show ?thesis unfolding q_def using l1(2) by auto
qed

lemma undoDo_inv:
  assumes inv: "undo_inv seal d idn rs m l" and d: "dSuite d = CipherAES256GCM" "aead_law seal opn" and n: "Suc (length rs) < 2 ^ 40"
    and a: "undoDo seal x l = Some (l', Inr ())" and ok: "\<And>r. x = UAppend r \<Longrightarrow> recOK r"
  obtains rs' k where "undo_inv seal d idn (rs @ rs') k l'" "m \<le> k" "length rs' \<le> 1"
proof (cases x)
  case (UAppend r)
  then obtain u where "undoAppend seal r l = Some (l', Inr u)" using a by (auto simp: pbind_def pret_def split: option.splits sum.splits)
  then obtain p where "undo_inv seal d idn (rs @ [r\<lparr>uID := u, uPrev := p\<rparr>]) m l'" using append_inv [OF inv d(1) ok [OF UAppend] n] by blast
  then show thesis by (rule that) simp_all
next
  case UFlush
  have "logged seal d rs m l" using inv by (simp add: undo_inv_def)
  note k = flush_logged [OF this] flush_still
  have "undo_inv seal d idn (rs @ []) m l'" using k a UFlush inv nonces_still by (auto simp: undo_inv_def)
  then show thesis by (rule that) simp_all
next
  case USync
  have "logged seal d rs m l" "length rs < 2 ^ 40" using inv by (simp_all add: undo_inv_def numbered_def)
  note k = sync_logged [OF this(1) _ d(2) this(2)] sync_still
  have "undo_inv seal d idn (rs @ []) (length rs) l'" using k a USync inv nonces_still by (auto simp: undo_inv_def)
  then show thesis by (rule that) (use inv in \<open>auto simp: undo_inv_def logged_def\<close>)
qed

definition opOK :: "UndoOp \<Rightarrow> bool" where
  "opOK x = (case x of UAppend r \<Rightarrow> recOK r | _ \<Rightarrow> True)"

lemma runUndo_inv:
  assumes "undo_inv seal d idn rs m l" and d: "dSuite d = CipherAES256GCM" "aead_law seal opn" and "length rs + length xs < 2 ^ 40"
    and "runUndo seal xs l = Some (l', Inr ())" and "list_all opOK xs"
  shows "\<exists>rs' k. undo_inv seal d idn (rs @ rs') k l' \<and> m \<le> k \<and> length rs' \<le> length xs"
  using assms(1,4-6)
proof (induction xs arbitrary: rs m l)
  case Nil
  then have "undo_inv seal d idn (rs @ []) m l'" by (simp add: pret_def)
  then show ?case by fastforce
next
  case (Cons x xs)
  obtain l1 where l1: "undoDo seal x l = Some (l1, Inr ())" "runUndo seal xs l1 = Some (l', Inr ())"
    using Cons.prems(3) by (auto simp: pbind_def split: option.splits sum.splits)
  obtain rs1 k where s: "undo_inv seal d idn (rs @ rs1) k l1" "m \<le> k" "length rs1 \<le> 1"
    by (rule undoDo_inv [OF Cons.prems(1) d _ l1(1)]) (use Cons.prems(2,4) in \<open>auto simp: opOK_def\<close>)
  obtain rs2 k' where "undo_inv seal d idn ((rs @ rs1) @ rs2) k' l'" "k \<le> k'" "length rs2 \<le> length xs"
    using Cons.IH [OF s(1) _ l1(2)] Cons.prems(2,4) s(3) by auto
  then show ?case using s(2,3) by (intro exI [of _ "rs1 @ rs2"] exI [of _ k']) simp
qed

lemma undoCreate_inv:
  assumes "undoCreate d wrapped ident fs = Some (Inr l)" and "length (Database ident) = 16" "length (File ident) = 16" "length wrapped < 2 ^ 16"
  shows "undo_inv seal d ident [] 0 l"
proof -
  define l0 where "l0 = \<lparr>ulIdent = ident, ulDek = Some d, ulWrapped = wrapped, ulNextID = 1, ulNonceCur = 1, ulNonceLim = undoNonceBatch,
        ulNonceHigh = undoNonceBatch, ulFile = None, ulControl = [], ulRecs = Map.empty, ulByTxn = (\<lambda>_. 0), ulBuf = [], ulWritten = 0,
        ulSynced = 0, ulSyncErr = None, ulFaults = fs\<rparr>"
  obtain l1 where l1: "writeControlLocked l0 = Some (l1, Inr ())"
    "undoBarrier ''diskio.SyncDir'' ''injected fsync'' (l1\<lparr>ulFile := Some []\<rparr>) = Some (l, Inr ())"
    using assms(1) unfolding undoCreate_def l0_def [symmetric] Let_def by (auto simp: pbind_def pmodify_def split: option.splits sum.splits)
  have r: "readControl (ulControl l1) = Some (Inr \<lparr>ucIdentity = ulIdent l0, ucNextID = ulNextID l0, ucNonceHigh = ulNonceHigh l0, ucWrapped = ulWrapped l0\<rparr>) \<and>
      still l0 (l1\<lparr>ulControl := ulControl l0\<rparr>)" by (rule writeControl_reads [OF l1(1)]) (use assms(2-4) in \<open>simp_all add: l0_def\<close>)
  note k = writeControl_aside [OF l1(1)] undoBarrier_aside [OF l1(2)] undoBarrier_still [OF l1(2)]
  show ?thesis using r k assms(2-4)
    by (simp add: undo_inv_def logged_def nonces_def numbered_def aside_def still_def l0_def undoNonceBatch_def)
qed

lemma control_nofault:
  assumes "ulFaults l = []" and "length (Database (ulIdent l)) = 16" "length (File (ulIdent l)) = 16" "length (ulWrapped l) < 2 ^ 16"
  obtains b where "writeControlLocked l = Some (l\<lparr>ulControl := b\<rparr>, Inr ())"
proof -
  let ?c = "\<lparr>ucIdentity = ulIdent l, ucNextID = ulNextID l, ucNonceHigh = ulNonceHigh l, ucWrapped = ulWrapped l\<rparr>"
  obtain b where b: "encodeUndoControl ?c = Some b" by (rule undo_control_roundtrip [of ?c]) (use assms(2-4) in simp_all)
  then show thesis using assms(1) by (intro that [of b])
    (simp add: writeControlLocked_def pbind_def pget_def pgo_def pmodify_def undoFsync_nofault undoBarrier_def takeFault_def)
qed

lemma undoReplay_nofault:
  assumes "ulFile l = Some f" and "replayRecords opn f 0 l = Some (l', n, Inr ())" and "ulFaults l' = []"
  obtains l3 where "undoReplay opn l = Some (l3, Inr ())" "ulRecs l3 = ulRecs l'" "ulByTxn l3 = ulByTxn l'" "ulNonceCur l3 = ulNonceCur l'"
  by (rule that [of "(if n < length f then l'\<lparr>ulFile := Some (take n f)\<rparr> else l')\<lparr>ulWritten := word_of_nat n, ulSynced := word_of_nat n\<rparr>"])
    (use assms in \<open>auto simp: undoReplay_def pbind_def pmodify_def pret_def undoFsync_nofault\<close>)

lemma undoOpen_recovers:
  assumes inv: "undo_inv seal d idn rs m l" and law: "aead_law seal opn" and suite: "dSuite d = CipherAES256GCM" and f: "ulFile l = Some f"
    and k: "unat (ulSynced l) \<le> k"
  obtains n l' where "undoOpen opn (Inr d) (ulIdent l) (ulControl l) (Some (take k f)) [] = Some (Inr l')" "m \<le> n" "n \<le> length rs"
    "ulRecs l' = recsOf (take n rs)" "ulByTxn l' = headsOf (take n rs)" "ulNonceCur l \<le> ulNonceCur l'"
proof -
  obtain i where c: "readControl (ulControl l) = Some (Inr \<lparr>ucIdentity = ulIdent l, ucNextID = i, ucNonceHigh = ulNonceHigh l, ucWrapped = ulWrapped l\<rparr>)"
    and sz: "length (Database (ulIdent l)) = 16" "length (File (ulIdent l)) = 16" "length (ulWrapped l) < 2 ^ 16"
    and nc: "unat (ulNonceCur l) \<le> unat (ulNonceHigh l) + 1" "unat (ulNonceHigh l) \<le> 65536 * Suc (length rs)"
    using inv by (auto simp: undo_inv_def nonces_def)
  obtain bss where b: "f @ ulBuf l = concat bss" "list_all2 (sealed seal d) rs bss" "m \<le> length rs" "length (concat (take m bss)) \<le> length f"
    "length f < 2 ^ 64 \<Longrightarrow> ulSynced l = word_of_nat (length (concat (take m bss)))"
    using inv f by (auto simp: undo_inv_def logged_def)
  have num: "length rs < 2 ^ 40" using inv by (simp add: undo_inv_def numbered_def)
  have lf: "length f < 2 ^ 64" using logged_size [OF _ law num, of d m l] inv f by (simp add: undo_inv_def)
  define l0 where "l0 = \<lparr>ulIdent = ulIdent l, ulDek = Some d, ulWrapped = ulWrapped l, ulNextID = (if i = 0 then 1 else i),
             ulNonceCur = ulNonceHigh l + 1, ulNonceLim = ulNonceHigh l + 1 + undoNonceBatch - 1, ulNonceHigh = ulNonceHigh l + 1 + undoNonceBatch - 1,
             ulFile = Some (take k f), ulControl = ulControl l, ulRecs = Map.empty, ulByTxn = (\<lambda>_. 0), ulBuf = [], ulWritten = 0, ulSynced = 0,
             ulSyncErr = None, ulFaults = []\<rparr>"
  obtain b' where w: "writeControlLocked l0 = Some (l0\<lparr>ulControl := b'\<rparr>, Inr ())" by (rule control_nofault [of l0]) (use sz in \<open>simp_all add: l0_def\<close>)
  let ?l1 = "l0\<lparr>ulControl := b'\<rparr>"
  have cut: "take k f = take (min k (length f)) (concat bss)" by (simp flip: b(1) add: min_def)
  obtain n where n: "n \<le> length rs" "replayRecords opn (take k f) 0 ?l1 = Some (foldl install ?l1 (take n rs), length (concat (take n bss)), Inr ())"
    "\<forall>m \<le> length rs. length (concat (take m bss)) \<le> min k (length f) \<longrightarrow> m \<le> n"
    using replay_cut [OF b(2) _ law suite, of ?l1 "min k (length f)" 0] unfolding cut [symmetric] by (auto simp: l0_def)
  have "length (concat (take m bss)) \<le> k" using k b(5) [OF lf] b(4) lf by (simp add: unat_of_nat)
  then have mn: "m \<le> n" using n(3) b(3,4) by simp
  let ?l2 = "foldl install ?l1 (take n rs)"
  note q = foldl_install [of ?l1 "take n rs"]
  obtain l3 where l3: "undoReplay opn ?l1 = Some (l3, Inr ())" "ulRecs l3 = ulRecs ?l2" "ulByTxn l3 = ulByTxn ?l2" "ulNonceCur l3 = ulNonceCur ?l2"
    by (rule undoReplay_nofault [OF _ n(2)]) (use q(5) in \<open>simp_all add: l0_def\<close>)
  have "undoOpen opn (Inr d) (ulIdent l) (ulControl l) (Some (take k f)) [] = (case pbind writeControlLocked (\<lambda>_. undoReplay opn) l0 of
      None \<Rightarrow> None | Some (l, Inl e) \<Rightarrow> Some (Inl e) | Some (l, Inr _) \<Rightarrow> Some (Inr l))"
    using c by (simp add: undoOpen_def Let_def l0_def)
  then have o: "undoOpen opn (Inr d) (ulIdent l) (ulControl l) (Some (take k f)) [] = Some (Inr l3)" using w l3(1) by (simp add: pbind_def)
  have "unat (ulNonceHigh l + 1) = unat (ulNonceHigh l) + 1" using nc(2) num by (subst unat_add_lem [THEN iffD1]) simp_all
  then have "ulNonceCur l \<le> ulNonceCur l3" using l3(4) q(4) nc(1) by (simp add: still_def l0_def word_le_nat_alt)
  then show thesis using that [OF o mn n(1)] l3 q(1,2) by (simp add: recsOf_def headsOf_def l0_def)
qed

section \<open>A log without I/O errors\<close>

lemma create_nofault:
  assumes "length (Database idn) = 16" "length (File idn) = 16" "length wrapped < 2 ^ 16"
  obtains l where "undoCreate d wrapped idn [] = Some (Inr l)" "ulFaults l = []"
proof -
  define l0 where "l0 = \<lparr>ulIdent = idn, ulDek = Some d, ulWrapped = wrapped, ulNextID = 1, ulNonceCur = 1, ulNonceLim = undoNonceBatch,
        ulNonceHigh = undoNonceBatch, ulFile = None, ulControl = [], ulRecs = Map.empty, ulByTxn = (\<lambda>_. 0), ulBuf = [], ulWritten = 0,
        ulSynced = 0, ulSyncErr = None, ulFaults = []\<rparr>"
  obtain b where "writeControlLocked l0 = Some (l0\<lparr>ulControl := b\<rparr>, Inr ())" by (rule control_nofault [of l0]) (use assms in \<open>simp_all add: l0_def\<close>)
  then show thesis unfolding undoCreate_def l0_def [symmetric] Let_def
    by (intro that [of "l0\<lparr>ulControl := b, ulFile := Some []\<rparr>"]) (simp_all add: undoCreate_def l0_def [symmetric] pbind_def pmodify_def undoBarrier_def takeFault_def, simp_all add: l0_def)
qed

lemma flush_nofault:
  assumes "ulSyncErr l = None" and "ulFaults l = []"
  obtains l' where "flushBufLocked l = Some (l', Inr ())" "ulFaults l' = []"
  using assms by (cases "ulFile l = None \<or> ulBuf l = []") (auto simp: flushBufLocked_def undoWrite_def takeFault_def Let_def intro: that)

lemma sync_nofault:
  assumes l: "logged seal d rs m l" and f: "ulFaults l = []"
  obtains l' where "undoSync l = Some (l', Inr ())" "ulFaults l' = []"
proof -
  have e: "ulSyncErr l = None" "ulFile l \<noteq> None" using l by (auto simp: logged_def)
  obtain l1 where l1: "flushBufLocked l = Some (l1, Inr ())" "ulFaults l1 = []" by (rule flush_nofault [OF e(1) f])
  show thesis
    by (rule that [of "if ulWritten l1 \<le> ulSynced l1 then l1 else l1\<lparr>ulSynced := ulWritten l1\<rparr>"])
      (use l1 e(2) in \<open>auto simp: undoSync_def pbind_def ptry_def pget_def pmodify_def pret_def undoBarrier_def takeFault_def\<close>)
qed

lemma seal_nofault:
  assumes n: "nonces idn n l" and f: "ulFaults l = []" and d: "ulDek l = Some d" "dSuite d = CipherAES256GCM"
  obtains l' bs where "sealRecordLocked seal r l = Some (l', Inr bs)" "ulFaults l' = []"
proof -
  define l0 where "l0 = l\<lparr>ulNonceLim := ulNonceHigh l + undoNonceBatch, ulNonceHigh := ulNonceHigh l + undoNonceBatch\<rparr>"
  obtain b where b: "writeControlLocked l0 = Some (l0\<lparr>ulControl := b\<rparr>, Inr ())"
    by (rule control_nofault [of l0]) (use n f in \<open>simp_all add: l0_def nonces_def\<close>)
  have g: "ulNonceCur l \<noteq> 0" using n by (simp add: nonces_def)
  obtain hdr ct where c: "sealRecord seal (Some d) (ulNonceCur l) r = Some (Inr (hdr @ ct))" by (rule sealRecord_framed [OF d(2) g])
  show thesis
    by (rule that [of "(if ulNonceCur l > ulNonceLim l then l0\<lparr>ulControl := b\<rparr> else l)\<lparr>ulNonceCur := ulNonceCur l + 1\<rparr>" "hdr @ ct"])
      (use b c d(1) f in \<open>simp_all add: sealRecordLocked_def pbind_def pget_def pmodify_def pgo_def pret_def l0_def\<close>)
qed

lemma append_nofault:
  assumes inv: "undo_inv seal d idn rs m l" and f: "ulFaults l = []" and d: "dSuite d = CipherAES256GCM" "aead_law seal opn"
  obtains l' u where "undoAppend seal r l = Some (l', Inr u)" "ulFaults l' = []"
proof -
  define q where "q = r\<lparr>uID := ulNextID l, uPrev := (if uPrev r = 0 then ulByTxn l (uTxn r) else uPrev r)\<rparr>"
  define l0 where "l0 = l\<lparr>ulNextID := ulNextID l + 1\<rparr>"
  have n: "nonces idn (length rs) l0" "ulDek l0 = Some d" "ulFaults l0 = []" "ulFile l \<noteq> None" "ulSyncErr l = None"
    using inv f by (auto simp: undo_inv_def nonces_def logged_def l0_def)
  obtain l1 bs where l1: "sealRecordLocked seal q l0 = Some (l1, Inr bs)" "ulFaults l1 = []" by (rule seal_nofault [OF n(1,3,2) d(1)])
  have "ulSyncErr l1 = None" using sealRecordLocked_aside [OF l1(1)] n(5) by (simp add: aside_def l0_def)
  then obtain l2 where l2: "flushBufLocked (l1\<lparr>ulBuf := ulBuf l1 @ bs\<rparr>) = Some (l2, Inr ())" "ulFaults l2 = []"
    using flush_nofault [of "l1\<lparr>ulBuf := ulBuf l1 @ bs\<rparr>"] l1(2) by auto
  let ?l3 = "if length (ulBuf l1 @ bs) \<ge> 65536 then l2 else l1\<lparr>ulBuf := ulBuf l1 @ bs\<rparr>"
  have "writeRecordLocked seal q l0 = Some (?l3, Inr ())" using l1 l2 by (simp add: writeRecordLocked_def pbind_def pget_def pmodify_def pret_def)
  then have "undoAppend seal r l = Some (?l3\<lparr>ulRecs := (ulRecs ?l3)(ulNextID l \<mapsto> q), ulByTxn := (ulByTxn ?l3)(uTxn r := ulNextID l)\<rparr>, Inr (ulNextID l))"
    using undoAppend_eq [OF n(4) q_def] by (simp add: l0_def)
  then show thesis by (rule that) (use l1(2) l2(2) in simp)
qed

lemma undoDo_nofault:
  assumes inv: "undo_inv seal d idn rs m l" and f: "ulFaults l = []" and d: "dSuite d = CipherAES256GCM" "aead_law seal opn"
  obtains l' where "undoDo seal x l = Some (l', Inr ())" "ulFaults l' = []"
proof (cases x)
  case (UAppend r)
  obtain l' u where "undoAppend seal r l = Some (l', Inr u)" "ulFaults l' = []" by (rule append_nofault [OF inv f d])
  then show thesis using UAppend by (intro that [of l']) (simp_all add: pbind_def pret_def)
next
  case UFlush
  obtain l' where "flushBufLocked l = Some (l', Inr ())" "ulFaults l' = []"
    by (rule flush_nofault) (use inv f in \<open>auto simp: undo_inv_def logged_def\<close>)
  then show thesis using UFlush by (intro that [of l']) simp_all
next
  case USync
  obtain l' where "undoSync l = Some (l', Inr ())" "ulFaults l' = []"
    by (rule sync_nofault [OF _ f]) (use inv in \<open>auto simp: undo_inv_def\<close>)
  then show thesis using USync by (intro that [of l']) simp_all
qed

lemma runUndo_nofault:
  assumes "undo_inv seal d idn rs m l" and "ulFaults l = []" and d: "dSuite d = CipherAES256GCM" "aead_law seal opn"
    and "length rs + length xs < 2 ^ 40" and "list_all opOK xs"
  shows "\<exists>l' rs' k. runUndo seal xs l = Some (l', Inr ()) \<and> ulFaults l' = [] \<and> undo_inv seal d idn rs' k l' \<and> length rs' \<le> length rs + length xs"
  using assms(1,2,5,6)
proof (induction xs arbitrary: rs m l)
  case Nil
  then show ?case by (auto simp: pret_def)
next
  case (Cons x xs)
  obtain l1 where l1: "undoDo seal x l = Some (l1, Inr ())" "ulFaults l1 = []" by (rule undoDo_nofault [OF Cons.prems(1,2) d])
  obtain rs1 k where s: "undo_inv seal d idn (rs @ rs1) k l1" "length rs1 \<le> 1"
    by (rule undoDo_inv [OF Cons.prems(1) d _ l1(1)]) (use Cons.prems(3,4) in \<open>auto simp: opOK_def\<close>)
  then obtain l' rs' k' where "runUndo seal xs l1 = Some (l', Inr ())" "ulFaults l' = []" "undo_inv seal d idn rs' k' l'" "length rs' \<le> length (rs @ rs1) + length xs"
    using Cons.IH [OF s(1) l1(2)] Cons.prems(3,4) by auto
  then show ?case using l1(1) s(2) by (auto simp: pbind_def)
qed

text \<open>C4: What an undo log knows when \<open>Sync\<close> returns survives every later crash. Take a log created
  without errors, run any sequence of successful appends, flushes and syncs, call \<open>Sync\<close>, and run
  any further such sequence. Cut the log file at any point at or after the synced length, as a power
  failure does. Opening what is left then succeeds: every record the log held at the \<open>Sync\<close> is read
  back unchanged, no transaction's newest record is older than it was, and no nonce used before the
  crash will be used again.\<close>

theorem undo_log_durable:
  assumes "aead_law seal opn" and "dSuite d = CipherAES256GCM"
    and "length (Database ident) = 16" "length (File ident) = 16" "length wrapped < 2 ^ 16"
    and "undoCreate d wrapped ident fs = Some (Inr l0)" and "runUndo seal xs l0 = Some (l1, Inr ())" and "undoSync l1 = Some (l2, Inr ())"
    and "runUndo seal ys l2 = Some (l3, Inr ())" and "list_all opOK (xs @ ys)" and "length (xs @ ys) < 2 ^ 40"
    and "ulFile l3 = Some f" and "unat (ulSynced l3) \<le> k"
  shows "\<exists>l4. undoOpen opn (Inr d) ident (ulControl l3) (Some (take k f)) [] = Some (Inr l4) \<and>
    (\<forall>u r. undoGet l2 u = Inr r \<longrightarrow> undoGet l4 u = Inr r) \<and> (\<forall>t. undoHead l2 t \<le> undoHead l4 t) \<and> ulNonceCur l3 \<le> ulNonceCur l4"
proof -
  note d = assms(2,1)
  obtain rs m where r1: "undo_inv seal d ident rs m l1" "length rs \<le> length xs"
    using runUndo_inv [OF undoCreate_inv [OF assms(6,3-5)] d _ assms(7)] assms(10,11) by auto
  have r2: "undo_inv seal d ident rs (length rs) l2"
    using sync_logged [OF _ assms(8) assms(1), of d rs m] sync_still [OF assms(8)] nonces_still r1(1) by (auto simp: undo_inv_def numbered_def)
  obtain rs3 n where r3: "undo_inv seal d ident (rs @ rs3) n l3" "length rs \<le> n"
    using runUndo_inv [OF r2 d _ assms(9)] assms(10,11) r1(2) by auto
  have id: "ulIdent l3 = ident" using r3(1) by (simp add: undo_inv_def nonces_def)
  obtain n' l4 where o: "undoOpen opn (Inr d) (ulIdent l3) (ulControl l3) (Some (take k f)) [] = Some (Inr l4)" "n \<le> n'"
    "ulRecs l4 = recsOf (take n' (rs @ rs3))" "ulByTxn l4 = headsOf (take n' (rs @ rs3))" "ulNonceCur l3 \<le> ulNonceCur l4"
    by (rule undoOpen_recovers [OF r3(1) assms(1,2,12,13)])
  have p: "rs = take (length rs) (rs @ rs3)" "numbered (rs @ rs3)" "length rs \<le> n'" using r3 o(2) by (simp_all add: undo_inv_def)
  have "recsOf rs u = Some r \<Longrightarrow> ulRecs l4 u = Some r" for u r using recsOf_prefix [OF p(2,3)] p(1) o(3) by simp
  moreover have "headsOf rs t \<le> ulByTxn l4 t" for t using headsOf_prefix [OF p(2,3)] p(1) o(4) by simp
  ultimately show ?thesis using o(1,5) r2 unfolding id
    by (auto simp: undoGet_def undoHead_def undo_inv_def split: option.splits)
qed

definition dek1 :: DEK where "dek1 = \<lparr>dVersion = 1, dSuite = CipherAES256GCM, dKey = []\<rparr>"

definition ident1 :: Identity where "ident1 = \<lparr>Database = replicate 16 1, File = replicate 16 2\<rparr>"

definition undoRec1 :: UndoRec where
  "undoRec1 = \<lparr>uID = 0, uTxn = 7, uPrev = 0, uKind = KindUpdate, uPageID = 3, uKey = [1, 2], uOld = \<lparr>vXmin = 5, vXmax = 0, vUndo = 0, vPayload = [9, 9, 9]\<rparr>\<rparr>"

theorem undo_log_durable_witness:
  "\<exists>l0 l1 l2 l3 l4 f r. undoCreate dek1 [4, 4] ident1 [] = Some (Inr l0) \<and> runUndo tagSeal [UAppend undoRec1] l0 = Some (l1, Inr ()) \<and>
     undoSync l1 = Some (l2, Inr ()) \<and> runUndo tagSeal [UAppend undoRec1, UFlush] l2 = Some (l3, Inr ()) \<and> ulFile l3 = Some f \<and>
     undoOpen tagOpen (Inr dek1) ident1 (ulControl l3) (Some (take (unat (ulSynced l3)) f)) [] = Some (Inr l4) \<and>
     undoGet l2 1 = Inr r \<and> undoGet l4 1 = Inr r"
proof -
  have d: "dSuite dek1 = CipherAES256GCM" "aead_law tagSeal tagOpen" "length (Database ident1) = 16" "length (File ident1) = 16" "length [4, 4 :: byte] < 2 ^ 16"
    by (simp_all add: dek1_def ident1_def tag_law)
  have ok: "list_all opOK ([UAppend undoRec1] @ [UAppend undoRec1, UFlush])" by (simp add: opOK_def recOK_def undoRec1_def)
  obtain l0 where t0: "undoCreate dek1 [4, 4] ident1 [] = Some (Inr l0)" "ulFaults l0 = []" by (rule create_nofault [OF d(3-5)])
  have i0: "undo_inv tagSeal dek1 ident1 [] 0 l0" by (rule undoCreate_inv [OF t0(1) d(3-5)])
  obtain a1 u where a1: "undoAppend tagSeal undoRec1 l0 = Some (a1, Inr u)" "ulFaults a1 = []" by (rule append_nofault [OF i0 t0(2) d(1,2)])
  obtain p where i1: "undo_inv tagSeal dek1 ident1 [undoRec1\<lparr>uID := u, uPrev := p\<rparr>] 0 a1" (is "undo_inv _ _ _ [?q] _ _")
    using append_inv [OF i0 d(1) _ _ a1(1)] ok by (auto simp: opOK_def)
  have t1: "runUndo tagSeal [UAppend undoRec1] l0 = Some (a1, Inr ())" using a1(1) by (simp add: pbind_def pret_def)
  obtain l2 where t2: "undoSync a1 = Some (l2, Inr ())" "ulFaults l2 = []" by (rule sync_nofault [OF _ a1(2)]) (use i1 in \<open>auto simp: undo_inv_def\<close>)
  have i2: "undo_inv tagSeal dek1 ident1 [?q] 1 l2"
    using sync_logged [OF _ t2(1) d(2), of dek1 "[?q]" 0] sync_still [OF t2(1)] nonces_still i1 by (auto simp: undo_inv_def)
  obtain l3 rs3 k3 where t3: "runUndo tagSeal [UAppend undoRec1, UFlush] l2 = Some (l3, Inr ())" "undo_inv tagSeal dek1 ident1 rs3 k3 l3"
    using runUndo_nofault [OF i2 t2(2) d(1,2), of "[UAppend undoRec1, UFlush]"] ok by auto
  obtain f where f: "ulFile l3 = Some f" using t3(2) by (auto simp: undo_inv_def logged_def)
  have "undoGet l2 1 = Inr ?q" using i2 by (auto simp: undo_inv_def undoGet_def numbered_def recsOf_def)
  then show ?thesis
    using undo_log_durable [OF d(2,1,3-5) t0(1) t1 t2(1) t3(1) ok _ f order.refl] t0(1) t1 t2(1) t3(1) f by auto
qed

section \<open>A nonce used twice\<close>

lemma append_plain:
  assumes "ulNonceCur l \<le> ulNonceLim l" and "ulNonceCur l \<noteq> 0" and "ulFile l = Some f" "ulBuf l = []" and d: "ulDek l = Some d" "dSuite d = CipherAES256GCM"
    and r: "recOK r" and law: "aead_law seal opn"
  obtains l' p bs where "undoAppend seal r l = Some (l', Inr (ulNextID l))" "ulBuf l' = bs" "ulControl l' = ulControl l"
    "sealRecord seal (Some d) (ulNonceCur l) (r\<lparr>uID := ulNextID l, uPrev := p\<rparr>) = Some (Inr bs)"
proof -
  define p where "p = (if uPrev r = 0 then ulByTxn l (uTxn r) else uPrev r)"
  define q where "q = r\<lparr>uID := ulNextID l, uPrev := p\<rparr>"
  have q: "recOK q" using r by (simp add: recOK_def q_def)
  obtain hdr ct where b: "sealRecord seal (Some d) (ulNonceCur l) q = Some (Inr (hdr @ ct))" "framed seal d q hdr ct"
    by (rule sealRecord_framed [OF d(2) assms(2)])
  have "sealed seal d q (hdr @ ct)" using q b(2) by (auto simp: sealed_def)
  then have "length (hdr @ ct) < 65536" using sealed_length [OF _ law] by fastforce
  then have "writeRecordLocked seal q (l\<lparr>ulNextID := ulNextID l + 1\<rparr>) =
      Some (l\<lparr>ulNextID := ulNextID l + 1, ulNonceCur := ulNonceCur l + 1, ulBuf := hdr @ ct\<rparr>, Inr ())"
    using leD [OF assms(1)] assms(4) d(1) b(1) by (simp add: writeRecordLocked_def sealRecordLocked_def pbind_def pget_def pmodify_def pgo_def pret_def)
  then have "undoAppend seal r l = Some (l\<lparr>ulNextID := ulNextID l + 1, ulNonceCur := ulNonceCur l + 1, ulBuf := hdr @ ct,
      ulRecs := (ulRecs l)(ulNextID l \<mapsto> q), ulByTxn := (ulByTxn l)(uTxn r := ulNextID l)\<rparr>, Inr (ulNextID l))"
    using assms(3) undoAppend_eq [of l q r seal] by (simp add: q_def p_def)
  then show thesis using that b(1) by (fastforce simp: q_def)
qed

definition undisturbed :: "ULog \<Rightarrow> ULog \<Rightarrow> bool" where
  "undisturbed l l' \<longleftrightarrow> still l l' \<and> ulDek l' = ulDek l \<and> ulBuf l' = ulBuf l \<and> ulFile l' = ulFile l"

lemma case_sum_Some: "(case s of Inl a \<Rightarrow> f a | Inr b \<Rightarrow> g b) = Some z \<longleftrightarrow> (\<exists>a. s = Inl a \<and> f a = Some z) \<or> (\<exists>b. s = Inr b \<and> g b = Some z)"
  by (cases s) simp_all

lemma replay_cases:
  assumes "replayRecords opn rest e l = Some (l', n, x)" and "l' \<noteq> l"
  obtains k e' l1 where "0 < k" "k \<le> length rest" "replayRecords opn (drop k rest) e' l1 = Some (l', n, x)" "undisturbed l l1"
proof -
  obtain cl e' l1 where "\<not> length rest < 40 + unat (cl :: u32)" "replayRecords opn (drop (40 + unat cl) rest) e' l1 = Some (l', n, x)" "undisturbed l l1"
    using assms unfolding replayRecords.simps [of opn rest e l] Let_def
    by (auto simp: bind_eq_Some_conv case_sum_Some undisturbed_def still_def split: if_split_asm)
  then show thesis by (intro that [of "40 + unat cl" e' l1]) simp_all
qed

lemma replay_keeps: "replayRecords opn rest e l = Some (l', n, x) \<Longrightarrow> undisturbed l l'"
proof (induction "length rest" arbitrary: rest e l rule: less_induct)
  case less
  show ?case
  proof (cases "l' = l")
    case False
    obtain k e' l1 where k: "0 < k" "k \<le> length rest" and r: "replayRecords opn (drop k rest) e' l1 = Some (l', n, x)" and u: "undisturbed l l1"
      by (rule replay_cases [OF less.prems False])
    have "undisturbed l1 l'" by (rule less.hyps [OF _ r]) (use k in simp)
    then show ?thesis using u by (simp add: undisturbed_def still_def)
  qed (simp add: undisturbed_def still_def)
qed

lemma undoReplay_keeps:
  assumes "undoReplay opn l = Some (l', x)"
  shows "still l l' \<and> ulDek l' = ulDek l \<and> ulBuf l' = ulBuf l \<and> (ulFile l' = None \<longleftrightarrow> ulFile l = None)"
proof -
  obtain f where f: "ulFile l = Some f" using assms by (auto simp: undoReplay_def split: option.splits)
  obtain l1 n y where r: "replayRecords opn f 0 l = Some (l1, n, y)" using assms f by (auto simp: undoReplay_def split: option.splits)
  note k = replay_keeps [OF r, unfolded undisturbed_def]
  show ?thesis
  proof (cases "isl y \<or> \<not> n < length f")
    case True
    then show ?thesis using assms f r k by (auto simp: undoReplay_def pbind_def pmodify_def pret_def still_def split: sum.splits)
  next
    case False
    then obtain l2 z where l2: "undoFsync ''undo.Open'' ''sync torn-tail truncation'' (l1\<lparr>ulFile := Some (take n f)\<rparr>) = Some (l2, z)"
      "l' = (if isl z then l2 else l2\<lparr>ulWritten := word_of_nat n, ulSynced := word_of_nat n\<rparr>)"
      using assms f r by (auto simp: undoReplay_def pbind_def pmodify_def isl_def split: sum.splits option.splits)
    show ?thesis using undoFsync_still [OF l2(1)] undoFsync_aside [OF l2(1)] l2(2) k f by (auto simp: still_def aside_def)
  qed
qed

lemma undoOpen_nonce:
  assumes "undoOpen opn (Inr d) idn ctl file [] = Some (Inr l)" and "readControl ctl = Some (Inr c)"
  shows "ulNonceCur l = ucNonceHigh c + 1 \<and> ulNonceLim l = ucNonceHigh c + undoNonceBatch \<and> ulDek l = Some d \<and> ulBuf l = [] \<and> ulFile l \<noteq> None"
proof -
  define l0 where "l0 = \<lparr>ulIdent = idn, ulDek = Some d, ulWrapped = ucWrapped c, ulNextID = (if ucNextID c = 0 then 1 else ucNextID c),
             ulNonceCur = ucNonceHigh c + 1, ulNonceLim = ucNonceHigh c + 1 + undoNonceBatch - 1, ulNonceHigh = ucNonceHigh c + 1 + undoNonceBatch - 1,
             ulFile = Some (case file of None \<Rightarrow> [] | Some f \<Rightarrow> f), ulControl = ctl, ulRecs = Map.empty, ulByTxn = (\<lambda>_. 0), ulBuf = [], ulWritten = 0,
             ulSynced = 0, ulSyncErr = None, ulFaults = []\<rparr>"
  have "(case pbind writeControlLocked (\<lambda>_. undoReplay opn) l0 of
      None \<Rightarrow> None | Some (l, Inl e) \<Rightarrow> Some (Inl e) | Some (l, Inr _) \<Rightarrow> Some (Inr l)) = Some (Inr l)"
    using assms by (simp add: undoOpen_def Let_def l0_def split: if_splits)
  then obtain l1 where l1: "writeControlLocked l0 = Some (l1, Inr ())" "undoReplay opn l1 = Some (l, Inr ())"
    by (auto simp: pbind_def split: option.splits sum.splits)
  obtain b where "l1 = l0\<lparr>ulControl := b\<rparr>"
    using l1(1) by (auto simp: writeControlLocked_def pbind_def pget_def pgo_def pmodify_def undoFsync_def ptry_def pret_def undoBarrier_def takeFault_def l0_def split: option.splits)
  then have "ulNonceCur l1 = ucNonceHigh c + 1" "ulNonceLim l1 = ucNonceHigh c + undoNonceBatch" "ulDek l1 = Some d" "ulBuf l1 = []" "ulFile l1 \<noteq> None"
    by (auto simp: l0_def)
  then show ?thesis using undoReplay_keeps [OF l1(2)] by (simp add: still_def)
qed

lemma undoOpen_empty:
  assumes "readControl ctl = Some (Inr c)" and "length (Database (ucIdentity c)) = 16" "length (File (ucIdentity c)) = 16" "length (ucWrapped c) < 2 ^ 16"
  obtains l where "undoOpen opn (Inr d) (ucIdentity c) ctl (Some []) [] = Some (Inr l)"
proof -
  define l0 where "l0 = \<lparr>ulIdent = ucIdentity c, ulDek = Some d, ulWrapped = ucWrapped c, ulNextID = (if ucNextID c = 0 then 1 else ucNextID c),
             ulNonceCur = ucNonceHigh c + 1, ulNonceLim = ucNonceHigh c + 1 + undoNonceBatch - 1, ulNonceHigh = ucNonceHigh c + 1 + undoNonceBatch - 1,
             ulFile = Some [], ulControl = ctl, ulRecs = Map.empty, ulByTxn = (\<lambda>_. 0), ulBuf = [], ulWritten = 0, ulSynced = 0, ulSyncErr = None, ulFaults = []\<rparr>"
  have e: "undoOpen opn (Inr d) (ucIdentity c) ctl (Some []) [] = (case pbind writeControlLocked (\<lambda>_. undoReplay opn) l0 of
      None \<Rightarrow> None | Some (l, Inl e) \<Rightarrow> Some (Inl e) | Some (l, Inr _) \<Rightarrow> Some (Inr l))"
    using assms(1) by (simp add: undoOpen_def Let_def l0_def)
  obtain b where b: "writeControlLocked l0 = Some (l0\<lparr>ulControl := b\<rparr>, Inr ())" by (rule control_nofault [of l0]) (use assms(2-4) in \<open>simp_all add: l0_def\<close>)
  have "replayRecords opn [] 0 l = Some (l, 0, Inr ())" for l by (subst replayRecords.simps) simp
  then obtain l3 where "undoReplay opn (l0\<lparr>ulControl := b\<rparr>) = Some (l3, Inr ())"
    using undoReplay_nofault [of "l0\<lparr>ulControl := b\<rparr>" "[]" opn "l0\<lparr>ulControl := b\<rparr>" 0] by (auto simp: l0_def)
  then show thesis using that e b by (simp add: pbind_def)
qed

text \<open>C39: A nonce can be used twice under one key. Let a log have used up its reserved nonces, and let
  the control file's sync fail while \<open>Append\<close> reserves the next batch. That append reports the
  error, but keeps the new limit in memory. The next append succeeds and seals its record with the
  first nonce above the bound on disk. A log opened from that control file after a crash starts at
  that same nonce, and its first append seals another record with it.\<close>

theorem undo_nonce_reuse:
  assumes "nonces idn n l" and "65536 * Suc (Suc n) < 2 ^ 64" and "ulNonceCur l = ulNonceHigh l + 1" and "ulFaults l = [Fails e k]"
    and "ulFile l = Some f" "ulBuf l = []" "ulDek l = Some d" "dSuite d = CipherAES256GCM" and "aead_law seal opn"
    and "recOK q" "recOK r" "recOK s" and "undoOpen opn (Inr d) idn (ulControl l) file [] = Some (Inr l4)"
  shows "\<exists>l1 err l2 u q' l5 v s'. undoAppend seal r l = Some (l1, Inl err) \<and> undoAppend seal q l1 = Some (l2, Inr u) \<and>
    ulControl l2 = ulControl l \<and> sealRecord seal (Some d) (ulNonceHigh l + 1) q' = Some (Inr (ulBuf l2)) \<and> uKey q' = uKey q \<and>
    undoAppend seal s l4 = Some (l5, Inr v) \<and> sealRecord seal (Some d) (ulNonceHigh l + 1) s' = Some (Inr (ulBuf l5)) \<and> uKey s' = uKey s"
proof -
  have nc: "ulNonceLim l = ulNonceHigh l" "unat (ulNonceHigh l) \<le> 65536 * Suc n" "ulNonceCur l \<noteq> 0" using assms(1) by (simp_all add: nonces_def)
  obtain i where c: "readControl (ulControl l) = Some (Inr \<lparr>ucIdentity = idn, ucNextID = i, ucNonceHigh = ulNonceHigh l, ucWrapped = ulWrapped l\<rparr>)"
    using assms(1) by (auto simp: nonces_def)
  have h: "unat (ulNonceHigh l + 1) = unat (ulNonceHigh l) + 1" "unat (ulNonceHigh l + undoNonceBatch) = unat (ulNonceHigh l) + 65536"
    using nc(2) assms(2) by (simp_all add: unat_add_lem [THEN iffD1] undoNonceBatch_def)
  have le: "\<not> ulNonceCur l \<le> ulNonceLim l" "ulNonceHigh l + 1 \<le> ulNonceHigh l + undoNonceBatch" using h assms(3) nc(1) by (simp_all add: word_le_nat_alt)
  define l0 where "l0 = l\<lparr>ulNextID := ulNextID l + 1, ulNonceLim := ulNonceHigh l + undoNonceBatch, ulNonceHigh := ulNonceHigh l + undoNonceBatch\<rparr>"
  define l1 where "l1 = l0\<lparr>ulFaults := [], ulNextID := ulNextID l\<rparr>"
  obtain b where b: "encodeUndoControl \<lparr>ucIdentity = ulIdent l0, ucNextID = ulNextID l0, ucNonceHigh = ulNonceHigh l0, ucWrapped = ulWrapped l0\<rparr> = Some b"
    (is "encodeUndoControl ?c = _") by (rule undo_control_roundtrip [of ?c]) (use assms(1) in \<open>simp_all add: nonces_def l0_def\<close>)
  have w: "writeControlLocked l0 = Some (l0\<lparr>ulFaults := []\<rparr>, Inl (Wrap IO ''undo.writeControl'' ''sync'' (Wrap IO ''diskio.Sync'' ''injected sync'' e)))"
    using b assms(4) by (simp add: writeControlLocked_def pbind_def pget_def pgo_def undoFsync_def ptry_def undoBarrier_def takeFault_def) (simp add: l0_def pfail_def)
  have "writeRecordLocked seal r' (l\<lparr>ulNextID := ulNextID l + 1\<rparr>) = Some (l0\<lparr>ulFaults := []\<rparr>, Inl (Wrap IO ''undo.writeControl'' ''sync'' (Wrap IO ''diskio.Sync'' ''injected sync'' e)))" for r'
    using w le(1) by (simp add: writeRecordLocked_def sealRecordLocked_def pbind_def pget_def pmodify_def not_le flip: l0_def)
  then have f1: "undoAppend seal r l = Some (l1, Inl (Wrap IO ''undo.writeControl'' ''sync'' (Wrap IO ''diskio.Sync'' ''injected sync'' e)))"
    using undoAppend_eq [OF _ refl, of l seal r] assms(5) by (simp add: l1_def)
  have k1: "ulNonceCur l1 = ulNonceHigh l + 1" "ulNonceLim l1 = ulNonceHigh l + undoNonceBatch" "ulFile l1 = Some f" "ulBuf l1 = []" "ulDek l1 = Some d" "ulControl l1 = ulControl l"
    using assms(3-7) by (simp_all add: l1_def l0_def)
  obtain l2 p bs where f2: "undoAppend seal q l1 = Some (l2, Inr (ulNextID l1))" "ulBuf l2 = bs" "ulControl l2 = ulControl l1"
    "sealRecord seal (Some d) (ulNonceCur l1) (q\<lparr>uID := ulNextID l1, uPrev := p\<rparr>) = Some (Inr bs)"
    by (rule append_plain [OF _ _ k1(3-5) assms(8,10,9)]) (use k1(1,2) le(2) nc(3) assms(3) in simp_all)
  note k4 = undoOpen_nonce [OF assms(13) c]
  then obtain g where g: "ulFile l4 = Some g" by auto
  obtain l5 p' cs where f5: "undoAppend seal s l4 = Some (l5, Inr (ulNextID l4))" "ulBuf l5 = cs"
    "sealRecord seal (Some d) (ulNonceCur l4) (s\<lparr>uID := ulNextID l4, uPrev := p'\<rparr>) = Some (Inr cs)"
    by (rule append_plain [of l4 g d s seal opn]) (use k4 g le(2) nc(3) assms(3,8,9,12) in simp_all)
  show ?thesis using f1 f2 f5 k1(1,6) k4 by fastforce
qed

definition worn :: ULog where
  "worn = \<lparr>ulIdent = ident1, ulDek = Some dek1, ulWrapped = [], ulNextID = 9, ulNonceCur = 65537, ulNonceLim = 65536, ulNonceHigh = 65536, ulFile = Some [],
     ulControl = (case encodeUndoControl \<lparr>ucIdentity = ident1, ucNextID = 1, ucNonceHigh = 65536, ucWrapped = []\<rparr> of None \<Rightarrow> [] | Some b \<Rightarrow> b),
     ulRecs = Map.empty, ulByTxn = (\<lambda>_. 0), ulBuf = [], ulWritten = 0, ulSynced = 0, ulSyncErr = None, ulFaults = [Fails (New IO ''disk'' ''full'') 0]\<rparr>"

theorem undo_nonce_reuse_witness:
  "\<exists>l1 err l2 u q' l4 l5 v s'. undoAppend tagSeal undoRec1 worn = Some (l1, Inl err) \<and> undoAppend tagSeal undoRec1 l1 = Some (l2, Inr u) \<and>
     ulControl l2 = ulControl worn \<and> sealRecord tagSeal (Some dek1) 65537 q' = Some (Inr (ulBuf l2)) \<and>
     undoOpen tagOpen (Inr dek1) ident1 (ulControl worn) (Some []) [] = Some (Inr l4) \<and>
     undoAppend tagSeal undoRec1 l4 = Some (l5, Inr v) \<and> sealRecord tagSeal (Some dek1) 65537 s' = Some (Inr (ulBuf l5))"
proof -
  let ?c = "\<lparr>ucIdentity = ident1, ucNextID = 1, ucNonceHigh = 65536, ucWrapped = []\<rparr>"
  obtain b where b: "encodeUndoControl ?c = Some b" "readControl b = Some (Inr ?c)" by (rule undo_control_roundtrip [of ?c]) (simp_all add: ident1_def)
  have n: "nonces ident1 1 worn" using b by (simp add: nonces_def worn_def) (simp add: ident1_def)
  have w: "(65536 :: nat) * Suc (Suc 1) < 2 ^ 64" "ulNonceCur worn = ulNonceHigh worn + 1" "ulFaults worn = [Fails (New IO ''disk'' ''full'') 0]"
    "ulFile worn = Some []" "ulBuf worn = []" "ulDek worn = Some dek1" "dSuite dek1 = CipherAES256GCM" "recOK undoRec1" "ulControl worn = b" "ulNonceHigh worn = 65536"
    using b by (simp_all add: worn_def dek1_def recOK_def undoRec1_def)
  obtain l4 where o: "undoOpen tagOpen (Inr dek1) ident1 (ulControl worn) (Some []) [] = Some (Inr l4)"
    by (rule undoOpen_empty [of _ ?c, where d = dek1 and opn = tagOpen]) (use b w in \<open>simp_all add: ident1_def\<close>)
  have g: "ulNonceHigh worn + 1 = 65537" by (simp add: w)
  show ?thesis
    using undo_nonce_reuse [OF n w(1-7) tag_law w(8) w(8) w(8) o, unfolded g] o by blast
qed

end
