(* ===== verification/WalUndo.thy ===== *)
theory WalUndo
  imports Undo
begin

text \<open>
  The records of \<open>internal/wal/log.go\<close> that carry an operation: the constructors of logical records
  and the body of an undo record, with its decoder.
\<close>

section \<open>Constructors\<close>

definition plainRec :: Record where
  "plainRec = \<lparr>rType = 0, rFlags = 0, rLSN = 0, rTxnID = 0, rPrevLSN = 0, rPageID = 0, rBody = []\<rparr>"

definition LogicalInsert :: "TxnID \<Rightarrow> LSN \<Rightarrow> bytes \<Rightarrow> bytes \<Rightarrow> Record option" where
  "LogicalInsert txn prev key val = map_option (\<lambda>b. plainRec\<lparr>rType := RecInsert, rTxnID := txn, rPrevLSN := prev, rBody := b\<rparr>) (encodeInsertBody key val)"

definition LogicalDelete :: "TxnID \<Rightarrow> LSN \<Rightarrow> bytes \<Rightarrow> Record option" where
  "LogicalDelete txn prev key = map_option (\<lambda>b. plainRec\<lparr>rType := RecDelete, rTxnID := txn, rPrevLSN := prev, rBody := b\<rparr>) (encodeDeleteBody key)"

definition LogicalUpdate :: "TxnID \<Rightarrow> LSN \<Rightarrow> bytes \<Rightarrow> bytes \<Rightarrow> Record option" where
  "LogicalUpdate txn prev key val = map_option (\<lambda>b. plainRec\<lparr>rType := RecUpdate, rTxnID := txn, rPrevLSN := prev, rBody := b\<rparr>) (encodeInsertBody key val)"

definition BeginRec :: "TxnID \<Rightarrow> Record" where
  "BeginRec txn = plainRec\<lparr>rType := RecBegin, rTxnID := txn\<rparr>"

definition CommitRec :: "TxnID \<Rightarrow> LSN \<Rightarrow> Record" where
  "CommitRec txn prev = plainRec\<lparr>rType := RecCommit, rTxnID := txn, rPrevLSN := prev\<rparr>"

definition AbortRec :: "TxnID \<Rightarrow> LSN \<Rightarrow> Record" where
  "AbortRec txn prev = plainRec\<lparr>rType := RecAbort, rTxnID := txn, rPrevLSN := prev\<rparr>"

section \<open>Undo bodies\<close>

record UndoBody =
  ubID :: UndoID
  ubPrev :: UndoID
  ubKind :: byte
  ubOldXmin :: TxnID
  ubOldXmax :: TxnID
  ubOldUndo :: UndoID
  ubKey :: bytes
  ubOldPayload :: bytes

definition EncodeUndoBody :: "UndoBody \<Rightarrow> bytes option" where
  "EncodeUndoBody ub = do {
     let b = replicate (48 + length (ubKey ub) + length (ubOldPayload ub)) 0;
     b \<leftarrow> putB b 0 2;
     b \<leftarrow> PutU64 b 1 (ubID ub);
     b \<leftarrow> PutU64 b 9 (ubPrev ub);
     b \<leftarrow> putB b 17 (ubKind ub);
     b \<leftarrow> PutU64 b 18 (ubOldXmin ub);
     b \<leftarrow> PutU64 b 26 (ubOldXmax ub);
     b \<leftarrow> PutU64 b 34 (ubOldUndo ub);
     b \<leftarrow> PutU16 b 42 (word_of_nat (length (ubKey ub)));
     b \<leftarrow> PutU32 b 44 (word_of_nat (length (ubOldPayload ub)));
     b \<leftarrow> copyAt b 48 (ubKey ub);
     copyAt b (48 + length (ubKey ub)) (ubOldPayload ub)
   }"

definition DecodeUndoBody :: "bytes \<Rightarrow> UndoBody go" where
  "DecodeUndoBody body =
     (if length body < 11 then Some (Inl (New InvalidFormat ''wal.DecodeUndoBody'' ''truncated undo body''))
      else do {
        v \<leftarrow> getB body 0;
        if v = 2 then
          (if length body < 48 then Some (Inl (New InvalidFormat ''wal.DecodeUndoBody'' ''truncated v2 undo body''))
           else do {
             kl \<leftarrow> U16 body 42;
             pl \<leftarrow> U32 body 44;
             if 48 + unat kl + unat pl \<noteq> length body
             then Some (Inl (New InvalidFormat ''wal.DecodeUndoBody'' ''invalid v2 undo body length''))
             else do {
               i \<leftarrow> U64 body 1;
               prev \<leftarrow> U64 body 9;
               kind \<leftarrow> getB body 17;
               xmin \<leftarrow> U64 body 18;
               xmax \<leftarrow> U64 body 26;
               un \<leftarrow> U64 body 34;
               key \<leftarrow> goSlice body 48 (48 + unat kl);
               Some (Inr \<lparr>ubID = i, ubPrev = prev, ubKind = kind, ubOldXmin = xmin, ubOldXmax = xmax, ubOldUndo = un,
                 ubKey = key, ubOldPayload = drop (48 + unat kl) body\<rparr>)
             }
           })
        else do {
          kl \<leftarrow> U16 body 9;
          if 11 + unat kl \<noteq> length body then Some (Inl (New InvalidFormat ''wal.DecodeUndoBody'' ''invalid undo body length''))
          else do {
            i \<leftarrow> U64 body 0;
            kind \<leftarrow> getB body 8;
            Some (Inr \<lparr>ubID = i, ubPrev = 0, ubKind = kind, ubOldXmin = 0, ubOldXmax = 0, ubOldUndo = 0, ubKey = drop 11 body, ubOldPayload = []\<rparr>)
          }
        }
      })"

definition UndoFlagV2 :: u16 where "UndoFlagV2 = 1"

definition walUndoRec :: "TxnID \<Rightarrow> LSN \<Rightarrow> UndoBody \<Rightarrow> PageID \<Rightarrow> Record option" where
  "walUndoRec txn prev ub pid = map_option (\<lambda>b. plainRec\<lparr>rType := RecUndo, rFlags := UndoFlagV2, rTxnID := txn, rPrevLSN := prev, rPageID := pid,
     rBody := b\<rparr>) (EncodeUndoBody ub)"

end
