(* ===== verification/Mvcc.thy ===== *)
theory Mvcc
  imports WalUndo TxnManager BTreeDelete
begin

text \<open>
  Transactions on a tree: \<open>internal/storage/btree/mvcc.go\<close>, the reading and writing methods of
  \<open>internal/storage/btree/txn.go\<close>, and the operations of \<open>internal/storage/engine.go\<close> they call to
  log and to reverse a change. The state joins the tree, the undo log, the transaction manager and
  the transactions that are open. \<open>None\<close> is a call that does not return: it panics, or it waits for a
  lock and is made again once the lock is granted.
\<close>

section \<open>Visibility\<close>

text \<open>\<open>visiblePayload\<close> and \<open>rowVisible\<close> each walk from a row version to older ones through the undo log.\<close>

partial_function (option) payloadWalk :: "ULog \<Rightarrow> (TxnID \<Rightarrow> Status) \<Rightarrow> Snapshot \<Rightarrow> Version \<Rightarrow> bytes option go" where
  "payloadWalk u st snap ver =
     (if Sees snap (vXmin ver) (Some st)
      then Some (Inr (if vXmax ver = 0 \<or> \<not> Sees snap (vXmax ver) (Some st) then Some (vPayload ver) else None))
      else if vUndo ver = 0 then Some (Inr None)
      else case undoGet u (vUndo ver) of
        Inl err \<Rightarrow> Some (if HasCode err NotFound then Inr None else Inl err)
      | Inr rec \<Rightarrow> if uKind rec = KindInsert then Some (Inr None) else payloadWalk u st snap (uOld rec))"

partial_function (option) visibleWalk :: "ULog \<Rightarrow> (TxnID \<Rightarrow> Status) \<Rightarrow> Snapshot \<Rightarrow> Version \<Rightarrow> bool go" where
  "visibleWalk u st snap ver =
     (if Sees snap (vXmin ver) (Some st)
      then Some (Inr (vXmax ver = 0 \<or> \<not> Sees snap (vXmax ver) (Some st)))
      else if vUndo ver = 0 then Some (Inr False)
      else case undoGet u (vUndo ver) of
        Inl err \<Rightarrow> Some (if HasCode err NotFound then Inr False else Inl err)
      | Inr rec \<Rightarrow> if uKind rec = KindInsert then Some (Inr False) else visibleWalk u st snap (uOld rec))"

text \<open>The payload and whether there is one.\<close>

definition visiblePayload :: "ULog \<Rightarrow> (TxnID \<Rightarrow> Status) \<Rightarrow> bytes \<Rightarrow> Snapshot \<Rightarrow> bytes option go" where
  "visiblePayload u st raw snap = gbind (Inspect raw) (\<lambda>v. case v of
      None \<Rightarrow> Some (Inr (Some raw))
    | Some ver \<Rightarrow> payloadWalk u st snap ver)"

definition rowVisible :: "ULog \<Rightarrow> (TxnID \<Rightarrow> Status) \<Rightarrow> bytes \<Rightarrow> Snapshot \<Rightarrow> bool go" where
  "rowVisible u st raw snap = gbind (Inspect raw) (\<lambda>v. case v of
      None \<Rightarrow> Some (Inr True)
    | Some ver \<Rightarrow> visibleWalk u st snap ver)"

section \<open>The state\<close>

text \<open>An open transaction: \<open>storage.Txn\<close> and the \<open>btree.Txn\<close> on top of it. With one tree the list of undo
  targets is its length.\<close>

record OpenTxn =
  xPrev :: LSN
  xLastUndo :: UndoID
  xTargets :: nat
  xDeleted :: "bytes list"
  xDone :: bool

record Db =
  dbTree :: Tree
  dbUndo :: ULog
  dbTM :: Manager
  dbTxns :: "TxnID \<rightharpoonup> OpenTxn"
  dbName :: string
  dbWal :: "Record list"
  dbNextLSN :: LSN
  dbNextTxn :: TxnID
  dbWalErrs :: "nerr option list"

definition onTree :: "(Tree, 'a) proc \<Rightarrow> (Db, 'a) proc" where
  "onTree p d = (case p (dbTree d) of None \<Rightarrow> None | Some (t, r) \<Rightarrow> Some (d\<lparr>dbTree := t\<rparr>, r))"

definition onUndo :: "(ULog, 'a) proc \<Rightarrow> (Db, 'a) proc" where
  "onUndo p d = (case p (dbUndo d) of None \<Rightarrow> None | Some (u, r) \<Rightarrow> Some (d\<lparr>dbUndo := u\<rparr>, r))"

abbreviation statusOf :: "Db \<Rightarrow> TxnID \<Rightarrow> Status" where
  "statusOf d \<equiv> StatusFn (dbTM d)"

abbreviation readRow :: "bytes \<Rightarrow> Snapshot \<Rightarrow> (Db, bytes option) proc" where
  "readRow raw snap \<equiv> (\<lambda>d. pgo (visiblePayload (dbUndo d) (statusOf d) raw snap) d)"

section \<open>Logging\<close>

text \<open>The write-ahead log takes the record under the next number or reports an error; which of the two
  is the next entry of the list of outcomes.\<close>

definition walAppend :: "Record \<Rightarrow> (Db, LSN) proc" where
  "walAppend rec d = (case dbWalErrs d of
      Some e # es \<Rightarrow> Some (d\<lparr>dbWalErrs := es\<rparr>, Inl e)
    | es \<Rightarrow> Some (d\<lparr>dbWalErrs := tl es, dbWal := dbWal d @ [rec\<lparr>rLSN := dbNextLSN d\<rparr>], dbNextLSN := dbNextLSN d + 1\<rparr>, Inr (dbNextLSN d)))"

definition setPrev :: "TxnID \<Rightarrow> LSN \<Rightarrow> Db \<Rightarrow> Db" where
  "setPrev tid lsn d = d\<lparr>dbTxns := (dbTxns d)(tid := map_option (\<lambda>t. t\<lparr>xPrev := lsn\<rparr>) (dbTxns d tid))\<rparr>"

definition LogUndo :: "sealer \<Rightarrow> TxnID \<Rightarrow> byte \<Rightarrow> PageID \<Rightarrow> bytes \<Rightarrow> Version \<Rightarrow> (Db, UndoID) proc" where
  "LogUndo seal tid kind pid key old =
     pbind (pget (\<lambda>d. dbTxns d tid)) (\<lambda>tx. case tx of None \<Rightarrow> pret 0 | Some t \<Rightarrow>
     pbind (onUndo (undoAppend seal \<lparr>uID = 0, uTxn = tid, uPrev = xLastUndo t, uKind = kind, uPageID = pid, uKey = key, uOld = old\<rparr>)) (\<lambda>uid.
     pbind (pmodify (\<lambda>d. d\<lparr>dbTxns := (dbTxns d)(tid \<mapsto> t\<lparr>xLastUndo := uid, xTargets := xTargets t + 1\<rparr>)\<rparr>)) (\<lambda>_.
     pbind (pgo (map_option Inr (walUndoRec tid (xPrev t) \<lparr>ubID = uid, ubPrev = xLastUndo t, ubKind = kind, ubOldXmin = vXmin old,
       ubOldXmax = vXmax old, ubOldUndo = vUndo old, ubKey = key, ubOldPayload = vPayload old\<rparr> pid))) (\<lambda>rec.
     pbind (walAppend rec) (\<lambda>lsn.
     pbind (pmodify (setPrev tid lsn)) (\<lambda>_. pret uid))))))"

definition LogLogical :: "TxnID \<Rightarrow> u16 \<Rightarrow> bytes \<Rightarrow> bytes \<Rightarrow> (Db, unit) proc" where
  "LogLogical tid kind key val =
     pbind (pget (\<lambda>d. dbTxns d tid)) (\<lambda>tx. case tx of None \<Rightarrow> pret () | Some t \<Rightarrow>
     pbind (pgo (if kind = RecInsert then map_option Inr (LogicalInsert tid (xPrev t) key val)
                 else if kind = RecDelete then map_option Inr (LogicalDelete tid (xPrev t) key)
                 else if kind = RecUpdate then map_option Inr (LogicalUpdate tid (xPrev t) key val)
                 else Some (Inl (New InvalidArgument ''storage.LogLogical'' ''not a logical record type'')))) (\<lambda>rec.
     pbind (walAppend rec) (\<lambda>lsn. pmodify (setPrev tid lsn))))"

text \<open>\<open>LeaveOp\<close> logs the pages of a split or merge when there was one; whether that succeeds is again the
  next outcome of the log. A failed operation logs nothing.\<close>

definition LeaveOp :: "'a res \<Rightarrow> (Db, 'a) proc" where
  "LeaveOp r d = (case r of
      Inl e \<Rightarrow> Some (d, Inl e)
    | Inr x \<Rightarrow> (case dbWalErrs d of
        Some e # es \<Rightarrow> Some (d\<lparr>dbWalErrs := es\<rparr>, Inl e)
      | es \<Rightarrow> Some (d\<lparr>dbWalErrs := tl es\<rparr>, Inr x)))"

definition withWrite :: "(Db, 'a) proc \<Rightarrow> (Db, 'a) proc" where
  "withWrite fn = ptry fn LeaveOp"

section \<open>Beginning\<close>

definition StartTxn :: "(Db, TxnID) proc" where
  "StartTxn =
     pbind (pget dbNextTxn) (\<lambda>tid.
     pbind (pmodify (\<lambda>d. d\<lparr>dbNextTxn := tid + 1\<rparr>)) (\<lambda>_.
     pbind (walAppend (BeginRec tid)) (\<lambda>lsn.
     pbind (pmodify (\<lambda>d. d\<lparr>dbTxns := (dbTxns d)(tid \<mapsto> \<lparr>xPrev = lsn, xLastUndo = 0, xTargets = 0, xDeleted = [], xDone = False\<rparr>),
       dbTM := fst (Attach (dbTM d) tid SnapshotIsolation)\<rparr>)) (\<lambda>_. pret tid))))"

definition setIso :: "TxnID \<Rightarrow> Isolation \<Rightarrow> Db \<Rightarrow> Db" where
  "setIso tid lvl d = (case getHandle (dbTM d) tid of
      None \<Rightarrow> d
    | Some h \<Rightarrow> let h = h\<lparr>hIso := lvl\<rparr>; tm = (dbTM d)\<lparr>mActive := (mActive (dbTM d))(tid \<mapsto> h)\<rparr> in d\<lparr>dbTM := fst (Refresh tm (Some h))\<rparr>)"

definition BeginTxn :: "Isolation \<Rightarrow> (Db, TxnID) proc" where
  "BeginTxn lvl = (let lvl = (if lvl = IsoUnset then SnapshotIsolation else lvl) in
     pbind StartTxn (\<lambda>tid. pbind (pmodify (setIso tid lvl)) (\<lambda>_. pret tid)))"

definition snapOf :: "TxnID \<Rightarrow> Db \<Rightarrow> Snapshot" where
  "snapOf tid d = (case getHandle (dbTM d) tid of Some h \<Rightarrow> hSnap h | None \<Rightarrow> Capture (dbTM d) 0)"

definition refreshIfRC :: "TxnID \<Rightarrow> Db \<Rightarrow> Db" where
  "refreshIfRC tid d = (case getHandle (dbTM d) tid of
      Some h \<Rightarrow> if hIso h = ReadCommitted then d\<lparr>dbTM := fst (Refresh (dbTM d) (Some h))\<rparr> else d
    | None \<Rightarrow> d)"

section \<open>Conflicts and locks\<close>

definition conflictsWithLiveWriter :: "(TxnID \<Rightarrow> Status) \<Rightarrow> TxnID \<Rightarrow> Version \<Rightarrow> bool \<Rightarrow> bool" where
  "conflictsWithLiveWriter st tid ver has =
     (if \<not> has then False
      else if vXmin ver = 0 \<or> vXmin ver = tid then False
      else st (vXmin ver) = StatusInProgress)"

text \<open>The check of the three writers against a version committed after the snapshot.\<close>

definition newerThanSnap :: "Handle option \<Rightarrow> (TxnID \<Rightarrow> Status) \<Rightarrow> TxnID \<Rightarrow> Version \<Rightarrow> bool \<Rightarrow> Snapshot \<Rightarrow> bool" where
  "newerThanSnap h st tid ver has snap =
     (case h of None \<Rightarrow> False | Some h \<Rightarrow>
        (hIso h = SnapshotIsolation \<or> hIso h = Serializable) \<and> has \<and>
        vXmin ver \<noteq> tid \<and> \<not> Sees snap (vXmin ver) (Some st) \<and> st (vXmin ver) = StatusCommitted)"

definition lockKey :: "Handle \<Rightarrow> bytes \<Rightarrow> Mode \<Rightarrow> (Db, unit) proc" where
  "lockKey h key mode d = (case LockKey None (dbTM d) (Some h) key mode (dbName d) of (tm, oc) \<Rightarrow>
     (case oc of Granted \<Rightarrow> Some (d\<lparr>dbTM := tm\<rparr>, Inr ()) | Failed e \<Rightarrow> Some (d\<lparr>dbTM := tm\<rparr>, Inl e) | Waiting _ _ \<Rightarrow> None))"

definition lockWrite :: "TxnID \<Rightarrow> bytes \<Rightarrow> (Db, unit) proc" where
  "lockWrite tid key d = (case getHandle (dbTM d) tid of
      None \<Rightarrow> Some (d, Inr ())
    | Some h \<Rightarrow>
        if hIso h \<noteq> Serializable \<and> ActiveCount (Some (dbTM d)) \<le> 1 \<and> \<not> OnlineBuildActive (Some (dbTM d)) then Some (d, Inr ())
        else lockKey h key Exclusive d)"

definition lockRead :: "TxnID \<Rightarrow> bytes \<Rightarrow> (Db, unit) proc" where
  "lockRead tid key d = (case getHandle (dbTM d) tid of
      None \<Rightarrow> Some (d, Inr ())
    | Some h \<Rightarrow> if hIso h \<noteq> Serializable then Some (d, Inr ()) else lockKey h key Shared d)"

section \<open>Reading\<close>

definition inactive :: "string \<Rightarrow> nerr" where
  "inactive op = New InvalidArgument op ''transaction is not active''"

text \<open>A nil transaction and one that is done are both refused.\<close>

definition isDone :: "TxnID \<Rightarrow> Db \<Rightarrow> bool" where
  "isDone tid d = (case dbTxns d tid of None \<Rightarrow> True | Some t \<Rightarrow> xDone t)"

definition lookupRow :: "string \<Rightarrow> bytes \<Rightarrow> Snapshot \<Rightarrow> (Db, bytes) proc" where
  "lookupRow op key snap =
     pbind (onTree (leafRaw key)) (\<lambda>(_, found). case found of
         None \<Rightarrow> pfail (New NotFound op ''key not found'')
       | Some raw \<Rightarrow> pbind (readRow raw snap) (\<lambda>vis. case vis of
             None \<Rightarrow> pfail (New NotFound op ''key not found'')
           | Some payload \<Rightarrow> pret payload))"

definition txnLookupAt :: "TxnID \<Rightarrow> bytes \<Rightarrow> Snapshot \<Rightarrow> (Db, bytes) proc" where
  "txnLookupAt tid key snap =
     pbind (pget (isDone tid)) (\<lambda>dn. if dn then pfail (inactive ''btree.Txn.LookupAt'') else
     pbind (pgo (Some (checkKey key))) (\<lambda>_. lookupRow ''btree.Txn.LookupAt'' key snap))"

definition txnLookup :: "TxnID \<Rightarrow> bytes \<Rightarrow> (Db, bytes) proc" where
  "txnLookup tid key =
     pbind (pget (isDone tid)) (\<lambda>dn. if dn then pfail (inactive ''btree.Txn.Lookup'') else
     pbind (pgo (Some (checkKey key))) (\<lambda>_.
     pbind (pmodify (refreshIfRC tid)) (\<lambda>_.
     pbind (lockRead tid key) (\<lambda>_.
     pbind (pget (snapOf tid)) (\<lambda>snap. lookupRow ''btree.Txn.Lookup'' key snap)))))"

section \<open>Writing\<close>

definition writeConflict :: "string \<Rightarrow> nerr" where
  "writeConflict op = New Serialization op ''write-write conflict''"

text \<open>What \<open>insertAt\<close> does once it has found a record under the key.\<close>

definition insertOver :: "sealer \<Rightarrow> TxnID \<Rightarrow> bytes \<Rightarrow> bytes \<Rightarrow> Snapshot \<Rightarrow> PageID \<Rightarrow> bytes \<Rightarrow> (Db, unit) proc" where
  "insertOver seal tid key val snap leafID raw =
     pbind (pgo (rowDecode raw)) (\<lambda>dec.
     let has = dec \<noteq> None; ver = (case dec of Some v \<Rightarrow> v | None \<Rightarrow> \<lparr>vXmin = 0, vXmax = 0, vUndo = 0, vPayload = []\<rparr>) in
     pbind (readRow raw snap) (\<lambda>vis.
     if vis \<noteq> None then pfail (New AlreadyExists ''btree.Txn.Insert'' ''duplicate key'') else
     pbind (pget (\<lambda>d. conflictsWithLiveWriter (statusOf d) tid ver has)) (\<lambda>live.
     if live then pfail (writeConflict ''btree.Txn.Insert'') else
     pbind (pget (\<lambda>d. newerThanSnap (getHandle (dbTM d) tid) (statusOf d) tid ver has snap)) (\<lambda>newer.
     if newer then pfail (writeConflict ''btree.Txn.Insert'') else
     pbind (LogUndo seal tid (if has then KindUpdate else KindInsert) leafID key
       (if has then ver else \<lparr>vXmin = 0, vXmax = 0, vUndo = 0, vPayload = raw\<rparr>)) (\<lambda>uid.
     pbind (pgo (map_option Inr (rowEncode \<lparr>vXmin = tid, vXmax = 0, vUndo = uid, vPayload = val\<rparr>))) (\<lambda>neu.
     pbind (LogLogical tid RecInsert key val) (\<lambda>_.
     pbind (onTree (updateLocked key neu)) (\<lambda>_.
     pmodify (\<lambda>d. d\<lparr>dbTree := addLive 1 (dbTree d)\<rparr>)))))))))"

definition insertNew :: "sealer \<Rightarrow> TxnID \<Rightarrow> bytes \<Rightarrow> bytes \<Rightarrow> PageID \<Rightarrow> (Db, unit) proc" where
  "insertNew seal tid key val leafID =
     pbind (LogUndo seal tid KindInsert leafID key \<lparr>vXmin = 0, vXmax = 0, vUndo = 0, vPayload = []\<rparr>) (\<lambda>uid.
     pbind (pgo (map_option Inr (rowEncode \<lparr>vXmin = tid, vXmax = 0, vUndo = uid, vPayload = val\<rparr>))) (\<lambda>neu.
     pbind (LogLogical tid RecInsert key val) (\<lambda>_.
     pbind (onTree (insertOnLeaf leafID key neu)) (\<lambda>_.
     pmodify (\<lambda>d. d\<lparr>dbTree := addLive 1 (dbTree d)\<rparr>)))))"

definition txnInsertAt :: "sealer \<Rightarrow> TxnID \<Rightarrow> bytes \<Rightarrow> bytes \<Rightarrow> Snapshot \<Rightarrow> (Db, unit) proc" where
  "txnInsertAt seal tid key val snap =
     pbind (lockWrite tid key) (\<lambda>_. withWrite (
     pbind (onTree (onEng (CrashAt PointDuringInsert))) (\<lambda>_.
     pbind (onTree (leafRaw key)) (\<lambda>(leafID, found). case found of
         Some raw \<Rightarrow> insertOver seal tid key val snap leafID raw
       | None \<Rightarrow> insertNew seal tid key val leafID))))"

text \<open>The version under the key when the snapshot sees the row and no conflict stops the writer, together
  with the payload seen. Both \<open>updateAt\<close> and \<open>deleteAt\<close> begin with this.\<close>

definition seenVersion :: "string \<Rightarrow> TxnID \<Rightarrow> Snapshot \<Rightarrow> bytes option \<Rightarrow> (Db, Version \<times> bool \<times> bytes) proc" where
  "seenVersion op tid snap cur = (case cur of
      None \<Rightarrow> pfail (New NotFound op ''key not found'')
    | Some raw \<Rightarrow>
        pbind (readRow raw snap) (\<lambda>vis. case vis of
          None \<Rightarrow> pfail (New NotFound op ''key not found'')
        | Some payload \<Rightarrow>
            pbind (pgo (rowDecode raw)) (\<lambda>dec.
            let has = dec \<noteq> None; ver = (case dec of Some v \<Rightarrow> v | None \<Rightarrow> \<lparr>vXmin = 0, vXmax = 0, vUndo = 0, vPayload = payload\<rparr>) in
            pbind (pget (\<lambda>d. conflictsWithLiveWriter (statusOf d) tid ver has)) (\<lambda>live.
            if live then pfail (writeConflict op) else
            pbind (pget (\<lambda>d. newerThanSnap (getHandle (dbTM d) tid) (statusOf d) tid ver has snap)) (\<lambda>newer.
            if newer then pfail (writeConflict op) else pret (ver, has, payload))))))"

definition txnUpdateAt :: "sealer \<Rightarrow> TxnID \<Rightarrow> bytes \<Rightarrow> bytes \<Rightarrow> Snapshot \<Rightarrow> (Db, bytes) proc" where
  "txnUpdateAt seal tid key val snap =
     pbind (lockWrite tid key) (\<lambda>_. withWrite (
     pbind (onTree (onEng (CrashAt PointDuringUpdate))) (\<lambda>_.
     pbind (onTree (leafRaw key)) (\<lambda>(leafID, found).
     pbind (seenVersion ''btree.Txn.Update'' tid snap found) (\<lambda>(ver, has, payload).
     pbind (LogUndo seal tid KindUpdate leafID key ver) (\<lambda>uid.
     pbind (pgo (map_option Inr (rowEncode \<lparr>vXmin = tid, vXmax = 0, vUndo = uid, vPayload = val\<rparr>))) (\<lambda>neu.
     pbind (LogLogical tid RecUpdate key val) (\<lambda>_.
     pbind (onTree (updateLocked key neu)) (\<lambda>_. pret payload)))))))))"

definition noteDeleted :: "TxnID \<Rightarrow> bytes \<Rightarrow> Db \<Rightarrow> Db" where
  "noteDeleted tid key d = d\<lparr>dbTxns := (dbTxns d)(tid := map_option (\<lambda>t. t\<lparr>xDeleted := xDeleted t @ [key]\<rparr>) (dbTxns d tid))\<rparr>"

definition txnDeleteAt :: "sealer \<Rightarrow> TxnID \<Rightarrow> bytes \<Rightarrow> Snapshot \<Rightarrow> (Db, bytes) proc" where
  "txnDeleteAt seal tid key snap =
     pbind (lockWrite tid key) (\<lambda>_. withWrite (
     pbind (onTree (onEng (CrashAt PointDuringDelete))) (\<lambda>_.
     pbind (onTree (leafRaw key)) (\<lambda>(leafID, found).
     pbind (seenVersion ''btree.Txn.Delete'' tid snap found) (\<lambda>(ver, has, payload).
     pbind (LogUndo seal tid KindDelete leafID key ver) (\<lambda>uid.
     pbind (pgo (map_option Inr (rowEncode (if vXmin ver = 0 \<and> \<not> has
         then \<lparr>vXmin = 0, vXmax = tid, vUndo = uid, vPayload = payload\<rparr>
         else \<lparr>vXmin = vXmin ver, vXmax = tid, vUndo = uid, vPayload = vPayload ver\<rparr>)))) (\<lambda>tomb.
     pbind (LogLogical tid RecDelete key []) (\<lambda>_.
     pbind (pmodify (noteDeleted tid key)) (\<lambda>_.
     pbind (onTree (updateLocked key tomb)) (\<lambda>_.
     pbind (pmodify (\<lambda>d. d\<lparr>dbTree := addLive (- 1) (dbTree d)\<rparr>)) (\<lambda>_. pret payload)))))))))))"

text \<open>\<open>Insert\<close>, \<open>Update\<close> and \<open>Delete\<close> under the transaction's own snapshot.\<close>

definition asActive :: "string \<Rightarrow> TxnID \<Rightarrow> unit go \<Rightarrow> (Snapshot \<Rightarrow> (Db, 'a) proc) \<Rightarrow> (Db, 'a) proc" where
  "asActive op tid check f =
     pbind (pget (isDone tid)) (\<lambda>dn. if dn then pfail (inactive op) else
     pbind (pgo check) (\<lambda>_.
     pbind (pmodify (refreshIfRC tid)) (\<lambda>_.
     pbind (pget (snapOf tid)) f)))"

definition txnInsert :: "sealer \<Rightarrow> TxnID \<Rightarrow> bytes \<Rightarrow> bytes \<Rightarrow> (Db, unit) proc" where
  "txnInsert seal tid key val = asActive ''btree.Txn.Insert'' tid (gbind (encodeLeaf key val) (\<lambda>_. Some (Inr ()))) (txnInsertAt seal tid key val)"

definition txnUpdate :: "sealer \<Rightarrow> TxnID \<Rightarrow> bytes \<Rightarrow> bytes \<Rightarrow> (Db, unit) proc" where
  "txnUpdate seal tid key val = asActive ''btree.Txn.Update'' tid (gbind (encodeLeaf key val) (\<lambda>_. Some (Inr ())))
     (\<lambda>snap. pbind (txnUpdateAt seal tid key val snap) (\<lambda>_. pret ()))"

definition txnDelete :: "sealer \<Rightarrow> TxnID \<Rightarrow> bytes \<Rightarrow> (Db, unit) proc" where
  "txnDelete seal tid key = asActive ''btree.Txn.Delete'' tid (Some (checkKey key)) (\<lambda>snap. pbind (txnDeleteAt seal tid key snap) (\<lambda>_. pret ()))"

section \<open>Reversing\<close>

definition applyUndoRec :: "UndoRec \<Rightarrow> (Tree, unit) proc" where
  "applyUndoRec rec =
     (if uKind rec = KindInsert
      then ptry (deleteLocked (uKey rec)) (\<lambda>r. case r of
          Inl e \<Rightarrow> if HasCode e NotFound then pret () else pfail e
        | Inr _ \<Rightarrow> pret ())
      else if uKind rec = KindUpdate \<or> uKind rec = KindDelete
      then pbind (pgo (map_option Inr (rowEncode (uOld rec)))) (\<lambda>raw.
        ptry (updateLocked (uKey rec) raw) (\<lambda>r. case r of
          Inl e \<Rightarrow> if HasCode e NotFound then insertLocked (uKey rec) raw else pfail e
        | Inr _ \<Rightarrow> pret ()))
      else pret ())"

definition ApplyUndo :: "UndoRec \<Rightarrow> (Db, unit) proc" where
  "ApplyUndo rec = pbind (withWrite (onTree (applyUndoRec rec))) (\<lambda>_. pmodify (\<lambda>d. d\<lparr>dbTree := (dbTree d)\<lparr>liveKnown := False\<rparr>\<rparr>))"

fun applyEach :: "UndoRec list \<Rightarrow> (Db, unit) proc" where
  "applyEach [] = pret ()"
| "applyEach (r # rs) = pbind (ApplyUndo r) (\<lambda>_. applyEach rs)"

definition undoTxnLogical :: "TxnID \<Rightarrow> (Db, unit) proc" where
  "undoTxnLogical tid d = (case dbTxns d tid of None \<Rightarrow> None | Some t \<Rightarrow>
     if xTargets t = 0 then Some (d, Inr ())
     else (case undoChain (dbUndo d) (xLastUndo t) of None \<Rightarrow> None | Some recs \<Rightarrow>
       if length recs \<noteq> xTargets t
       then Some (d, Inl (New Internal ''storage.undoTxnLogical'' ''undo chain length does not match recorded targets''))
       else applyEach recs d))"

text \<open>Outside a commit that waits for its flush, and without a replicator.\<close>

definition RollbackTxn :: "TxnID \<Rightarrow> (Db, unit) proc" where
  "RollbackTxn tid =
     pbind (onTree (onEng (CrashAt PointBeforeRollback))) (\<lambda>_.
     pbind (pget (\<lambda>d. dbTxns d tid)) (\<lambda>tx. case tx of None \<Rightarrow> pret () | Some t \<Rightarrow>
     ptry (undoTxnLogical tid) (\<lambda>_.
     pbind (pmodify (\<lambda>d. d\<lparr>dbTxns := (dbTxns d)(tid := None)\<rparr>)) (\<lambda>_.
     ptry (walAppend (AbortRec tid (xPrev t))) (\<lambda>r.
     pbind (pmodify (\<lambda>d. d\<lparr>dbTM := Abort (dbTM d) tid\<rparr>)) (\<lambda>_. case r of
         Inl e \<Rightarrow> pfail e
       | Inr _ \<Rightarrow> onTree (onEng (CrashAt PointAfterRollback))))))))"

definition RollbackToSavepoint :: "TxnID \<Rightarrow> nat \<Rightarrow> (Db, unit) proc" where
  "RollbackToSavepoint tid undoLen d = (case dbTxns d tid of
      None \<Rightarrow> Some (d, Inl (New InvalidArgument ''storage.RollbackToSavepoint'' ''no active transaction''))
    | Some t \<Rightarrow>
        if xDone t then Some (d, Inl (New InvalidArgument ''storage.RollbackToSavepoint'' ''transaction is not active''))
        else let n = xTargets t in
        if undoLen > n then Some (d, Inl (New InvalidArgument ''storage.RollbackToSavepoint'' ''savepoint is not part of this transaction''))
        else if n > undoLen then
          (case undoChain (dbUndo d) (xLastUndo t) of None \<Rightarrow> None | Some recs \<Rightarrow>
             if length recs \<noteq> n then Some (d, Inl (New Internal ''storage.RollbackToSavepoint'' ''undo chain length does not match recorded targets''))
             else applyEach (take (n - undoLen) recs) d)
        else Some (d, Inr ()))"

end
