(* ===== verification/MvccProps.thy ===== *)
theory MvccProps
  imports Mvcc UndoProps BTreeProps
begin

text \<open>
  Transactions on a tree keep the promises of multi-version concurrency: the two visibility walks
  agree and end, a snapshot does not notice the writes of transactions it does not see, and a
  transaction reads what it wrote.
\<close>

section \<open>Version chains\<close>

text \<open>Links lead to older records.\<close>

definition descending :: "ULog \<Rightarrow> bool" where
  "descending u \<longleftrightarrow> (\<forall>i r. ulRecs u i = Some r \<longrightarrow> uKind r \<noteq> KindInsert \<longrightarrow> vUndo (uOld r) < i)"

lemma payloadWalk_total:
  assumes "descending u"
  shows "\<exists>r. payloadWalk u st snap ver = Some r"
proof (induction "unat (vUndo ver)" arbitrary: ver rule: less_induct)
  case less
  show ?case
  proof (cases "undoGet u (vUndo ver)")
    case (Inl e)
    then show ?thesis by (subst payloadWalk.simps) simp
  next
    case (Inr r)
    have "\<exists>x. payloadWalk u st snap (uOld r) = Some x" if "uKind r \<noteq> KindInsert"
      using assms Inr that by (intro less) (auto simp: descending_def undoGet_def word_less_nat_alt split: option.splits)
    then show ?thesis using Inr by (subst payloadWalk.simps) auto
  qed
qed

text \<open>A new record changes no walk that starts below it.\<close>

lemma payloadWalk_fresh:
  assumes "descending u" and "vUndo ver < uid" and "\<And>i. i < uid \<Longrightarrow> ulRecs u' i = ulRecs u i"
  shows "payloadWalk u' st snap ver = payloadWalk u st snap ver"
  using assms(2)
proof (induction "unat (vUndo ver)" arbitrary: ver rule: less_induct)
  case less
  have g: "undoGet u' (vUndo ver) = undoGet u (vUndo ver)" using assms(3) [OF less.prems] by (simp add: undoGet_def)
  show ?case
  proof (cases "undoGet u (vUndo ver)")
    case (Inl e)
    then show ?thesis using g by (subst (1 2) payloadWalk.simps) simp
  next
    case (Inr r)
    have "payloadWalk u' st snap (uOld r) = payloadWalk u st snap (uOld r)" if "uKind r \<noteq> KindInsert"
    proof -
      have "vUndo (uOld r) < vUndo ver" using assms(1) Inr that by (auto simp: descending_def undoGet_def split: option.splits)
      then show ?thesis using less.prems by (intro less.hyps) (auto simp: word_less_nat_alt)
    qed
    then show ?thesis using Inr g by (subst (1 2) payloadWalk.simps) auto
  qed
qed

lemma payloadWalk_seen: "Sees snap (vXmin ver) (Some st) \<Longrightarrow>
  payloadWalk u st snap ver = Some (Inr (if vXmax ver = 0 \<or> \<not> Sees snap (vXmax ver) (Some st) then Some (vPayload ver) else None))"
  by (subst payloadWalk.simps) simp

lemma payloadWalk_back:
  assumes "\<not> Sees snap (vXmin ver) (Some st)" and "vUndo ver \<noteq> 0" and "ulRecs u (vUndo ver) = Some r"
  shows "payloadWalk u st snap ver = (if uKind r = KindInsert then Some (Inr None) else payloadWalk u st snap (uOld r))"
  using assms by (subst payloadWalk.simps) (simp add: undoGet_def)

section \<open>The two walks agree\<close>

lemma visible_of_payload:
  "payloadWalk u st snap ver = Some p \<Longrightarrow> visibleWalk u st snap ver = Some (map_sum id (\<lambda>x. x \<noteq> None) p)"
proof (erule payloadWalk.raw_induct [rotated, where P = "\<lambda>u st snap ver p. visibleWalk u st snap ver = Some (map_sum id (\<lambda>x. x \<noteq> None) p)"], goal_cases)
  case (1 walk u st snap ver p)
  then show ?case by (subst visibleWalk.simps) (auto simp del: not_None_eq split: if_split_asm sum.split_asm)
qed

lemma payload_of_visible:
  "visibleWalk u st snap ver = Some r \<Longrightarrow> \<exists>p. payloadWalk u st snap ver = Some p"
proof (erule visibleWalk.raw_induct [rotated, where P = "\<lambda>u st snap ver r. \<exists>p. payloadWalk u st snap ver = Some p"], goal_cases)
  case (1 walk u st snap ver r)
  then show ?case by (subst payloadWalk.simps) (auto split: if_split_asm sum.split_asm)
qed

lemma walks_agree: "visibleWalk u st snap ver = map_option (map_sum id (\<lambda>x. x \<noteq> None)) (payloadWalk u st snap ver)"
  using visible_of_payload [of u st snap ver] payload_of_visible [of u st snap ver]
  by (cases "payloadWalk u st snap ver"; cases "visibleWalk u st snap ver") auto

lemma rowVisible_agrees:
  "rowVisible u st raw snap = map_option (map_sum id (\<lambda>p. p \<noteq> None)) (visiblePayload u st raw snap)"
  by (simp add: rowVisible_def visiblePayload_def gbind_def walks_agree split: option.splits sum.splits)

lemma Inspect_total: "\<exists>x. Inspect raw = Some x"
  by (auto simp: Inspect_def getB_def U64_def)

text \<open>C21: the two readers of a row agree. For every row, snapshot, undo log and status function,
  \<open>rowVisible\<close> (used by counting scans) says yes exactly when \<open>visiblePayload\<close> (used by reads) returns a
  payload, reports the same error when that does, and fails to return exactly when that does.\<close>

theorem row_visible_agrees:
  "rowVisible u st raw snap = map_option (map_sum id (\<lambda>p. p \<noteq> None)) (visiblePayload u st raw snap)"
  by (rule rowVisible_agrees)

text \<open>C22: reading a row ends. When every update and delete record of the undo log keeps a version whose own
  link is older than the record, \<open>visiblePayload\<close> and \<open>rowVisible\<close> return on every row, whatever is stored
  in it.\<close>

theorem visibility_walk_ends:
  assumes "descending u"
  shows "visiblePayload u st raw snap \<noteq> None \<and> rowVisible u st raw snap \<noteq> None"
proof -
  obtain x where "Inspect raw = Some x" using Inspect_total by blast
  then have "visiblePayload u st raw snap \<noteq> None"
    using payloadWalk_total [OF assms] by (auto simp: visiblePayload_def gbind_def split: sum.splits option.splits)
  then show ?thesis by (simp add: rowVisible_agrees)
qed

definition chain1 :: ULog where
  "chain1 = \<lparr>ulIdent = ident1, ulDek = Some dek1, ulWrapped = [4], ulNextID = 2, ulNonceCur = 1, ulNonceLim = undoNonceBatch,
     ulNonceHigh = undoNonceBatch, ulFile = Some [], ulControl = [], ulRecs = [1 \<mapsto> undoRec1], ulByTxn = (\<lambda>_. 0), ulBuf = [], ulWritten = 0,
     ulSynced = 0, ulSyncErr = None, ulFaults = []\<rparr>"

theorem visibility_walk_ends_witness:
  "visiblePayload chain1 (\<lambda>_. StatusInProgress) (rowBytes \<lparr>vXmin = 5, vXmax = 0, vUndo = 1, vPayload = [9]\<rparr>) (captureLocked (NewManager 1) 7) \<noteq> None \<and>
    rowVisible chain1 (\<lambda>_. StatusInProgress) (rowBytes \<lparr>vXmin = 5, vXmax = 0, vUndo = 1, vPayload = [9]\<rparr>) (captureLocked (NewManager 1) 7) \<noteq> None"
  by (rule visibility_walk_ends) (simp add: descending_def chain1_def undoRec1_def)

section \<open>Appending to the undo log, errors included\<close>

definition kept :: "ULog \<Rightarrow> ULog \<Rightarrow> bool" where
  "kept l l' \<longleftrightarrow> ulRecs l' = ulRecs l \<and> ulNextID l' = ulNextID l \<and> ulDek l' = ulDek l \<and> ulIdent l' = ulIdent l \<and> ulWrapped l' = ulWrapped l"

definition sized :: "ULog \<Rightarrow> bool" where
  "sized l \<longleftrightarrow> length (Database (ulIdent l)) = 16 \<and> length (File (ulIdent l)) = 16 \<and> length (ulWrapped l) < 2 ^ 16 \<and> ulDek l \<noteq> None"

lemma kept_trans: "kept a b \<Longrightarrow> kept b c \<Longrightarrow> kept a c"
  by (simp add: kept_def)

lemma takeFault_kept: "takeFault l = (f, l') \<Longrightarrow> kept l l'"
  by (auto simp: takeFault_def kept_def split: list.splits)

lemma barrier_wp: "wp (undoBarrier op msg) (\<lambda>_. kept l) l"
  using takeFault_kept by (auto simp: wp_def undoBarrier_def split: prod.splits fault.splits)

lemma fsync_wp: "wp (undoFsync op msg) (\<lambda>_. kept l) l"
  unfolding undoFsync_def wp_ptry by (rule wp_mono [OF barrier_wp]) (auto simp: eitherWay_def wp_simps split: sum.splits)

lemma flush_wp: "wp flushBufLocked (\<lambda>_. kept l) l"
proof -
  obtain f l1 where t: "takeFault l = (f, l1)" "kept l l1" using takeFault_kept by (cases "takeFault l") auto
  then show ?thesis by (cases f) (auto simp: wp_def flushBufLocked_def undoWrite_def kept_def Let_def split: option.splits)
qed

lemma control_wp:
  assumes "sized l"
  shows "wp writeControlLocked (\<lambda>_. kept l) l"
proof -
  let ?c = "\<lparr>ucIdentity = ulIdent l, ucNextID = ulNextID l, ucNonceHigh = ulNonceHigh l, ucWrapped = ulWrapped l\<rparr>"
  obtain b where b: "encodeUndoControl ?c = Some b" by (rule undo_control_roundtrip [of ?c]) (use assms in \<open>simp_all add: sized_def\<close>)
  have "wp (undoFsync ''undo.writeControl'' ''sync'') (andThen (\<lambda>_. pbind (pmodify (\<lambda>l. l\<lparr>ulControl := b\<rparr>)) (\<lambda>_. undoBarrier ''diskio.SyncDir'' ''injected fsync'')) (\<lambda>_. kept l)) l"
  proof (rule wp_mono [OF fsync_wp])
    fix r and s' assume k: "kept l s'"
    have "wp (undoBarrier ''diskio.SyncDir'' ''injected fsync'') (\<lambda>_. kept l) (s'\<lparr>ulControl := b\<rparr>)"
      by (rule wp_mono [OF barrier_wp]) (use k in \<open>simp add: kept_def\<close>)
    then show "andThen (\<lambda>_. pbind (pmodify (\<lambda>l. l\<lparr>ulControl := b\<rparr>)) (\<lambda>_. undoBarrier ''diskio.SyncDir'' ''injected fsync'')) (\<lambda>_. kept l) r s'"
      using k by (cases r) (simp_all add: wp_simps)
  qed
  then show ?thesis using b by (simp add: writeControlLocked_def wp_simps)
qed

lemma sealRecord_total: "\<exists>x. sealRecord seal (Some d) gen r = Some x"
proof (cases "dSuite d = CipherAES256GCM \<and> gen \<noteq> 0")
  case True
  then show ?thesis using sealRecord_framed [of d gen seal r] by blast
next
  case False
  then show ?thesis by (auto simp: sealRecord_def SealBytes_def encodeRecord_eq sealHeader_def go_defs goSlice_def)
qed

lemma sized_kept: "sized l \<Longrightarrow> kept l l' \<Longrightarrow> sized l'"
  by (simp add: sized_def kept_def)

lemma seal_wp:
  assumes "sized l"
  shows "wp (sealRecordLocked seal r) (\<lambda>_. kept l) l"
proof -
  have tl: "wp (pbind (pget ulNonceCur) (\<lambda>gen. pbind (pmodify (\<lambda>l. l\<lparr>ulNonceCur := ulNonceCur l + 1\<rparr>)) (\<lambda>_.
     pbind (pget ulDek) (\<lambda>dek. pgo (sealRecord seal dek gen r))))) (\<lambda>_. kept l) l1" if k: "kept l l1" for l1
  proof -
    obtain d where "ulDek l1 = Some d" using sized_kept [OF assms k] by (auto simp: sized_def)
    then show ?thesis using sealRecord_total [of seal d "ulNonceCur l1" r] k by (auto simp: wp_simps kept_def)
  qed
  let ?l0 = "l\<lparr>ulNonceLim := ulNonceHigh l + undoNonceBatch, ulNonceHigh := ulNonceHigh l + undoNonceBatch\<rparr>"
  have c: "wp writeControlLocked (\<lambda>_. kept l) ?l0"
    by (rule wp_mono [OF control_wp]) (use assms in \<open>simp_all add: sized_def kept_def\<close>)
  show ?thesis
  proof (cases "ulNonceCur l > ulNonceLim l")
    case True
    have "wp writeControlLocked (andThen (\<lambda>_. pbind (pget ulNonceCur) (\<lambda>gen. pbind (pmodify (\<lambda>l. l\<lparr>ulNonceCur := ulNonceCur l + 1\<rparr>)) (\<lambda>_.
     pbind (pget ulDek) (\<lambda>dek. pgo (sealRecord seal dek gen r))))) (\<lambda>_. kept l)) ?l0"
      by (rule wp_mono [OF c]) (use tl in \<open>auto simp: andThen_def split: sum.splits\<close>)
    then show ?thesis using True by (simp add: sealRecordLocked_def wp_pbind wp_basic wp_pmodify andThen_simps)
  next
    case False
    then show ?thesis using tl [of l] by (simp add: sealRecordLocked_def wp_pbind wp_basic andThen_simps kept_def)
  qed
qed

lemma write_wp:
  assumes "sized l"
  shows "wp (writeRecordLocked seal r) (\<lambda>_. kept l) l"
  unfolding writeRecordLocked_def wp_pbind
proof (rule wp_mono [OF seal_wp [OF assms]])
  fix x l1 assume k: "kept l l1"
  have "wp flushBufLocked (\<lambda>_. kept l) (l1\<lparr>ulBuf := b\<rparr>)" for b
    by (rule wp_mono [OF flush_wp]) (use k in \<open>simp add: kept_def\<close>)
  then show "andThen (\<lambda>buf. pbind (pmodify (\<lambda>l. l\<lparr>ulBuf := ulBuf l @ buf\<rparr>)) (\<lambda>_.
     pbind (pget (\<lambda>l. length (ulBuf l) \<ge> 65536)) (\<lambda>full. if full then flushBufLocked else pret ()))) (\<lambda>_. kept l) x l1"
    using k by (cases x) (auto simp: wp_simps kept_def)
qed

text \<open>A log that took one more record.\<close>

definition grew :: "byte \<Rightarrow> Version \<Rightarrow> ULog \<Rightarrow> ULog \<Rightarrow> bool" where
  "grew kind old u u' \<longleftrightarrow> ulNextID u' = ulNextID u + 1 \<and> (\<exists>r. uKind r = kind \<and> uOld r = old \<and> ulRecs u' = (ulRecs u)(ulNextID u \<mapsto> r))"

lemma append_wp:
  assumes "sized l" and "uKind r = kind" "uOld r = old"
  shows "wp (undoAppend seal r) (\<lambda>x l'. sized l' \<and> (case x of Inr u \<Rightarrow> u = ulNextID l \<and> grew kind old l l' | Inl _ \<Rightarrow> kept l l')) l"
proof (cases "ulFile l = None")
  case True
  then show ?thesis using assms(1) by (simp add: undoAppend_def wp_simps kept_def)
next
  case False
  define q where "q = r\<lparr>uID := ulNextID l, uPrev := (if uPrev r = 0 then ulByTxn l (uTxn r) else uPrev r)\<rparr>"
  have "sized (l\<lparr>ulNextID := ulNextID l + 1\<rparr>)" using assms(1) by (simp add: sized_def)
  from write_wp [OF this, of seal q]
  obtain l1 x where w: "writeRecordLocked seal q (l\<lparr>ulNextID := ulNextID l + 1\<rparr>) = Some (l1, x)" "kept (l\<lparr>ulNextID := ulNextID l + 1\<rparr>) l1"
    unfolding wp_iff by blast
  have q: "uKind q = kind" "uOld q = old" using assms(2,3) by (simp_all add: q_def)
  note e = undoAppend_eq [OF False q_def, of seal, unfolded w(1)]
  show ?thesis
  proof (cases x)
    case (Inl err)
    then show ?thesis using e w(2) assms(1) by (simp add: wp_def kept_def sized_def)
  next
    case (Inr y)
    have "grew kind old l (l1\<lparr>ulRecs := (ulRecs l1)(ulNextID l \<mapsto> q), ulByTxn := (ulByTxn l1)(uTxn r := ulNextID l)\<rparr>)"
      unfolding grew_def using w(2) q by (intro conjI exI [of _ q]) (simp_all add: kept_def)
    then show ?thesis using Inr e w(2) assms(1) by (simp add: wp_def kept_def sized_def)
  qed
qed

section \<open>Logging\<close>

definition beside :: "Db \<Rightarrow> Db \<Rightarrow> bool" where
  "beside d d' \<longleftrightarrow> dbTree d' = dbTree d \<and> dbTM d' = dbTM d \<and> (\<forall>t. isDone t d' = isDone t d) \<and> dom (dbTxns d') = dom (dbTxns d)"

lemma beside_refl [simp]: "beside d d"
  by (simp add: beside_def)

lemma beside_trans: "beside a b \<Longrightarrow> beside b c \<Longrightarrow> beside a c"
  by (simp add: beside_def)

lemma beside_txns: "dbTxns d tid = Some t \<Longrightarrow> xDone t' = xDone t \<Longrightarrow> beside d (d\<lparr>dbTxns := (dbTxns d)(tid \<mapsto> t')\<rparr>)"
  by (auto simp: beside_def isDone_def)

lemma beside_undo: "beside d (d\<lparr>dbUndo := u\<rparr>)"
  by (simp add: beside_def isDone_def)

lemma setPrev_beside: "beside d (setPrev tid lsn d) \<and> dbUndo (setPrev tid lsn d) = dbUndo d"
  by (auto simp: beside_def setPrev_def isDone_def split: option.splits)

lemma wal_wp: "wp (walAppend rec) (\<lambda>_ d'. beside d d' \<and> dbUndo d' = dbUndo d) d"
  by (auto simp: wp_def walAppend_def beside_def isDone_def split: list.splits option.splits)

lemma undoBody_total: "\<exists>b. EncodeUndoBody ub = Some b"
  by (simp add: EncodeUndoBody_def putB_def go_defs copyAt_def)

lemma logical_total: "\<exists>r. LogicalInsert tid prev key val = Some r" "\<exists>r. LogicalDelete tid prev key = Some r" "\<exists>r. LogicalUpdate tid prev key val = Some r"
  by (simp_all add: LogicalInsert_def LogicalDelete_def LogicalUpdate_def encodeInsertBody_def encodeDeleteBody_def go_defs copyAt_def)

lemma wp_onUndo: "wp (onUndo p) Q d = wp p (\<lambda>r u. Q r (d\<lparr>dbUndo := u\<rparr>)) (dbUndo d)"
  by (simp add: wp_def onUndo_def split: option.splits)

lemma wp_onTree: "wp (onTree p) Q d = wp p (\<lambda>r t. Q r (d\<lparr>dbTree := t\<rparr>)) (dbTree d)"
  by (simp add: wp_def onTree_def split: option.splits)

text \<open>What \<open>LogUndo\<close> leaves of the undo log.\<close>

definition undoLogged :: "byte \<Rightarrow> Version \<Rightarrow> ULog \<Rightarrow> UndoID res \<Rightarrow> ULog \<Rightarrow> bool" where
  "undoLogged kind old u x u' \<longleftrightarrow> sized u' \<and> (case x of Inr i \<Rightarrow> i = ulNextID u \<and> grew kind old u u' | Inl _ \<Rightarrow> kept u u' \<or> grew kind old u u')"

lemma LogUndo_wp:
  assumes "sized (dbUndo d)" and "tid \<in> dom (dbTxns d)"
  shows "wp (LogUndo seal tid kind pid key old) (\<lambda>x d'. beside d d' \<and> undoLogged kind old (dbUndo d) x (dbUndo d')) d"
proof -
  obtain t where t: "dbTxns d tid = Some t" using assms(2) by auto
  let ?r = "\<lparr>uID = 0, uTxn = tid, uPrev = xLastUndo t, uKind = kind, uPageID = pid, uKey = key, uOld = old\<rparr>"
  let ?rest = "\<lambda>uid. pbind (pmodify (\<lambda>d. d\<lparr>dbTxns := (dbTxns d)(tid \<mapsto> t\<lparr>xLastUndo := uid, xTargets := xTargets t + 1\<rparr>)\<rparr>)) (\<lambda>_.
     pbind (pgo (map_option Inr (walUndoRec tid (xPrev t) \<lparr>ubID = uid, ubPrev = xLastUndo t, ubKind = kind, ubOldXmin = vXmin old,
       ubOldXmax = vXmax old, ubOldUndo = vUndo old, ubKey = key, ubOldPayload = vPayload old\<rparr> pid))) (\<lambda>rec.
     pbind (walAppend rec) (\<lambda>lsn. pbind (pmodify (setPrev tid lsn)) (\<lambda>_. pret uid))))"
  have "wp (undoAppend seal ?r) (\<lambda>x u'. andThen ?rest (\<lambda>x d'. beside d d' \<and> undoLogged kind old (dbUndo d) x (dbUndo d')) x (d\<lparr>dbUndo := u'\<rparr>)) (dbUndo d)"
  proof (rule wp_mono [OF append_wp [OF assms(1), of ?r kind old]], simp, simp)
    fix x :: "UndoID res" and u' assume a: "sized u' \<and> (case x of Inr u \<Rightarrow> u = ulNextID (dbUndo d) \<and> grew kind old (dbUndo d) u' | Inl _ \<Rightarrow> kept (dbUndo d) u')"
    show "andThen ?rest (\<lambda>x d'. beside d d' \<and> undoLogged kind old (dbUndo d) x (dbUndo d')) x (d\<lparr>dbUndo := u'\<rparr>)"
    proof (cases x)
      case (Inl e)
      then show ?thesis using a by (simp add: wp_simps undoLogged_def beside_undo)
    next
      case (Inr uid)
      let ?d1 = "d\<lparr>dbUndo := u', dbTxns := (dbTxns d)(tid \<mapsto> t\<lparr>xLastUndo := uid, xTargets := xTargets t + 1\<rparr>)\<rparr>"
      have b: "beside d ?d1" using t by (auto simp: beside_def isDone_def)
      obtain rec where r: "walUndoRec tid (xPrev t) \<lparr>ubID = uid, ubPrev = xLastUndo t, ubKind = kind, ubOldXmin = vXmin old,
        ubOldXmax = vXmax old, ubOldUndo = vUndo old, ubKey = key, ubOldPayload = vPayload old\<rparr> pid = Some rec"
        using undoBody_total by (fastforce simp: walUndoRec_def)
      have "wp (walAppend rec) (andThen (\<lambda>lsn. pbind (pmodify (setPrev tid lsn)) (\<lambda>_. pret uid)) (\<lambda>x d'. beside d d' \<and> undoLogged kind old (dbUndo d) x (dbUndo d'))) ?d1"
        by (rule wp_mono [OF wal_wp])
          (use a Inr b setPrev_beside in \<open>auto simp: andThen_def wp_simps undoLogged_def intro: beside_trans split: sum.splits\<close>)
      then show ?thesis using Inr r by (simp add: wp_simps)
    qed
  qed
  then show ?thesis using t unfolding LogUndo_def wp_pbind by (simp add: wp_basic andThen_simps wp_pbind wp_onUndo)
qed

lemma LogLogical_wp:
  assumes "kind \<in> {RecInsert, RecUpdate, RecDelete}"
  shows "wp (LogLogical tid kind key val) (\<lambda>_ d'. beside d d' \<and> dbUndo d' = dbUndo d) d"
proof (cases "dbTxns d tid")
  case (Some t)
  obtain rec where r: "(if kind = RecInsert then map_option Inr (LogicalInsert tid (xPrev t) key val)
                 else if kind = RecDelete then map_option Inr (LogicalDelete tid (xPrev t) key)
                 else if kind = RecUpdate then map_option Inr (LogicalUpdate tid (xPrev t) key val)
                 else Some (Inl (New InvalidArgument ''storage.LogLogical'' ''not a logical record type''))) = Some (Inr rec)"
    using assms logical_total(1,3) [of tid "xPrev t" key val] logical_total(2) [of tid "xPrev t" key] by (auto simp: RecInsert_def RecDelete_def RecUpdate_def)
  have "wp (walAppend rec) (andThen (\<lambda>lsn. pmodify (setPrev tid lsn)) (\<lambda>_ d'. beside d d' \<and> dbUndo d' = dbUndo d)) d"
    by (rule wp_mono [OF wal_wp]) (use setPrev_beside in \<open>auto simp: andThen_def wp_simps intro: beside_trans split: sum.splits\<close>)
  then show ?thesis using Some unfolding LogLogical_def wp_pbind by (simp add: wp_basic andThen_simps wp_pbind r)
qed (simp add: LogLogical_def wp_simps)

section \<open>The tree as a map, oversized records included\<close>

lemma encodeLeaf_bad: "\<not> leafOK (key, val) \<Longrightarrow> \<exists>e. encodeLeaf key val = Some (Inl e)"
  by (auto simp: encodeLeaf_def encodeLeafInto_def leafOK_def maxLeafRecord_def Let_def gbind_def checkKey_iff [symmetric] split: sum.splits)

abbreviation stored :: "(bytes \<rightharpoonup> bytes) \<Rightarrow> bytes \<Rightarrow> bytes \<Rightarrow> unit res \<Rightarrow> Tree \<Rightarrow> bool" where
  "stored m key val r t' \<equiv> r = Inr () \<and> represents t' (m(key \<mapsto> val)) \<or> (\<exists>e. r = Inl e) \<and> represents t' m"

lemma update_wp:
  assumes r: "writable t m key" and k: "m key = Some old"
  shows "wp (updateLocked key val) (stored m key val) t"
proof (cases "leafOK (key, val)")
  case True
  then show ?thesis by (rule wp_mono [OF updateLocked_map [OF r k]]) (auto simp: written_def refusedBy_def)
next
  case False
  then obtain e where e: "encodeLeaf key val = Some (Inl e)" using encodeLeaf_bad by blast
  obtain N E where t: "tree_ok t N E" "m = map_of (contents E (leaves t N))" using r by (auto simp: writable_def stores_def)
  have rep: "represents t m" using r bt.ready_rep by blast
  show ?thesis unfolding updateLocked_def
  proof (rule wp_pbindI [OF tree_descend [OF t(1), of key]], goal_cases)
    case (1 t1)
    note t1 = quiet_tree_ok [OF 1 t(1)] and f = quiet_fields [OF 1]
    have l: "leaves t1 N = leaves t N" using f(2,3) by (simp add: leaves_def depth_def)
    let ?c = "route (leaves t N) key"
    obtain p hdr fd where p: "pg t1 ?c = Inr p" "?c \<noteq> 0" "?c \<in> alive (eng t1)" "expectType p PageTypeBTreeLeaf = Some (Inr ())"
      "findLeafSlot p key = Some (Inr fd)" "map_option snd fd = map_of (contents E (leaves t N)) key"
      using leaf_lookup [OF t1, of ?c key] unfolding l by metis
    obtain sl where fd: "fd = Some (sl, old)" using p(6) k t(2) by auto
    have "represents (touch ?c t1) m" by (rule represents_quiet [OF quiet_trans [OF 1 quiet_touch [OF p(3)]] rep])
    moreover have le: "last (routes N (root t) key (Suc (depth t))) = ?c" using leaf_route [of N t key] by simp
    ultimately show ?case using p(1-5) e unfolding Let_def le fd by (simp add: wp_simps)
  qed
qed

text \<open>What a lookup finds, and inserting on the leaf it names.\<close>

lemma leafRaw_wp:
  assumes r: "writable t m key"
  shows "wp (leafRaw key) (\<lambda>x t'. \<exists>leafID. x = Inr (leafID, m key) \<and> writable t' m key \<and>
    (m key = None \<longrightarrow> (\<forall>val. wp (insertOnLeaf leafID key val) (stored m key val) t'))) t"
proof -
  obtain N E where w: "stores t N E m" "spacious t" "cutsFitFor t N E key" using r by (auto simp: writable_def)
  then have t: "tree_ok t N E" "m = map_of (contents E (leaves t N))" by (auto simp: stores_def)
  note rep = represents_of [OF w(1)]
  let ?c = "route (leaves t N) key"
  have one: "(\<exists>leafID. Inr (?c, m key) = Inr (leafID, m key) \<and> writable t1 m key \<and>
      (m key = None \<longrightarrow> (\<forall>val. wp (insertOnLeaf leafID key val) (stored m key val) t1)))" if q: "reads t t1" for t1
  proof -
    note t1 = reads_tree_ok [OF q t(1)]
    have l: "leaves t1 N = leaves t N" using reads_fields(8) [OF q] .
    note w1 = reads_stores [OF q w(1)] reads_spacious [OF q w(2)] reads_cuts [OF q w(3)]
    have room1: "writable t1 m key" unfolding writable_def using w1 by blast
    have "wp (insertOnLeaf ?c key val) (stored m key val) t1" if k: "m key = None" for val
    proof (cases "leafOK (key, val)")
      case False
      then obtain e where e: "encodeLeaf key val = Some (Inl e)" using encodeLeaf_bad by blast
      obtain p where p: "pg t1 ?c = Inr p" "?c \<noteq> 0" "?c \<in> alive (eng t1)" "expectType p PageTypeBTreeLeaf = Some (Inr ())"
        using leaf_lookup [OF t1, of ?c key] unfolding l by metis
      have "represents (touch ?c t1) m" by (rule represents_quiet [OF quiet_touch [OF p(3)] represents_reads [OF q rep]])
      then show ?thesis using p e by (simp add: insertOnLeaf_def wp_simps)
    next
      case True
      have k': "key \<notin> fst ` set (contents E (leaves t1 N))" using k t(2) by (simp add: map_of_eq_None_iff l)
      from insertOnLeaf_ok [OF t1 True k', unfolded splittable_iff] w1(2,3) 
      have "wp (insertOnLeaf ?c key val) (insertion (leafTakes t1 ?c (leafBytes (key, val))) E (leaves t1 N) (key, val)) t1"
        unfolding l by simp
      then show ?thesis
      proof (rule wp_mono)
        fix r t' assume "insertion (leafTakes t1 ?c (leafBytes (key, val))) E (leaves t1 N) (key, val) r t'"
        from insertion_map [OF w1(1) k this] show "stored m key val r t'" by (auto simp: written_def refusedBy_def split: if_splits)
      qed
    qed
    then show ?thesis using room1 by blast
  qed
  show ?thesis by (rule wp_mono [OF leafRaw_ok [OF t(1), of key]]) (use one t(2) in \<open>auto simp: found_def\<close>)
qed

lemma represents_live: "represents (t\<lparr>liveRows := n\<rparr>) m = represents t m" "represents (addLive i t) m = represents t m"
proof -
  have "tree_ok (t\<lparr>liveRows := n\<rparr>) N E = tree_ok t N E" "leaves (t\<lparr>liveRows := n\<rparr>) N = leaves t N" for N E n
    by (simp_all add: tree_ok_def depth_def leaves_def metaOK_def meta_at_def hintOK_def)
  then show "represents (t\<lparr>liveRows := n\<rparr>) m = represents t m" for n by (simp add: represents_def stores_def)
  then show "represents (addLive i t) m = represents t m" by (simp add: addLive_def)
qed

section \<open>What a write may do\<close>

datatype RowWrite = InsertRow bytes | UpdateRow bytes | DeleteRow

definition txnWrite :: "sealer \<Rightarrow> TxnID \<Rightarrow> bytes \<Rightarrow> RowWrite \<Rightarrow> Snapshot \<Rightarrow> (Db, unit) proc" where
  "txnWrite seal tid key w snap = (case w of
      InsertRow val \<Rightarrow> txnInsertAt seal tid key val snap
    | UpdateRow val \<Rightarrow> pbind (txnUpdateAt seal tid key val snap) (\<lambda>_. pret ())
    | DeleteRow \<Rightarrow> pbind (txnDeleteAt seal tid key snap) (\<lambda>_. pret ()))"

text \<open>The version a stored row has; a row from before versions counts as always committed.\<close>

definition curVer :: "bytes \<Rightarrow> Version" where
  "curVer raw = (case Inspect raw of Some (Inr (Some v)) \<Rightarrow> v | _ \<Rightarrow> \<lparr>vXmin = 0, vXmax = 0, vUndo = 0, vPayload = raw\<rparr>)"

definition overwritable :: "(TxnID \<Rightarrow> Status) \<Rightarrow> TxnID \<Rightarrow> Version \<Rightarrow> bool" where
  "overwritable st tid ver \<longleftrightarrow> vXmin ver = 0 \<or> vXmin ver = tid \<or> st (vXmin ver) \<noteq> StatusInProgress"

text \<open>The specification of a write over the map of the tree and the undo log. A write is refused before
  it logs anything, or fails after its undo record is logged, or puts in place a version that links to
  the record, which holds the version it replaces. Only the last three can report success.\<close>

inductive row_change :: "(TxnID \<Rightarrow> Status) \<Rightarrow> TxnID \<Rightarrow> bytes \<Rightarrow> RowWrite \<Rightarrow> Snapshot \<Rightarrow> (bytes \<rightharpoonup> bytes) \<Rightarrow> ULog \<Rightarrow> unit res \<Rightarrow>
    (bytes \<rightharpoonup> bytes) \<Rightarrow> ULog \<Rightarrow> bool"
  for st tid key w snap m u where
  refused: "kept u u' \<Longrightarrow> row_change st tid key w snap m u (Inl e) m u'"
| abandoned: "grew kind old u u' \<Longrightarrow> kind = KindInsert \<or> (\<exists>raw. m key = Some raw \<and> old = curVer raw) \<Longrightarrow> row_change st tid key w snap m u (Inl e) m u'"
| inserted: "w = InsertRow val \<Longrightarrow> m key = None \<Longrightarrow> grew KindInsert old u u' \<Longrightarrow>
    row_change st tid key w snap m u x (m(key \<mapsto> rowBytes \<lparr>vXmin = tid, vXmax = 0, vUndo = ulNextID u, vPayload = val\<rparr>)) u'"
| replaced: "w = InsertRow val \<and> visiblePayload u st raw snap = Some (Inr None) \<or> w = UpdateRow val \<and> (\<exists>p. visiblePayload u st raw snap = Some (Inr (Some p))) \<Longrightarrow>
    m key = Some raw \<Longrightarrow> overwritable st tid (curVer raw) \<Longrightarrow> grew KindUpdate (curVer raw) u u' \<Longrightarrow>
    row_change st tid key w snap m u x (m(key \<mapsto> rowBytes \<lparr>vXmin = tid, vXmax = 0, vUndo = ulNextID u, vPayload = val\<rparr>)) u'"
| tombstoned: "w = DeleteRow \<Longrightarrow> visiblePayload u st raw snap = Some (Inr (Some p)) \<Longrightarrow>
    m key = Some raw \<Longrightarrow> overwritable st tid (curVer raw) \<Longrightarrow> grew KindDelete (curVer raw) u u' \<Longrightarrow>
    row_change st tid key w snap m u x (m(key \<mapsto> rowBytes \<lparr>vXmin = vXmin (curVer raw), vXmax = tid, vUndo = ulNextID u, vPayload = vPayload (curVer raw)\<rparr>)) u'"

text \<open>The states a write starts from.\<close>

definition db_ok :: "Db \<Rightarrow> (bytes \<rightharpoonup> bytes) \<Rightarrow> bool" where
  "db_ok d m \<longleftrightarrow> represents (dbTree d) m \<and> crash (eng (dbTree d)) = None \<and> sized (dbUndo d) \<and> descending (dbUndo d) \<and>
     0 < ulNextID (dbUndo d) \<and> (\<forall>i \<in> dom (ulRecs (dbUndo d)). i < ulNextID (dbUndo d)) \<and>
     (\<forall>k raw. m k = Some raw \<longrightarrow> vUndo (curVer raw) < ulNextID (dbUndo d))"

definition wrote :: "TxnID \<Rightarrow> bytes \<Rightarrow> RowWrite \<Rightarrow> Snapshot \<Rightarrow> (bytes \<rightharpoonup> bytes) \<Rightarrow> Db \<Rightarrow> unit res \<Rightarrow> Db \<Rightarrow> bool" where
  "wrote tid key w snap m d x d' \<longleftrightarrow> StatusFn (dbTM d') = StatusFn (dbTM d) \<and> (\<forall>t. isDone t d' = isDone t d) \<and>
     (\<exists>m'. represents (dbTree d') m' \<and> row_change (StatusFn (dbTM d)) tid key w snap m (dbUndo d) x m' (dbUndo d'))"

section \<open>Writes meet the specification\<close>

lemma rowEncode_eq: "rowEncode v = Some (rowBytes v)"
  by (simp add: rowEncode_def EncodeInto_eq)

lemma lockWrite_frame:
  assumes "lockWrite tid key d = Some (d1, r)"
  shows "dbTree d1 = dbTree d \<and> dbUndo d1 = dbUndo d \<and> dbTxns d1 = dbTxns d \<and> mActive (dbTM d1) = mActive (dbTM d) \<and> mStatus (dbTM d1) = mStatus (dbTM d)"
  using assms by (auto simp: lockWrite_def lockKey_def LockKey_def split: option.splits if_splits prod.splits outcome.splits)

lemma status_same: "mActive tm = mActive tm' \<Longrightarrow> mStatus tm = mStatus tm' \<Longrightarrow> StatusFn tm = StatusFn tm'"
  by (auto simp: StatusFn_def statusLocked_def fun_eq_iff)

lemma row_change_err: "row_change st tid key w snap m u x m' u' \<Longrightarrow> row_change st tid key w snap m u (Inl e) m' u'"
  by (auto elim!: row_change.cases intro: row_change.intros)

lemma wrote_leave:
  assumes "wp fn (\<lambda>x d'. wrote tid key w snap m d (map_sum id (\<lambda>_. ()) x) d') d0"
  shows "wp (withWrite fn) (\<lambda>x d'. wrote tid key w snap m d (map_sum id (\<lambda>_. ()) x) d') d0"
  unfolding withWrite_def wp_ptry
proof (rule wp_mono [OF assms])
  fix x d' assume a: "wrote tid key w snap m d (map_sum id (\<lambda>_. ()) x) d'"
  have b: "wrote tid key w snap m d (map_sum id (\<lambda>_. ()) x) (d'\<lparr>dbWalErrs := es\<rparr>)" for es using a by (simp add: wrote_def isDone_def)
  moreover have "wrote tid key w snap m d (Inl e) (d'\<lparr>dbWalErrs := es\<rparr>)" for e es
    using b [of es] row_change_err unfolding wrote_def by metis
  ultimately show "eitherWay LeaveOp (\<lambda>x d'. wrote tid key w snap m d (map_sum id (\<lambda>_. ()) x) d') x d'"
    using a by (cases x) (auto simp: eitherWay_def wp_def LeaveOp_def split: list.splits option.splits)
qed

lemma wrote_lock:
  assumes l: "lockWrite tid key d = Some (d1, lr)"
    and b: "lr = Inr () \<Longrightarrow> wp body (\<lambda>x d'. wrote tid key w snap m d1 (map_sum id (\<lambda>_. ()) x) d') d1"
    and r: "represents (dbTree d) m"
  shows "wp (pbind (lockWrite tid key) (\<lambda>_. body)) (\<lambda>x d'. wrote tid key w snap m d (map_sum id (\<lambda>_. ()) x) d') d"
proof -
  note f = lockWrite_frame [OF l]
  have st: "StatusFn (dbTM d1) = StatusFn (dbTM d)" by (rule status_same) (use f in simp_all)
  have ret: "wrote tid key w snap m d x d'" if "wrote tid key w snap m d1 x d'" for x d'
    using that f by (simp add: wrote_def st isDone_def)
  show ?thesis
  proof (cases lr)
    case (Inl e)
    have "row_change (StatusFn (dbTM d)) tid key w snap m (dbUndo d) (Inl e) m (dbUndo d)" by (rule row_change.refused) (simp add: kept_def)
    then show ?thesis using l Inl r f by (auto simp: wp_pbind wp_run andThen_simps wrote_def st isDone_def)
  next
    case (Inr y)
    have "wp body (\<lambda>x d'. wrote tid key w snap m d (map_sum id (\<lambda>_. ()) x) d') d1" by (rule wp_mono [OF b]) (use Inr ret in simp_all)
    then show ?thesis using l Inr by (simp add: wp_pbind wp_run andThen_simps)
  qed
qed

lemma logged_wp:
  fixes k :: "bytes \<Rightarrow> (Db, 'a) proc"
  assumes s: "sized (dbUndo d)" "tid \<in> dom (dbTxns d)" and rk: "rk \<in> {RecInsert, RecUpdate, RecDelete}"
    and fin: "\<And>d2. beside d d2 \<Longrightarrow> grew kind old (dbUndo d) (dbUndo d2) \<Longrightarrow> wp (k (rowBytes (mk (ulNextID (dbUndo d))))) Q d2"
    and err: "\<And>d2 e. beside d d2 \<Longrightarrow> kept (dbUndo d) (dbUndo d2) \<or> grew kind old (dbUndo d) (dbUndo d2) \<Longrightarrow> Q (Inl e) d2"
  shows "wp (pbind (LogUndo seal tid kind leafID key old) (\<lambda>uid. pbind (pgo (map_option Inr (rowEncode (mk uid)))) (\<lambda>neu.
    pbind (LogLogical tid rk key lv) (\<lambda>_. k neu)))) Q d"
  unfolding wp_pbind [of "LogUndo seal tid kind leafID key old"]
proof (rule wp_mono [OF LogUndo_wp [OF s]], elim conjE, goal_cases)
  case (1 x d1)
  note b1 = 1(1) and g1 = 1(2) [unfolded undoLogged_def]
  show ?case
  proof (cases x)
    case (Inl e)
    then show ?thesis using err [OF b1] g1 by (simp add: andThen_simps)
  next
    case (Inr uid)
    then have g: "uid = ulNextID (dbUndo d)" "grew kind old (dbUndo d) (dbUndo d1)" using g1 by simp_all
    have "wp (LogLogical tid rk key lv) (andThen (\<lambda>_. k (rowBytes (mk uid))) Q) d1"
    proof (rule wp_mono [OF LogLogical_wp [OF rk]], elim conjE)
      fix y d2 assume b: "beside d1 d2" "dbUndo d2 = dbUndo d1"
      note b2 = beside_trans [OF b1 b(1)]
      show "andThen (\<lambda>_. k (rowBytes (mk uid))) Q y d2"
        using err [OF b2] fin [OF b2] g b(2) by (cases y) (simp_all add: andThen_simps)
    qed
    then show ?thesis using Inr by (simp add: wp_simps rowEncode_eq)
  qed
qed

lemma visiblePayload_total: "descending u \<Longrightarrow> \<exists>x. visiblePayload u st raw snap = Some x"
  using payloadWalk_total [of u st snap] Inspect_total [of raw] by (auto simp: visiblePayload_def gbind_def split: sum.splits option.splits)

lemma row_cases:
  assumes "descending u"
  obtains (bad) e where "Inspect raw = Some (Inl e)" "visiblePayload u st raw snap = Some (Inl e)" "rowDecode raw = Some (Inl e)"
  | (plain) "Inspect raw = Some (Inr None)" "visiblePayload u st raw snap = Some (Inr (Some raw))" "rowDecode raw = Some (Inr None)"
      "curVer raw = \<lparr>vXmin = 0, vXmax = 0, vUndo = 0, vPayload = raw\<rparr>"
  | (ver) v x where "Inspect raw = Some (Inr (Some v))" "visiblePayload u st raw snap = payloadWalk u st snap v" "payloadWalk u st snap v = Some x"
      "rowDecode raw = Some (Inr (Some v))" "curVer raw = v"
proof -
  obtain y where y: "Inspect raw = Some y" using Inspect_total by blast
  show thesis
  proof (cases y)
    case (Inl e)
    then show thesis using y by (intro bad) (simp_all add: visiblePayload_def rowDecode_def gbind_def)
  next
    case (Inr v)
    show thesis
    proof (cases v)
      case None
      then show thesis using y Inr by (intro plain) (simp_all add: visiblePayload_def rowDecode_def gbind_def curVer_def)
    next
      case (Some w)
      obtain x where "payloadWalk u st snap w = Some x" using payloadWalk_total [OF assms] by blast
      then show thesis using y Inr Some by (intro ver) (simp_all add: visiblePayload_def rowDecode_def gbind_def curVer_def)
    qed
  qed
qed

lemma conflicts_overwritable: "\<not> conflictsWithLiveWriter st tid v True \<longleftrightarrow> overwritable st tid v"
  by (simp add: conflictsWithLiveWriter_def overwritable_def)

lemma seen_wp:
  assumes "descending (dbUndo d)"
  shows "wp (seenVersion op tid snap (m key)) (\<lambda>x d'. d' = d \<and> (case x of Inl e \<Rightarrow> True | Inr (v, has, payload) \<Rightarrow>
    \<exists>raw. m key = Some raw \<and> v = curVer raw \<and> overwritable (statusOf d) tid v \<and> visiblePayload (dbUndo d) (statusOf d) raw snap = Some (Inr (Some payload)) \<and>
      (\<not> has \<longrightarrow> v = \<lparr>vXmin = 0, vXmax = 0, vUndo = 0, vPayload = payload\<rparr>))) d"
proof (cases "m key")
  case None
  then show ?thesis by (simp add: seenVersion_def wp_simps)
next
  case (Some raw)
  have pg: "wp (readRow raw snap) Q d = (case visiblePayload (dbUndo d) (statusOf d) raw snap of None \<Rightarrow> False | Some r \<Rightarrow> Q r d)" for Q
    by (simp add: wp_def pgo_def split: option.splits)
  show ?thesis using assms
  proof (cases rule: row_cases [where raw = raw and st = "statusOf d" and snap = snap])
    case (bad e)
    then show ?thesis using Some by (simp add: seenVersion_def wp_pbind pg andThen_simps)
  next
    case plain
    then show ?thesis using Some
      by (simp add: seenVersion_def wp_pbind pg andThen_simps wp_basic Let_def conflictsWithLiveWriter_def newerThanSnap_def overwritable_def split: option.splits)
  next
    case (ver v x)
    show ?thesis
    proof (cases x)
      case (Inl e)
      then show ?thesis using ver Some by (simp add: seenVersion_def wp_pbind pg andThen_simps)
    next
      case (Inr p)
      then show ?thesis using ver Some
        by (cases p) (auto simp: seenVersion_def wp_pbind pg andThen_simps wp_basic Let_def conflicts_overwritable)
    qed
  qed
qed

lemma insertOver_wp:
  assumes ok: "db_ok d m" and r: "writable (dbTree d) m key" and t: "tid \<in> dom (dbTxns d)" and k: "m key = Some raw"
  shows "wp (insertOver seal tid key val snap leafID raw) (wrote tid key (InsertRow val) snap m d) d"
proof -
  have de: "descending (dbUndo d)" "sized (dbUndo d)" "represents (dbTree d) m" using ok by (auto simp: db_ok_def)
  have pg: "wp (readRow raw snap) Q d = (case visiblePayload (dbUndo d) (statusOf d) raw snap of None \<Rightarrow> False | Some r \<Rightarrow> Q r d)" for Q
    by (simp add: wp_def pgo_def split: option.splits)
  have same: "wrote tid key (InsertRow val) snap m d (Inl e) d" for e
    unfolding wrote_def using de(3) row_change.refused [of "dbUndo d" "dbUndo d"] by (auto simp: kept_def)
  show ?thesis using de(1)
  proof (cases rule: row_cases [where raw = raw and st = "statusOf d" and snap = snap])
    case (bad e)
    then show ?thesis using same by (simp add: insertOver_def wp_pbind wp_basic andThen_simps)
  next
    case plain
    then show ?thesis using same by (simp add: insertOver_def wp_pbind pg wp_basic andThen_simps Let_def)
  next
    case (ver v x)
    let ?mk = "\<lambda>uid. \<lparr>vXmin = tid, vXmax = 0, vUndo = uid, vPayload = val\<rparr>"
    let ?u = "dbUndo d"
    have tl: "wp (pbind (LogUndo seal tid KindUpdate leafID key v) (\<lambda>uid. pbind (pgo (map_option Inr (rowEncode (?mk uid)))) (\<lambda>neu.
        pbind (LogLogical tid RecInsert key val) (\<lambda>_. pbind (onTree (updateLocked key neu)) (\<lambda>_. pmodify (\<lambda>d. d\<lparr>dbTree := addLive 1 (dbTree d)\<rparr>))))))
        (wrote tid key (InsertRow val) snap m d) d"
      if vis: "visiblePayload ?u (statusOf d) raw snap = Some (Inr None)" and ow: "overwritable (statusOf d) tid v"
    proof (rule logged_wp [OF de(2) t])
      fix d2 assume b: "beside d d2" and g: "grew KindUpdate v ?u (dbUndo d2)"
      let ?m' = "m(key \<mapsto> rowBytes (?mk (ulNextID ?u)))"
      have ch: "row_change (statusOf d) tid key (InsertRow val) snap m ?u y ?m' (dbUndo d2)" for y
        by (rule row_change.replaced) (use vis k ow g ver(5) in auto)
      have ab: "row_change (statusOf d) tid key (InsertRow val) snap m ?u (Inl e) m (dbUndo d2)" for e
        by (rule row_change.abandoned [OF g]) (use k ver(5) in auto)
      have "wp (updateLocked key (rowBytes (?mk (ulNextID ?u)))) (stored m key (rowBytes (?mk (ulNextID ?u)))) (dbTree d2)"
        by (rule update_wp [of _ _ _ raw]) (use r b k in \<open>simp_all add: beside_def\<close>)
      then show "wp (pbind (onTree (updateLocked key (rowBytes (?mk (ulNextID ?u))))) (\<lambda>_. pmodify (\<lambda>d. d\<lparr>dbTree := addLive 1 (dbTree d)\<rparr>)))
          (wrote tid key (InsertRow val) snap m d) d2"
        unfolding wp_pbind wp_onTree
        by (rule wp_mono) (use ch ab b in \<open>auto simp: andThen_def wp_pmodify wrote_def beside_def isDone_def represents_live split: sum.splits\<close>)
    next
      fix d2 e assume b: "beside d d2" and g: "kept ?u (dbUndo d2) \<or> grew KindUpdate v ?u (dbUndo d2)"
      have "row_change (statusOf d) tid key (InsertRow val) snap m ?u (Inl e) m (dbUndo d2)"
        using g k ver(5) by (auto intro: row_change.refused row_change.abandoned)
      then show "wrote tid key (InsertRow val) snap m d (Inl e) d2" using b de(3) by (auto simp: wrote_def beside_def)
    qed simp
    show ?thesis
    proof (cases x)
      case (Inl e)
      then show ?thesis using ver same by (simp add: insertOver_def wp_pbind pg wp_basic andThen_simps Let_def)
    next
      case (Inr p)
      then show ?thesis using ver same tl
        by (cases p) (auto simp: insertOver_def wp_pbind [of "pgo _"] wp_pbind [of "readRow _ _"] wp_pbind [of "pget _"] pg wp_basic andThen_simps Let_def conflicts_overwritable)
    qed
  qed
qed

lemma insertNew_wp:
  assumes ok: "db_ok d m" and t: "tid \<in> dom (dbTxns d)" and k: "m key = None"
    and i: "\<And>val. wp (insertOnLeaf leafID key val) (stored m key val) (dbTree d)"
  shows "wp (insertNew seal tid key val leafID) (wrote tid key (InsertRow val) snap m d) d"
proof -
  let ?mk = "\<lambda>uid. \<lparr>vXmin = tid, vXmax = 0, vUndo = uid, vPayload = val\<rparr>"
  let ?u = "dbUndo d" and ?z = "\<lparr>vXmin = 0, vXmax = 0, vUndo = 0, vPayload = []\<rparr>"
  have de: "sized ?u" "represents (dbTree d) m" using ok by (auto simp: db_ok_def)
  show ?thesis unfolding insertNew_def
  proof (rule logged_wp [OF de(1) t])
    fix d2 assume b: "beside d d2" and g: "grew KindInsert ?z ?u (dbUndo d2)"
    let ?m' = "m(key \<mapsto> rowBytes (?mk (ulNextID ?u)))"
    have ch: "row_change (statusOf d) tid key (InsertRow val) snap m ?u y ?m' (dbUndo d2)" for y
      by (rule row_change.inserted) (use k g in simp_all)
    have ab: "row_change (statusOf d) tid key (InsertRow val) snap m ?u (Inl e) m (dbUndo d2)" for e
      using g by (auto intro: row_change.abandoned)
    have "wp (insertOnLeaf leafID key (rowBytes (?mk (ulNextID ?u)))) (stored m key (rowBytes (?mk (ulNextID ?u)))) (dbTree d2)"
      using i b by (simp add: beside_def)
    then show "wp (pbind (onTree (insertOnLeaf leafID key (rowBytes (?mk (ulNextID ?u))))) (\<lambda>_. pmodify (\<lambda>d. d\<lparr>dbTree := addLive 1 (dbTree d)\<rparr>)))
        (wrote tid key (InsertRow val) snap m d) d2"
      unfolding wp_pbind wp_onTree
      by (rule wp_mono) (use ch ab b in \<open>auto simp: andThen_def wp_pmodify wrote_def beside_def isDone_def represents_live split: sum.splits\<close>)
  next
    fix d2 e assume b: "beside d d2" and g: "kept ?u (dbUndo d2) \<or> grew KindInsert ?z ?u (dbUndo d2)"
    have "row_change (statusOf d) tid key (InsertRow val) snap m ?u (Inl e) m (dbUndo d2)"
      using g by (auto intro: row_change.refused row_change.abandoned)
    then show "wrote tid key (InsertRow val) snap m d (Inl e) d2" using b de(2) by (auto simp: wrote_def beside_def)
  qed simp
qed

text \<open>The common start of the three writers: the crash point is not armed and the lookup leaves all but
  the tree's cache and hints.\<close>

lemma wrote_from: "wrote tid key w snap m (d\<lparr>dbTree := t\<rparr>) = wrote tid key w snap m d"
  by (intro ext) (simp add: wrote_def isDone_def)

lemma after_lookup:
  assumes ok: "db_ok d m" and r: "writable (dbTree d) m key"
    and k: "\<And>t leafID. db_ok (d\<lparr>dbTree := t\<rparr>) m \<Longrightarrow> writable t m key \<Longrightarrow>
      (m key = None \<Longrightarrow> \<forall>val. wp (insertOnLeaf leafID key val) (stored m key val) t) \<Longrightarrow> wp (f leafID (m key)) Q (d\<lparr>dbTree := t\<rparr>)"
  shows "wp (pbind (onTree (onEng (CrashAt p))) (\<lambda>_. pbind (onTree (leafRaw key)) (\<lambda>(leafID, cur). f leafID cur))) Q d"
proof -
  have c: "onTree (onEng (CrashAt p)) d = Some (d, Inr ())"
    using ok by (simp add: db_ok_def onTree_def onEng_def CrashAt_def Hit_def)
  obtain t1 x where t1: "leafRaw key (dbTree d) = Some (t1, Inr (x, m key))" "writable t1 m key"
    "m key = None \<longrightarrow> (\<forall>val. wp (insertOnLeaf x key val) (stored m key val) t1)"
    using leafRaw_wp [OF r] by (auto simp: wp_iff)
  obtain N E where "tree_ok (dbTree d) N E" using r by (auto simp: writable_def stores_def)
  then have q: "reads (dbTree d) t1" using leafRaw_ok [of "dbTree d" N E key] t1(1) by (auto simp: wp_iff)
  have "crash (eng t1) = None" using q ok by (auto simp: reads_def quiet_def clearHint_def db_ok_def)
  then have "db_ok (d\<lparr>dbTree := t1\<rparr>) m" using ok bt.ready_rep [OF t1(2)] by (simp add: db_ok_def)
  then have "wp (f x (m key)) Q (d\<lparr>dbTree := t1\<rparr>)" by (rule k) (use t1(2,3) in simp_all)
  moreover have "onTree (leafRaw key) d = Some (d\<lparr>dbTree := t1\<rparr>, Inr (x, m key))" using t1(1) by (simp add: onTree_def)
  ultimately show ?thesis using c by (simp add: wp_pbind wp_run andThen_def)
qed

lemma insert_refines:
  assumes ok: "db_ok d m" and r: "writable (dbTree d) m key" and t: "tid \<in> dom (dbTxns d)" and l: "lockWrite tid key d = Some (d1, lr)"
  shows "wp (txnInsertAt seal tid key val snap) (wrote tid key (InsertRow val) snap m d) d"
proof -
  note f = lockWrite_frame [OF l]
  have ok1: "db_ok d1 m" "writable (dbTree d1) m key" "tid \<in> dom (dbTxns d1)" using ok r t f by (simp_all add: db_ok_def)
  let ?body = "pbind (onTree (onEng (CrashAt PointDuringInsert))) (\<lambda>_. pbind (onTree (leafRaw key)) (\<lambda>(leafID, found). case found of
         Some raw \<Rightarrow> insertOver seal tid key val snap leafID raw | None \<Rightarrow> insertNew seal tid key val leafID))"
  have "wp ?body (\<lambda>x d'. wrote tid key (InsertRow val) snap m d1 (map_sum id (\<lambda>_. ()) x) d') d1"
  proof (rule after_lookup [OF ok1(1,2), where f = "\<lambda>leafID cur. case cur of Some raw \<Rightarrow> insertOver seal tid key val snap leafID raw | None \<Rightarrow> insertNew seal tid key val leafID"])
    fix t1 leafID assume a: "db_ok (d1\<lparr>dbTree := t1\<rparr>) m" "writable t1 m key" "m key = None \<Longrightarrow> \<forall>val. wp (insertOnLeaf leafID key val) (stored m key val) t1"
    have u: "map_sum id (\<lambda>_. ()) x = x" for x :: "unit res" by (cases x) simp_all
    show "wp (case m key of Some raw \<Rightarrow> insertOver seal tid key val snap leafID raw | None \<Rightarrow> insertNew seal tid key val leafID)
        (\<lambda>x d'. wrote tid key (InsertRow val) snap m d1 (map_sum id (\<lambda>_. ()) x) d') (d1\<lparr>dbTree := t1\<rparr>)"
      using insertNew_wp [OF a(1), of tid key leafID seal val snap] insertOver_wp [OF a(1), of key tid _ seal val snap leafID] a(2,3) ok1(3)
      by (cases "m key") (simp_all add: wrote_from u)
  qed
  then have "wp (withWrite ?body) (\<lambda>x d'. wrote tid key (InsertRow val) snap m d1 (map_sum id (\<lambda>_. ()) x) d') d1" by (rule wrote_leave)
  then have "wp (txnInsertAt seal tid key val snap) (\<lambda>x d'. wrote tid key (InsertRow val) snap m d (map_sum id (\<lambda>_. ()) x) d') d"
    unfolding txnInsertAt_def by (intro wrote_lock [OF l]) (use ok in \<open>simp_all add: db_ok_def\<close>)
  then show ?thesis
  proof (rule wp_mono)
    fix x :: "unit res" and d' assume "wrote tid key (InsertRow val) snap m d (map_sum id (\<lambda>_. ()) x) d'"
    then show "wrote tid key (InsertRow val) snap m d x d'" by (cases x) simp_all
  qed
qed

text \<open>What follows the checks in \<open>updateAt\<close> and \<open>deleteAt\<close>: log, write over the row and finish.\<close>

lemma overwrite_wp:
  assumes ok: "db_ok d m" and r: "writable (dbTree d) m key" and t: "tid \<in> dom (dbTxns d)" and k: "m key = Some raw"
    and rk: "rk \<in> {RecInsert, RecUpdate, RecDelete}" and kind: "kind \<noteq> KindInsert"
    and ch: "\<And>u' x. grew kind (curVer raw) (dbUndo d) u' \<Longrightarrow>
      row_change (statusOf d) tid key w snap m (dbUndo d) x (m(key \<mapsto> rowBytes (mk (ulNextID (dbUndo d))))) u'"
    and pre: "\<And>d. wp pre (\<lambda>x d'. x = Inr () \<and> dbTree d' = dbTree d \<and> dbUndo d' = dbUndo d \<and> dbTM d' = dbTM d \<and> (\<forall>t. isDone t d' = isDone t d)) d"
    and fin: "\<And>d. wp fin (\<lambda>x d'. (\<exists>y. x = Inr y) \<and> (\<forall>m. represents (dbTree d') m = represents (dbTree d) m) \<and> dbUndo d' = dbUndo d \<and> dbTM d' = dbTM d \<and> (\<forall>t. isDone t d' = isDone t d)) d"
  shows "wp (pbind (LogUndo seal tid kind leafID key (curVer raw)) (\<lambda>uid. pbind (pgo (map_option Inr (rowEncode (mk uid)))) (\<lambda>neu.
      pbind (LogLogical tid rk key lv) (\<lambda>_. pbind pre (\<lambda>_. pbind (onTree (updateLocked key neu)) (\<lambda>_. fin))))))
    (\<lambda>x d'. wrote tid key w snap m d (map_sum id (\<lambda>_. ()) x) d') d"
proof -
  let ?u = "dbUndo d" let ?neu = "rowBytes (mk (ulNextID ?u))"
  have de: "sized ?u" "represents (dbTree d) m" using ok by (auto simp: db_ok_def)
  have ab: "row_change (statusOf d) tid key w snap m ?u (Inl e) m u'" if "kept ?u u' \<or> grew kind (curVer raw) ?u u'" for e u'
    using that k by (auto intro: row_change.refused row_change.abandoned)
  show ?thesis
  proof (rule logged_wp [OF de(1) t rk])
    fix d2 assume b: "beside d d2" and g: "grew kind (curVer raw) ?u (dbUndo d2)"
    have one: "wp (updateLocked key ?neu) (stored m key ?neu) (dbTree d2)"
      by (rule update_wp [of _ _ _ raw]) (use r b k in \<open>simp_all add: beside_def\<close>)
    show "wp (pbind pre (\<lambda>_. pbind (onTree (updateLocked key ?neu)) (\<lambda>_. fin))) (\<lambda>x d'. wrote tid key w snap m d (map_sum id (\<lambda>_. ()) x) d') d2"
      unfolding wp_pbind
    proof (rule wp_mono [OF pre], elim conjE)
      fix x :: "unit res" and d3 assume p: "x = Inr ()" "dbTree d3 = dbTree d2" "dbUndo d3 = dbUndo d2" "dbTM d3 = dbTM d2" "\<forall>t. isDone t d3 = isDone t d2"
      have "wp (onTree (updateLocked key ?neu)) (andThen (\<lambda>_. fin) (\<lambda>x d'. wrote tid key w snap m d (map_sum id (\<lambda>_. ()) x) d')) d3"
        unfolding wp_onTree p(2)
      proof (rule wp_mono [OF one])
        fix y t' assume st: "stored m key ?neu y t'"
        show "andThen (\<lambda>_. fin) (\<lambda>x d'. wrote tid key w snap m d (map_sum id (\<lambda>_. ()) x) d') y (d3\<lparr>dbTree := t'\<rparr>)"
        proof (cases y)
          case (Inl e)
          then show ?thesis using st p b ch [OF g, of "Inl e"] ab [of "dbUndo d2" e] g by (auto simp: andThen_simps wrote_def beside_def isDone_def)
        next
          case (Inr z)
          then show ?thesis unfolding Inr andThen_simps
            by (intro wp_mono [OF fin]) (use st Inr p b ch [OF g] in \<open>auto simp: wrote_def beside_def isDone_def represents_live\<close>)
        qed
      qed
      then show "andThen (\<lambda>_. pbind (onTree (updateLocked key ?neu)) (\<lambda>_. fin)) (\<lambda>x d'. wrote tid key w snap m d (map_sum id (\<lambda>_. ()) x) d') x d3"
        unfolding p(1) andThen_simps wp_pbind .
    qed
  next
    fix d2 e assume b: "beside d d2" and g: "kept ?u (dbUndo d2) \<or> grew kind (curVer raw) ?u (dbUndo d2)"
    then show "wrote tid key w snap m d (map_sum id (\<lambda>_. ()) (Inl e)) d2" using ab [OF g] de(2) by (auto simp: wrote_def beside_def)
  qed
qed

text \<open>The checks themselves leave the state, and both writers run under the key's lock.\<close>

lemma checked_wp:
  assumes ok: "db_ok d m" and r: "writable (dbTree d) m key" and t: "tid \<in> dom (dbTxns d)" and l: "lockWrite tid key d = Some (d1, lr)"
    and b: "\<And>d leafID raw v has payload. db_ok d m \<Longrightarrow> writable (dbTree d) m key \<Longrightarrow> tid \<in> dom (dbTxns d) \<Longrightarrow> m key = Some raw \<Longrightarrow> v = curVer raw \<Longrightarrow>
      overwritable (statusOf d) tid v \<Longrightarrow> visiblePayload (dbUndo d) (statusOf d) raw snap = Some (Inr (Some payload)) \<Longrightarrow>
      (\<not> has \<longrightarrow> v = \<lparr>vXmin = 0, vXmax = 0, vUndo = 0, vPayload = payload\<rparr>) \<Longrightarrow>
      wp (body leafID v has payload) (\<lambda>x d'. wrote tid key w snap m d (map_sum id (\<lambda>_. ()) x) d') d"
  shows "wp (pbind (lockWrite tid key) (\<lambda>_. withWrite (pbind (onTree (onEng (CrashAt p))) (\<lambda>_. pbind (onTree (leafRaw key)) (\<lambda>(leafID, found).
      pbind (seenVersion op tid snap found) (\<lambda>(v, has, payload). body leafID v has payload))))))
    (\<lambda>x d'. wrote tid key w snap m d (map_sum id (\<lambda>_. ()) x) d') d"
proof -
  note f = lockWrite_frame [OF l]
  have ok1: "db_ok d1 m" "writable (dbTree d1) m key" "tid \<in> dom (dbTxns d1)" using ok r t f by (simp_all add: db_ok_def)
  show ?thesis
  proof (rule wrote_lock [OF l], rule wrote_leave, rule after_lookup [OF ok1(1,2)])
    fix t1 leafID assume a: "db_ok (d1\<lparr>dbTree := t1\<rparr>) m" "writable t1 m key"
    let ?d = "d1\<lparr>dbTree := t1\<rparr>"
    have "wp (pbind (seenVersion op tid snap (m key)) (\<lambda>(v, has, payload). body leafID v has payload))
        (\<lambda>x d'. wrote tid key w snap m ?d (map_sum id (\<lambda>_. ()) x) d') ?d"
      unfolding wp_pbind
    proof (rule wp_mono [OF seen_wp], goal_cases)
      case 1
      then show ?case using a by (simp add: db_ok_def)
    next
      case (2 x d')
      have "wrote tid key w snap m ?d (Inl e) ?d" for e
        using a(1) row_change.refused [of "dbUndo ?d" "dbUndo ?d"] by (auto simp: wrote_def kept_def db_ok_def)
      moreover have "wp (body leafID v has payload) (\<lambda>x d'. wrote tid key w snap m ?d (map_sum id (\<lambda>_. ()) x) d') ?d"
        if "x = Inr (v, has, payload)" for v has payload
        using 2 that a ok1(3) by (auto intro!: b)
      ultimately show ?case using 2 by (cases x) (auto simp: andThen_simps)
    qed
    then show "wp (pbind (seenVersion op tid snap (m key)) (\<lambda>(v, has, payload). body leafID v has payload))
        (\<lambda>x d'. wrote tid key w snap m d1 (map_sum id (\<lambda>_. ()) x) d') ?d" by (simp add: wrote_from)
  qed (use ok in \<open>simp add: db_ok_def\<close>)
qed

lemma pbind_pret: "pbind (pret x) f = f x"
  by (simp add: pbind_def pret_def fun_eq_iff)

lemma update_refines:
  assumes "db_ok d m" "writable (dbTree d) m key" "tid \<in> dom (dbTxns d)" "lockWrite tid key d = Some (d1, lr)"
  shows "wp (txnUpdateAt seal tid key val snap) (\<lambda>x d'. wrote tid key (UpdateRow val) snap m d (map_sum id (\<lambda>_. ()) x) d') d"
  unfolding txnUpdateAt_def
proof (rule checked_wp [OF assms], goal_cases)
  case (1 d leafID raw v has payload)
  have "row_change (statusOf d) tid key (UpdateRow val) snap m (dbUndo d) x
      (m(key \<mapsto> rowBytes \<lparr>vXmin = tid, vXmax = 0, vUndo = ulNextID (dbUndo d), vPayload = val\<rparr>)) u'"
    if "grew KindUpdate (curVer raw) (dbUndo d) u'" for u' x
    by (rule row_change.replaced [where raw = raw]) (use that 1 in auto)
  note o = overwrite_wp [where pre = "pret ()" and mk = "\<lambda>uid. \<lparr>vXmin = tid, vXmax = 0, vUndo = uid, vPayload = val\<rparr>" and fin = "pret payload",
      OF 1(1-4) _ _ this, unfolded pbind_pret]
  show ?case unfolding 1(5) by (rule o) (auto simp: wp_simps KindUpdate_def KindInsert_def)
qed

lemma delete_refines:
  assumes "db_ok d m" "writable (dbTree d) m key" "tid \<in> dom (dbTxns d)" "lockWrite tid key d = Some (d1, lr)"
  shows "wp (txnDeleteAt seal tid key snap) (\<lambda>x d'. wrote tid key DeleteRow snap m d (map_sum id (\<lambda>_. ()) x) d') d"
  unfolding txnDeleteAt_def
proof (rule checked_wp [OF assms], goal_cases)
  case (1 d leafID raw v has payload)
  let ?mk = "\<lambda>uid. if vXmin v = 0 \<and> \<not> has then \<lparr>vXmin = 0, vXmax = tid, vUndo = uid, vPayload = payload\<rparr>
    else \<lparr>vXmin = vXmin v, vXmax = tid, vUndo = uid, vPayload = vPayload v\<rparr>"
  have mk: "?mk uid = \<lparr>vXmin = vXmin (curVer raw), vXmax = tid, vUndo = uid, vPayload = vPayload (curVer raw)\<rparr>" for uid
    using 1(5,8) by auto
  have "row_change (statusOf d) tid key DeleteRow snap m (dbUndo d) x (m(key \<mapsto> rowBytes (?mk (ulNextID (dbUndo d))))) u'"
    if "grew KindDelete (curVer raw) (dbUndo d) u'" for u' x
    unfolding mk by (rule row_change.tombstoned) (use that 1 in auto)
  note o = overwrite_wp [where pre = "pmodify (noteDeleted tid key)" and mk = ?mk and
      fin = "pbind (pmodify (\<lambda>d. d\<lparr>dbTree := addLive (- 1) (dbTree d)\<rparr>)) (\<lambda>_. pret payload)", OF 1(1-4) _ _ this]
  show ?case unfolding 1(5)
    by (rule o [unfolded 1(5)])
      (auto simp: wp_simps wp_pmodify noteDeleted_def isDone_def represents_live KindDelete_def KindInsert_def split: option.splits)
qed

lemma txnWrite_wp:
  assumes "db_ok d m" "writable (dbTree d) m key" "tid \<in> dom (dbTxns d)" "lockWrite tid key d = Some (d1, lr)"
  shows "wp (txnWrite seal tid key w snap) (wrote tid key w snap m d) d"
proof (cases w)
  case (InsertRow val)
  then show ?thesis using insert_refines [OF assms] by (simp add: txnWrite_def)
next
  case (UpdateRow val)
  show ?thesis unfolding UpdateRow txnWrite_def RowWrite.case wp_pbind
  proof (rule wp_mono [OF update_refines [OF assms]])
    fix x :: "bytes res" and d' assume "wrote tid key (UpdateRow val) snap m d (map_sum id (\<lambda>_. ()) x) d'"
    then show "andThen (\<lambda>_. pret ()) (wrote tid key (UpdateRow val) snap m d) x d'" by (cases x) (simp_all add: wp_simps)
  qed
next
  case DeleteRow
  show ?thesis unfolding DeleteRow txnWrite_def RowWrite.case wp_pbind
  proof (rule wp_mono [OF delete_refines [OF assms]])
    fix x :: "bytes res" and d' assume "wrote tid key DeleteRow snap m d (map_sum id (\<lambda>_. ()) x) d'"
    then show "andThen (\<lambda>_. pret ()) (wrote tid key DeleteRow snap m d) x d'" by (cases x) (simp_all add: wp_simps)
  qed
qed

section \<open>What a snapshot sees of the map\<close>

definition seenAs :: "ULog \<Rightarrow> (TxnID \<Rightarrow> Status) \<Rightarrow> Snapshot \<Rightarrow> bytes option \<Rightarrow> bytes option go" where
  "seenAs u st snap cur = (case cur of None \<Rightarrow> Some (Inr None) | Some raw \<Rightarrow> visiblePayload u st raw snap)"

lemma lookup_value:
  assumes "represents (dbTree d) m"
  shows "map_option snd (txnLookupAt rid key snap d) =
    (if isDone rid d then Some (Inl (inactive ''btree.Txn.LookupAt''))
     else gbind (Some (checkKey key)) (\<lambda>_. gbind (seenAs (dbUndo d) (statusOf d) snap (m key))
       (\<lambda>vis. Some (case vis of None \<Rightarrow> Inl (New NotFound ''btree.Txn.LookupAt'' ''key not found'') | Some p \<Rightarrow> Inr p))))"
proof -
  obtain N E where t: "tree_ok (dbTree d) N E" "m = map_of (contents E (leaves (dbTree d) N))" using assms by (auto simp: represents_def stores_def)
  obtain x t1 where x: "leafRaw key (dbTree d) = Some (t1, Inr (x, m key))"
    using leafRaw_ok [OF t(1), of key] t(2) by (auto simp: wp_iff found_def)
  then have "onTree (leafRaw key) d = Some (d\<lparr>dbTree := t1\<rparr>, Inr (x, m key))" by (simp add: onTree_def)
  then show ?thesis
    by (auto simp: txnLookupAt_def lookupRow_def seenAs_def pbind_def pget_def pgo_def pfail_def pret_def gbind_def split: option.splits sum.splits)
qed

lemma walk_curVer: "visiblePayload u st raw snap = (case Inspect raw of Some (Inl e) \<Rightarrow> Some (Inl e) | _ \<Rightarrow> payloadWalk u st snap (curVer raw))"
proof -
  have "payloadWalk u st snap \<lparr>vXmin = 0, vXmax = 0, vUndo = 0, vPayload = raw\<rparr> = Some (Inr (Some raw))"
    by (subst payloadWalk.simps) (simp add: Sees_def)
  then show ?thesis using Inspect_total [of raw] by (auto simp: visiblePayload_def gbind_def curVer_def split: sum.splits option.splits)
qed

lemma walk_rowBytes: "visiblePayload u st (rowBytes v) snap = payloadWalk u st snap v"
  by (simp add: visiblePayload_def gbind_def Inspect_rowBytes)

lemma seenAs_fresh:
  assumes "descending u" and "\<And>i. i < uid \<Longrightarrow> ulRecs u' i = ulRecs u i" and "\<And>raw. cur = Some raw \<Longrightarrow> vUndo (curVer raw) < uid"
  shows "seenAs u' st snap cur = seenAs u st snap cur"
proof (cases cur)
  case (Some raw)
  then show ?thesis using payloadWalk_fresh [OF assms(1) assms(3) [OF Some] assms(2), of st snap]
    by (simp add: seenAs_def walk_curVer split: option.splits sum.splits)
qed (simp add: seenAs_def)

section \<open>Writes and other snapshots\<close>

text \<open>A deleter replaces the deleter a version had, which matters to a snapshot that sees the version's creator
  and the earlier deleter. A version whose creator a snapshot does not see is not the one it reads.\<close>

definition redelete :: "(TxnID \<Rightarrow> Status) \<Rightarrow> RowWrite \<Rightarrow> Snapshot \<Rightarrow> bytes option \<Rightarrow> bool" where
  "redelete st w S cur \<longleftrightarrow> w = DeleteRow \<and> (case cur of None \<Rightarrow> False
    | Some raw \<Rightarrow> Sees S (vXmin (curVer raw)) (Some st) \<and> vXmax (curVer raw) \<noteq> 0 \<and> Sees S (vXmax (curVer raw)) (Some st))"

definition deletesUnseen :: "(TxnID \<Rightarrow> Status) \<Rightarrow> RowWrite \<Rightarrow> Snapshot \<Rightarrow> bytes option \<Rightarrow> bool" where
  "deletesUnseen st w S cur \<longleftrightarrow> w = DeleteRow \<and> (case cur of None \<Rightarrow> False | Some raw \<Rightarrow> \<not> Sees S (vXmin (curVer raw)) (Some st))"

lemma db_ok_bounds:
  assumes "db_ok d m"
  shows "descending (dbUndo d)" "0 < ulNextID (dbUndo d)" "m k = Some raw \<Longrightarrow> vUndo (curVer raw) < ulNextID (dbUndo d)" "represents (dbTree d) m"
  using assms by (auto simp: db_ok_def)

lemma change_recs:
  assumes "row_change st tid key w snap m u x m' u'" and "i < ulNextID u"
  shows "ulRecs u' i = ulRecs u i"
  using assms by (auto elim!: row_change.cases simp: kept_def grew_def)

lemma change_others:
  assumes ok: "db_ok d m" and c: "row_change st tid key w snap m (dbUndo d) x m' u'"
  shows "seenAs u' st S (m k) = seenAs (dbUndo d) st S (m k)" "k \<noteq> key \<Longrightarrow> m' k = m k"
    "m key = Some raw \<Longrightarrow> payloadWalk u' st S (curVer raw) = payloadWalk (dbUndo d) st S (curVer raw)"
proof -
  note b = db_ok_bounds [OF ok]
  show "seenAs u' st S (m k) = seenAs (dbUndo d) st S (m k)" by (rule seenAs_fresh [OF b(1) change_recs [OF c]]) (use b(3) in auto)
  show "m' k = m k" if "k \<noteq> key" using c that by (auto elim!: row_change.cases)
  show "payloadWalk u' st S (curVer raw) = payloadWalk (dbUndo d) st S (curVer raw)" if "m key = Some raw"
    by (rule payloadWalk_fresh [OF b(1) b(3) [OF that] change_recs [OF c]])
qed

lemma walk_of_seen: "visiblePayload u st raw snap = Some (Inr y) \<Longrightarrow> visiblePayload u st raw S = payloadWalk u st S (curVer raw)"
  by (simp add: walk_curVer split: option.splits sum.splits)

text \<open>A snapshot that does not see the creator of a deleted version reads through it.\<close>

lemma change_unseen:
  assumes ok: "db_ok d m" and c: "row_change st tid key w snap m (dbUndo d) x m' u'" and r: "deletesUnseen st w S (m key)"
  shows "seenAs u' st S (m' k) = seenAs (dbUndo d) st S (m k)"
proof -
  note o = change_others [OF ok c]
  have "seenAs u' st S (m' key) = seenAs (dbUndo d) st S (m key)" using c
  proof cases
    case (tombstoned raw p)
    then have "\<not> Sees S (vXmin (curVer raw)) (Some st)" using r by (simp add: deletesUnseen_def)
    then show ?thesis using tombstoned walk_of_seen [OF tombstoned(3)] o(3) db_ok_bounds(2) [OF ok]
      by (auto simp: seenAs_def walk_rowBytes grew_def kind_defs payloadWalk_back)
  qed (use o(1) r in \<open>auto simp: deletesUnseen_def\<close>)
  then show ?thesis using o(1,2) by (cases "k = key") simp_all
qed

lemma change_isolated:
  assumes ok: "db_ok d m" and c: "row_change st tid key w snap m (dbUndo d) x m' u'"
    and s: "\<not> Sees S tid (Some st)" and r: "k \<noteq> key \<or> \<not> redelete st w S (m key)"
  shows "seenAs u' st S (m' k) = seenAs (dbUndo d) st S (m k)"
proof -
  note b = db_ok_bounds [OF ok] and o = change_others [OF ok c]
  have "seenAs u' st S (m' key) = seenAs (dbUndo d) st S (m key)" if r: "\<not> redelete st w S (m key)" using c
  proof cases
    case (inserted val old)
    then show ?thesis using s b(2) by (auto simp: seenAs_def walk_rowBytes grew_def payloadWalk_back)
  next
    case (replaced val raw)
    then have "visiblePayload (dbUndo d) st raw S = payloadWalk (dbUndo d) st S (curVer raw)" using walk_of_seen by blast
    then show ?thesis using replaced s b(2) o(3) by (auto simp: seenAs_def walk_rowBytes grew_def payloadWalk_back kind_defs)
  next
    case (tombstoned raw p)
    show ?thesis
    proof (cases "Sees S (vXmin (curVer raw)) (Some st)")
      case True
      then show ?thesis using tombstoned s r walk_of_seen [OF tombstoned(3)] by (auto simp: seenAs_def walk_rowBytes payloadWalk_seen redelete_def)
    next
      case False
      then show ?thesis using tombstoned change_unseen [OF ok c, of S key] by (simp add: deletesUnseen_def)
    qed
  qed (use o(1) in auto)
  then show ?thesis using r o(1,2) by (cases "k = key") auto
qed

text \<open>A second delete by a transaction that the snapshot does not see brings the row back for it.\<close>

lemma change_revives:
  assumes ok: "db_ok d m" and c: "row_change st tid key w snap m (dbUndo d) x m' u'"
    and s: "\<not> Sees S tid (Some st)" and r: "redelete st w S (m key)" "m key = Some raw"
  shows "seenAs (dbUndo d) st S (m key) = Some (Inr None)"
    "seenAs u' st S (m' key) = Some (Inr (Some (vPayload (curVer raw)))) \<or> seenAs u' st S (m' key) = Some (Inr None) \<and> (\<exists>e. x = Inl e)"
proof -
  have v: "visiblePayload (dbUndo d) st raw S = payloadWalk (dbUndo d) st S (curVer raw)"
    using r by (auto simp: redelete_def walk_curVer curVer_def split: option.splits sum.splits)
  show none: "seenAs (dbUndo d) st S (m key) = Some (Inr None)"
    using r v by (simp add: redelete_def seenAs_def payloadWalk_seen)
  show "seenAs u' st S (m' key) = Some (Inr (Some (vPayload (curVer raw)))) \<or> seenAs u' st S (m' key) = Some (Inr None) \<and> (\<exists>e. x = Inl e)"
    using c by cases (use none change_others(1) [OF ok c, of S key] r s in \<open>auto simp: redelete_def seenAs_def walk_rowBytes payloadWalk_seen\<close>)
qed

lemma change_seen:
  assumes c: "row_change st tid key w snap m u x m' u'" and s: "Sees S tid (Some st)"
    and r: "\<And>raw. w = DeleteRow \<Longrightarrow> m key = Some raw \<Longrightarrow> Sees S (vXmin (curVer raw)) (Some st)"
    and t: "tid \<noteq> 0"
  shows "seenAs u' st S (m' key) = Some (Inr (case w of InsertRow val \<Rightarrow> Some val | UpdateRow val \<Rightarrow> Some val | DeleteRow \<Rightarrow> None)) \<or>
    (m' = m \<and> (\<exists>e. x = Inl e))"
  using c by cases (use s r t in \<open>auto simp: seenAs_def walk_rowBytes payloadWalk_seen\<close>)

lemma change_steps:
  assumes ok: "db_ok d m" and c: "row_change st tid key w snap m (dbUndo d) x m' u'" and s: "Sees S tid (Some st)"
    and r: "\<not> deletesUnseen st w S (m key)" and t: "tid \<noteq> 0"
  defines "new \<equiv> Some (Inr (case w of InsertRow val \<Rightarrow> Some val | UpdateRow val \<Rightarrow> Some val | DeleteRow \<Rightarrow> None))"
  shows "x = Inr () \<Longrightarrow> seenAs u' st S (m' key) = new" "seenAs u' st S (m' key) \<in> {seenAs (dbUndo d) st S (m key), new}"
proof -
  have n: "seenAs u' st S (m' key) = new \<or> m' = m \<and> (\<exists>e. x = Inl e)"
    unfolding new_def by (rule change_seen [OF c s _ t]) (use r in \<open>simp add: deletesUnseen_def\<close>)
  then show "seenAs u' st S (m' key) = new" if "x = Inr ()" using that by simp
  show "seenAs u' st S (m' key) \<in> {seenAs (dbUndo d) st S (m key), new}" using n change_others(1) [OF ok c, of S key] by auto
qed

text \<open>What a lookup reports of what its snapshot sees.\<close>

abbreviation notFoundRow :: "bytes res" where
  "notFoundRow \<equiv> Inl (New NotFound ''btree.Txn.LookupAt'' ''key not found'')"

abbreviation answer :: "bytes option go \<Rightarrow> bytes go" where
  "answer s \<equiv> gbind s (\<lambda>vis. Some (case vis of None \<Rightarrow> notFoundRow | Some p \<Rightarrow> Inr p))"

lemma lookup_same:
  assumes "represents (dbTree d) m" "represents (dbTree d') m'" "statusOf d' = statusOf d" "isDone rid d' = isDone rid d"
    and "seenAs (dbUndo d') (statusOf d) S (m' k) = seenAs (dbUndo d) (statusOf d) S (m k)"
  shows "map_option snd (txnLookupAt rid k S d') = map_option snd (txnLookupAt rid k S d)"
  using assms(3-5) by (simp add: lookup_value [OF assms(1)] lookup_value [OF assms(2)])

lemma lookup_open:
  assumes "represents (dbTree d) m" "\<not> isDone rid d" "checkKey k = Inr ()"
  shows "map_option snd (txnLookupAt rid k S d) = answer (seenAs (dbUndo d) (statusOf d) S (m k))"
  using assms(2,3) by (simp add: lookup_value [OF assms(1)] gbind_def)

section \<open>The promises\<close>

text \<open>A transaction that is open, whose request for the key's lock is decided, on a tree with free pages whose
  internal nodes can take the splits of the key's leaf.\<close>

definition can_write :: "TxnID \<Rightarrow> bytes \<Rightarrow> Db \<Rightarrow> (bytes \<rightharpoonup> bytes) \<Rightarrow> bool" where
  "can_write tid key d m \<longleftrightarrow> db_ok d m \<and> writable (dbTree d) m key \<and> tid \<in> dom (dbTxns d) \<and> lockWrite tid key d \<noteq> None"

lemma can_write_run:
  assumes "can_write tid key d m"
  obtains d' x m' where "txnWrite seal tid key w snap d = Some (d', x)" "statusOf d' = statusOf d" "\<And>t. isDone t d' = isDone t d"
    "represents (dbTree d') m'" "row_change (statusOf d) tid key w snap m (dbUndo d) x m' (dbUndo d')"
proof -
  obtain d1 lr where "lockWrite tid key d = Some (d1, lr)" using assms by (auto simp: can_write_def)
  then have "wp (txnWrite seal tid key w snap) (wrote tid key w snap m d) d" using assms by (intro txnWrite_wp) (auto simp: can_write_def)
  then show thesis using that by (auto simp: wp_iff wrote_def)
qed

text \<open>A database of one empty tree with two open transactions.\<close>

definition log0 :: ULog where
  "log0 = \<lparr>ulIdent = ident1, ulDek = Some dek1, ulWrapped = [4], ulNextID = 1, ulNonceCur = 1, ulNonceLim = undoNonceBatch,
     ulNonceHigh = undoNonceBatch, ulFile = Some [], ulControl = [], ulRecs = Map.empty, ulByTxn = (\<lambda>_. 0), ulBuf = [], ulWritten = 0,
     ulSynced = 0, ulSyncErr = None, ulFaults = []\<rparr>"

definition tm0 :: Manager where
  "tm0 = fst (Attach (fst (Attach (NewManager 1) 1 SnapshotIsolation)) 2 SnapshotIsolation)"

definition open0 :: OpenTxn where
  "open0 = \<lparr>xPrev = 0, xLastUndo = 0, xTargets = 0, xDeleted = [], xDone = False\<rparr>"

definition db0 :: Db where
  "db0 = \<lparr>dbTree = tree0, dbUndo = log0, dbTM = tm0, dbTxns = [1 \<mapsto> open0, 2 \<mapsto> open0], dbName = ''t'', dbWal = [], dbNextLSN = 1,
     dbNextTxn = 3, dbWalErrs = []\<rparr>"

definition snap0 :: "TxnID \<Rightarrow> Snapshot" where
  "snap0 tid = captureLocked tm0 tid"

lemma db0_sel: "dbTree db0 = tree0" "dbUndo db0 = log0" "dbTM db0 = tm0" "isDone 1 db0 = False" "isDone 2 db0 = False"
  "dbTxns db0 1 = Some open0" "dbName db0 = ''t''" "ulRecs log0 = Map.empty" "ulNextID log0 = 1"
  by (simp_all add: db0_def isDone_def log0_def open0_def)

lemma tree0_crash: "crash (eng tree0) = None"
proof -
  have r: "room (Suc (Suc 5)) engine0" by (rule engine0_ok) simp
  obtain e' h mh where "CreateDetached engine0 = Some (e', Inr (\<lambda>e. newTree e h 1 mh True))" "crash e' = crash engine0"
    by (rule CreateDetached_ok [OF engine0_ok(1) r, of "\<lambda>_. (0, [])"])
  then show ?thesis by (simp add: tree0_def newTree_def engine0_ok(3))
qed

lemma lock_granted:
  assumes h: "getHandle (dbTM d) 1 = Some h" "hID h = 1" and l: "mLocks (dbTM d) = NewLockManager" "dbTxns d 1 = Some open0" "dbName d = ''t''"
  shows "lockWrite 1 [7] d \<noteq> None"
proof -
  have "snd (AcquireContext None NewLockManager 1 [7] Exclusive ''t'') = Granted"
    by (simp add: AcquireContext_def NewLockManager_def canGrantKey_def grantKey_def holdersOf_def conflictM_def refreshWaitsForKey_def blockersKey_def cloneBytes_def)
  then have "snd (LockKey None (dbTM d) (Some h) [7] Exclusive ''t'') = Granted" using h l by (auto simp: LockKey_def split: prod.splits)
  then show ?thesis using h l by (cases "LockKey None (dbTM d) (Some h) [7] Exclusive ''t''") (simp add: lockWrite_def lockKey_def)
qed

lemma lock0: "lockWrite 1 [7] db0 \<noteq> None"
  by (rule lock_granted [where h = "the (getHandle tm0 1)"]) (simp_all add: db0_sel tm0_def Attach_def NewManager_def getHandle_def Let_def)

lemma writable_tree0: "writable tree0 Map.empty k"
  unfolding writable_def using stores_tree0 by blast

lemma can_write0: "can_write 1 [7] db0 Map.empty"
  using represents_of [OF stores_tree0(1)] writable_tree0 tree0_crash lock0
  by (auto simp: can_write_def db_ok_def db0_sel descending_def sized_def log0_def dek1_def ident1_def)

lemma snap0_sees: "\<not> Sees (snap0 2) 1 (Some (statusOf db0))" "Sees (snap0 1) 1 (Some (statusOf db0))"
proof -
  have "\<not> Sees (captureLocked tm0 2) 1 (Some (StatusFn tm0))" "Sees (captureLocked tm0 1) 1 (Some (StatusFn tm0))"
    by (simp_all add: Sees_def captureLocked_def tm0_def Attach_def NewManager_def Let_def StatusFn_def statusLocked_def)
  then show "\<not> Sees (snap0 2) 1 (Some (statusOf db0))" "Sees (snap0 1) 1 (Some (statusOf db0))" by (simp_all add: snap0_def db0_sel)
qed

text \<open>A database of one row that transaction 3 has deleted. Transaction 1 began before the delete was committed,
  transaction 4 after it.\<close>

definition row1 :: Version where
  "row1 = \<lparr>vXmin = 0, vXmax = 3, vUndo = 0, vPayload = [9]\<rparr>"

definition tm1 :: Manager where
  "tm1 = fst (Attach (Commit (fst (Attach (fst (Attach (NewManager 1) 1 SnapshotIsolation)) 3 SnapshotIsolation)) 3) 4 SnapshotIsolation)"

definition db1 :: Db where
  "db1 = db0\<lparr>dbTree := leafTree [([7], rowBytes row1)], dbTM := tm1, dbTxns := [1 \<mapsto> open0, 4 \<mapsto> open0]\<rparr>"

definition early1 :: Snapshot where
  "early1 = captureLocked (fst (Attach (NewManager 1) 1 SnapshotIsolation)) 1"

definition late1 :: Snapshot where
  "late1 = captureLocked tm1 4"

lemma row1_payload: "vPayload row1 = [9]"
  by (simp add: row1_def)

lemma db1_sel: "dbTree db1 = leafTree [([7], rowBytes row1)]" "dbUndo db1 = log0" "dbTM db1 = tm1" "isDone 4 db1 = False"
  "dbTxns db1 1 = Some open0" "dbName db1 = ''t''"
  by (simp_all add: db1_def db0_def isDone_def open0_def)

lemma tm1_sel: "mStatus tm1 = [1 \<mapsto> StatusInProgress, 3 \<mapsto> StatusCommitted, 4 \<mapsto> StatusInProgress]" "dom (mActive tm1) = {1, 4}"
  "mNext tm1 = 5" "mLocks tm1 = NewLockManager" "getHandle tm1 1 \<noteq> None" "hID (the (getHandle tm1 1)) = 1"
proof -
  have "wakeLoop NewLockManager = NewLockManager" by (subst wakeLoop.simps) (simp add: NewLockManager_def)
  moreover have "dropTxn NewLockManager 3 = NewLockManager" by (simp add: dropTxn_def clearWait_def NewLockManager_def)
  ultimately have [simp]: "ReleaseAll NewLockManager 3 = NewLockManager"
    by (simp add: ReleaseAll_def wake_def refreshAll_def) (simp add: NewLockManager_def)
  show "mStatus tm1 = [1 \<mapsto> StatusInProgress, 3 \<mapsto> StatusCommitted, 4 \<mapsto> StatusInProgress]" "dom (mActive tm1) = {1, 4}"
  "mNext tm1 = 5" "mLocks tm1 = NewLockManager" "getHandle tm1 1 \<noteq> None" "hID (the (getHandle tm1 1)) = 1"
    by (auto simp: tm1_def Attach_def Commit_def NewManager_def getHandle_def Let_def fun_eq_iff split: if_splits)
qed

lemma late1_sees: "\<not> Sees late1 1 (Some (statusOf db1))" "redelete (statusOf db1) DeleteRow late1 (Some (rowBytes row1))"
  "curVer (rowBytes row1) = row1"
proof -
  show v: "curVer (rowBytes row1) = row1" by (simp add: curVer_def Inspect_rowBytes)
  show "\<not> Sees late1 1 (Some (statusOf db1))"
    by (simp add: Sees_def late1_def captureLocked_def db1_sel StatusFn_def statusLocked_def tm1_sel)
  show "redelete (statusOf db1) DeleteRow late1 (Some (rowBytes row1))"
    by (simp add: redelete_def v) (simp add: row1_def Sees_def late1_def captureLocked_def db1_sel StatusFn_def statusLocked_def tm1_sel)
qed

lemma can_write1: "can_write 1 [7] db1 [[7] \<mapsto> rowBytes row1]"
proof -
  let ?es = "[([7], rowBytes row1)]"
  have ok: "\<forall>e \<in> set ?es. leafOK e" "keysorted ?es" "leafPageBytes ?es \<le> 16384"
    by (simp_all add: leafOK_def keyOK_def keysorted_def leafPageBytes_def leafRecordSize_def row1_def)
  note t = stores_leafTree [OF ok]
  have "writable (leafTree ?es) (map_of ?es) [7]" unfolding writable_def using t(1-3) by blast
  moreover have "lockWrite 1 [7] db1 \<noteq> None"
    by (rule lock_granted [where h = "the (getHandle tm1 1)"]) (use tm1_sel in \<open>simp_all add: db1_sel\<close>)
  ultimately show ?thesis using represents_of [OF t(1)] t(5) tree0_crash late1_sees(3)
    by (auto simp: can_write_def db_ok_def db1_sel descending_def sized_def log0_def dek1_def ident1_def row1_def)
qed

text \<open>C6: the writers of a transaction refine row versioning. On a database in a good state (\<open>db_ok\<close>: the tree
  holds \<open>m\<close>, no crash point is armed, undo links lead to older records of the log), with the request for the
  key's lock decided, enough free pages for the splits, and every internal node that a split of the key's leaf
  would reach cut into halves that fit, an insert, update or delete by an open transaction returns on every
  path, the I/O errors of the undo log included. It leaves the tree with a map that is the old one,
  with or without a new undo record, or the old one with the key's row replaced by a version of the transaction
  whose link is the new record, which holds exactly the version it replaced. The replaced row was visible to the
  writer's snapshot for an update or delete and not for an insert, and its creator was not another transaction
  still running. An error may leave any of these, success only the new version.\<close>

theorem txn_write_refines:
  assumes "can_write tid key d m"
  shows "\<exists>d' x m'. txnWrite seal tid key w snap d = Some (d', x) \<and> represents (dbTree d') m' \<and>
    row_change (statusOf d) tid key w snap m (dbUndo d) x m' (dbUndo d')"
  by (rule can_write_run [OF assms, of seal w snap]) blast

theorem txn_write_refines_witness:
  "\<exists>d' x m'. txnWrite tagSeal 1 [7] (InsertRow [9]) (snap0 1) db0 = Some (d', x) \<and> represents (dbTree d') m' \<and>
    row_change (statusOf db0) 1 [7] (InsertRow [9]) (snap0 1) Map.empty (dbUndo db0) x m' (dbUndo d')"
  by (rule txn_write_refines [OF can_write0])

text \<open>C2: a snapshot is isolated from writers it does not see, up to one exception that is stated exactly. On a
  database in a good state, with free pages and cuts that fit, let an open transaction that the snapshot \<open>S\<close>
  does not see insert, update or delete a row. The write returns, and a lookup of any key under \<open>S\<close> by any
  transaction then returns exactly what it would have returned before, whether the write succeeded or not. The
  exception is a lookup of the row itself when the write is a second delete of it: \<open>S\<close> sees the version's
  creator and its earlier deleter. There \<open>S\<close> found no row before, and after the write, if it succeeds, it finds
  the deleted row again.\<close>

theorem snapshot_isolated:
  assumes "can_write tid key d m" and "\<not> Sees S tid (Some (statusOf d))"
  shows "\<exists>d' x. txnWrite seal tid key w snap d = Some (d', x) \<and>
    (let before = map_option snd (txnLookupAt rid k S d); after = map_option snd (txnLookupAt rid k S d');
         revived = Some (Inr (vPayload (curVer (the (m key)))))
     in if k = key \<and> redelete (statusOf d) w S (m key) \<and> \<not> isDone rid d \<and> checkKey key = Inr ()
        then before = Some (Inl (New NotFound ''btree.Txn.LookupAt'' ''key not found'')) \<and>
          (case x of Inr _ \<Rightarrow> after = revived | Inl _ \<Rightarrow> after \<in> {before, revived})
        else after = before)"
proof (rule can_write_run [OF assms(1), of seal w snap])
  fix d' x m' assume w: "txnWrite seal tid key w snap d = Some (d', x)" "statusOf d' = statusOf d" "\<And>t. isDone t d' = isDone t d"
    "represents (dbTree d') m'" "row_change (statusOf d) tid key w snap m (dbUndo d) x m' (dbUndo d')"
  have ok: "db_ok d m" using assms(1) by (simp add: can_write_def)
  note rep = db_ok_bounds(4) [OF ok]
  show ?thesis
  proof (cases "k = key \<and> redelete (statusOf d) w S (m key)")
    case False
    then have "map_option snd (txnLookupAt rid k S d') = map_option snd (txnLookupAt rid k S d)"
      by (intro lookup_same [OF rep w(4,2,3)] change_isolated [OF ok w(5) assms(2)]) auto
    then show ?thesis using w(1) False by (auto simp: Let_def)
  next
    case True
    then obtain raw where raw: "m key = Some raw" by (auto simp: redelete_def split: option.splits)
    note v = change_revives [OF ok w(5) assms(2) conjunct2 [OF True] raw]
    show ?thesis
    proof (cases "\<not> isDone rid d \<and> checkKey key = Inr ()")
      case go: True
      have "map_option snd (txnLookupAt rid k S d) = answer (seenAs (dbUndo d) (statusOf d) S (m key))"
        "map_option snd (txnLookupAt rid k S d') = answer (seenAs (dbUndo d') (statusOf d) S (m' key))"
        using lookup_open [OF rep, of rid key S] lookup_open [OF w(4), of rid key S] w(2,3) True go by simp_all
      then have l: "map_option snd (txnLookupAt rid k S d) = Some notFoundRow"
        "map_option snd (txnLookupAt rid k S d') = Some (Inr (vPayload (curVer raw))) \<or>
          map_option snd (txnLookupAt rid k S d') = Some notFoundRow \<and> (\<exists>e. x = Inl e)"
        using v by (auto simp: gbind_def)
      show ?thesis unfolding Let_def l(1) raw using w(1) l(2) True go raw by (cases x) auto
    next
      case False
      then have "map_option snd (txnLookupAt rid k S d') = map_option snd (txnLookupAt rid k S d)"
        using w(2,3) True by (auto simp: lookup_value [OF w(4)] lookup_value [OF rep] gbind_def split: sum.splits)
      then show ?thesis using w(1) False by (auto simp: Let_def)
    qed
  qed
qed

theorem snapshot_isolated_witness:
  "\<exists>d' x. txnWrite tagSeal 1 [7] DeleteRow early1 db1 = Some (d', x) \<and>
    map_option snd (txnLookupAt 4 [7] late1 db1) = Some (Inl (New NotFound ''btree.Txn.LookupAt'' ''key not found'')) \<and>
    (case x of Inr _ \<Rightarrow> map_option snd (txnLookupAt 4 [7] late1 d') = Some (Inr [9])
     | Inl _ \<Rightarrow> map_option snd (txnLookupAt 4 [7] late1 d') \<in> {map_option snd (txnLookupAt 4 [7] late1 db1), Some (Inr [9])})"
  using snapshot_isolated [OF can_write1 late1_sees(1), of tagSeal DeleteRow early1 4 "[7]"] late1_sees
  by (simp add: Let_def checkKey_def db1_sel row1_payload)

text \<open>C12: a write is atomic and its own transaction reads it. On a database in a good state, with free pages and
  cuts that fit, let an open transaction other than 0 write a row of an admissible key. Under any snapshot that
  sees the writer, its own among them, a lookup by a transaction that is not done returns after a successful
  insert or update the value written, and after a successful delete that the key is not found; after an error it
  returns that or what it returned before; the other keys are unchanged in every case. A delete of a version
  whose creator the snapshot does not see changes nothing under that snapshot.\<close>

theorem reads_own_writes:
  assumes "can_write tid key d m" and "tid \<noteq> 0" and "Sees S tid (Some (statusOf d))"
    and "\<not> isDone rid d" and "checkKey key = Inr ()"
  shows "\<exists>d' x. txnWrite seal tid key w snap d = Some (d', x) \<and>
    (let before = map_option snd (txnLookupAt rid k S d); after = map_option snd (txnLookupAt rid k S d');
         new = Some (case w of InsertRow val \<Rightarrow> Inr val | UpdateRow val \<Rightarrow> Inr val | DeleteRow \<Rightarrow> Inl (New NotFound ''btree.Txn.LookupAt'' ''key not found''))
     in if k \<noteq> key \<or> deletesUnseen (statusOf d) w S (m key) then after = before
        else case x of Inr _ \<Rightarrow> after = new | Inl _ \<Rightarrow> after \<in> {before, new})"
proof (rule can_write_run [OF assms(1), of seal w snap])
  fix d' x m' assume w: "txnWrite seal tid key w snap d = Some (d', x)" "statusOf d' = statusOf d" "\<And>t. isDone t d' = isDone t d"
    "represents (dbTree d') m'" "row_change (statusOf d) tid key w snap m (dbUndo d) x m' (dbUndo d')"
  have ok: "db_ok d m" using assms(1) by (simp add: can_write_def)
  note rep = db_ok_bounds(4) [OF ok]
  show ?thesis
  proof (cases "k \<noteq> key \<or> deletesUnseen (statusOf d) w S (m key)")
    case True
    then have "seenAs (dbUndo d') (statusOf d) S (m' k) = seenAs (dbUndo d) (statusOf d) S (m k)"
      using change_others(1,2) [OF ok w(5)] change_unseen [OF ok w(5)] by auto
    then show ?thesis using w(1) True lookup_same [OF rep w(4,2,3)] by (auto simp: Let_def)
  next
    case False
    let ?new = "Some (Inr (case w of InsertRow val \<Rightarrow> Some val | UpdateRow val \<Rightarrow> Some val | DeleteRow \<Rightarrow> None))"
    have l: "map_option snd (txnLookupAt rid k S d') = answer (seenAs (dbUndo d') (statusOf d) S (m' key))"
      "map_option snd (txnLookupAt rid k S d) = answer (seenAs (dbUndo d) (statusOf d) S (m key))"
      using lookup_open [OF w(4), of rid key S] lookup_open [OF rep, of rid key S] w(2,3) assms(4,5) False by simp_all
    have n: "answer ?new = Some (case w of InsertRow val \<Rightarrow> Inr val | UpdateRow val \<Rightarrow> Inr val | DeleteRow \<Rightarrow> notFoundRow)"
      by (simp add: gbind_def split: RowWrite.splits)
    note c = change_steps [OF ok w(5) assms(3) conjunct2 [OF False [unfolded de_Morgan_disj]] assms(2)]
    have "case x of Inr _ \<Rightarrow> map_option snd (txnLookupAt rid k S d') = answer ?new
      | Inl _ \<Rightarrow> map_option snd (txnLookupAt rid k S d') \<in> {map_option snd (txnLookupAt rid k S d), answer ?new}"
      unfolding l using c by (cases x) auto
    then show ?thesis unfolding Let_def n using w(1) False by auto
  qed
qed

theorem reads_own_writes_witness:
  "\<exists>d' x. txnWrite tagSeal 1 [7] (InsertRow [9]) (snap0 1) db0 = Some (d', x) \<and>
    (case x of Inr _ \<Rightarrow> map_option snd (txnLookupAt 1 [7] (snap0 1) d') = Some (Inr [9])
     | Inl _ \<Rightarrow> map_option snd (txnLookupAt 1 [7] (snap0 1) d') \<in> {map_option snd (txnLookupAt 1 [7] (snap0 1) db0), Some (Inr [9])})"
  using reads_own_writes [OF can_write0 _ snap0_sees(2), of 1 tagSeal "InsertRow [9]" "snap0 1" "[7]"]
  by (simp add: db0_sel checkKey_def Let_def deletesUnseen_def)

text \<open>C40: a row that another transaction is deleting can be overwritten. When the stored version has a visible
  creator that is not still running and a deleter that is, a different transaction whose write lock is
  granted or skipped passes every check of \<open>updateAt\<close> and \<open>deleteAt\<close>: both compare only the creator with the
  running transactions and with the snapshot. The update then clears the delete mark, so that the delete is
  lost when both commit, although \<open>conflictsWithLiveWriter\<close> is there to exclude dirty writes at every
  isolation level.\<close>

theorem live_delete_overwritten:
  assumes "Sees snap (vXmin v) (Some (statusOf d))" and "statusOf d (vXmin v) \<noteq> StatusInProgress"
    and "statusOf d (vXmax v) = StatusInProgress" and "vXmax v \<noteq> 0" and "vXmax v \<noteq> snTid snap"
  shows "seenVersion op tid snap (Some (rowBytes v)) d = Some (d, Inr (v, True, vPayload v))"
proof -
  have "\<not> Sees snap (vXmax v) (Some (statusOf d))" using assms(3-5) by (simp add: Sees_def)
  then have "visiblePayload (dbUndo d) (statusOf d) (rowBytes v) snap = Some (Inr (Some (vPayload v)))"
    using assms(1) by (simp add: walk_rowBytes payloadWalk_seen)
  then show ?thesis using assms(1,2)
    by (simp add: seenVersion_def pbind_def pgo_def pget_def pret_def rowDecode_def gbind_def Inspect_rowBytes Let_def
        conflictsWithLiveWriter_def newerThanSnap_def split: option.splits)
qed

theorem live_delete_overwritten_witness:
  "seenVersion ''btree.Txn.Update'' 2 (snap0 2) (Some (rowBytes \<lparr>vXmin = 0, vXmax = 1, vUndo = 1, vPayload = [9]\<rparr>)) db0 =
    Some (db0, Inr (\<lparr>vXmin = 0, vXmax = 1, vUndo = 1, vPayload = [9]\<rparr>, True, [9]))"
proof -
  have st: "statusOf db0 1 = StatusInProgress" "statusOf db0 0 \<noteq> StatusInProgress" "snTid (snap0 2) = 2"
    by (simp_all add: db0_sel snap0_def captureLocked_def tm0_def Attach_def NewManager_def Let_def StatusFn_def statusLocked_def)
  then show ?thesis
    using live_delete_overwritten [of "snap0 2" "\<lparr>vXmin = 0, vXmax = 1, vUndo = 1, vPayload = [9]\<rparr>" db0 "''btree.Txn.Update''" 2]
    by (simp add: Sees_def)
qed

end
