(* ===== verification/Spec2Isabelle.thy ===== *)
theory Spec2Isabelle
  imports PageValid RowVersion LockProps TxnManager WalFormat PageDeltaProps BTreeDelete BTreeProps UndoProps MvccProps
begin

text \<open>
  NextSQL (\<^verbatim>\<open>src/\<close>) is a transactional SQL database server in Go. This development verifies its storage
  and transaction core, the part on which the durability and the isolation of every statement rest.

  \<^bold>\<open>The program.\<close> A statement that reaches storage runs in a transaction (\<^verbatim>\<open>internal/storage/btree/txn.go\<close>)
  on a clustered B+tree (\<^verbatim>\<open>internal/storage/btree\<close>). The tree keeps its nodes in slotted pages
  (\<^verbatim>\<open>internal/storage/page\<close>) that the engine (\<^verbatim>\<open>internal/storage/engine.go\<close>) takes from an allocator
  (\<^verbatim>\<open>internal/storage/allocator\<close>) and that the file manager (\<^verbatim>\<open>internal/storage/file\<close>) encrypts
  (\<^verbatim>\<open>internal/crypto\<close>) and writes with checksums. Every row carries a version header
  (\<^verbatim>\<open>internal/storage/row\<close>); older versions are in the undo log (\<^verbatim>\<open>internal/undo\<close>); changes are described
  in the write-ahead log (\<^verbatim>\<open>internal/wal\<close>), partly as byte-range page deltas. The transaction manager
  (\<^verbatim>\<open>internal/txn\<close>) hands out snapshots and key and range locks.

  \<^bold>\<open>Conventions.\<close> A byte is an \<open>8 word\<close>, a page a list of 16384 of them, every Go integer has its width. A Go
  error is a value of \<open>nerr\<close> on the left of a sum; a Go panic, and a wait for a lock that has not been
  granted, is \<open>None\<close>. A method that changes its receiver is a state function; the state monad \<open>proc\<close> of
  theory \<open>Proc\<close> keeps the state of a method that fails half-way, and \<open>wp\<close> of \<open>BTreeWp\<close> is its weakest
  precondition for total correctness. What is outside the repository is an argument: \<open>seal\<close> and \<open>opn\<close> are the
  AEAD of Go's \<^verbatim>\<open>crypto/cipher\<close> with the law \<open>aead_law\<close> (opening what was sealed under the same key, nonce and
  associated data gives the plaintext), and the outcome of every file operation is the next entry of a
  list of faults. CRC-32C, SHA-256 and HMAC are computed, not assumed.

  \<^bold>\<open>Theories and the code they model.\<close>
  \<^item> \<open>Prelude\<close>: errors (\<^verbatim>\<open>internal/nerr\<close>), the result types, and the lemmas on lists, words and buffers shared by
    all; \<open>Binary\<close>: \<^verbatim>\<open>internal/encoding/binary.go\<close> and the algebra of buffers made of fixed fields; \<open>Proc\<close>: the
    state monad.
  \<^item> \<open>Page\<close> models \<^verbatim>\<open>page.go\<close>, \<^verbatim>\<open>validate.go\<close>, \<^verbatim>\<open>checksum.go\<close> and \<^verbatim>\<open>format.go\<close>. \<open>PageInv\<close> and \<open>PageOps\<close> define the page
    invariant and prove what each operation does to the abstract contents (slot to record);
    \<open>PageValid\<close> proves the properties of insert, update, delete, compaction and validation.
  \<^item> \<open>RowVersion\<close> (\<^verbatim>\<open>row/version.go\<close>): the row header and its round trip.
  \<^item> \<open>Locks\<close> (\<^verbatim>\<open>txn/lock.go\<close>): the lock manager. \<open>LockInv\<close>, \<open>LockGraph\<close>, \<open>LockSteps\<close> and \<open>LockWake\<close> carry the
    invariant (bookkeeping, exclusion, the wait-for graph being the real one, no grantable waiter) through
    acquire, wake-up and release, and show the depth-first search correct; \<open>LockProps\<close> has the
    reachable states and the properties: exclusion, an acyclic wait-for relation that leads from every
    queued transaction to one whose blockers all run, exact deadlock errors, wake-ups, and the exact effect of
    waiting, of a cancellation and of a timeout.
  \<^item> \<open>TxnManager\<close> (\<^verbatim>\<open>snapshot.go\<close>, \<^verbatim>\<open>isolation.go\<close>, \<^verbatim>\<open>manager.go\<close>): snapshots see exactly what had committed, and keep
    doing so while transactions begin and end.
  \<^item> \<open>Envelope\<close> (\<^verbatim>\<open>aead.go\<close>, \<^verbatim>\<open>envelope.go\<close>, \<^verbatim>\<open>dek.go\<close>), \<open>WalFormat\<close> (\<^verbatim>\<open>wal/format.go\<close>, \<^verbatim>\<open>segment.go\<close>, \<^verbatim>\<open>control.go\<close>), \<open>Sha256\<close>,
    \<open>PageDelta\<close> and \<open>PageDeltaProps\<close> (\<^verbatim>\<open>wal/pagedelta.go\<close>): round trips of what is written to disk, and safety of
    the delta decoder on arbitrary bytes.
  \<^item> \<open>FileMgr\<close> (\<^verbatim>\<open>file/superblock.go\<close>, \<^verbatim>\<open>file/manager.go\<close>, \<^verbatim>\<open>io/io.go\<close>, \<^verbatim>\<open>crypto/auth.go\<close>, \<^verbatim>\<open>upgrade/compat\<close>), \<open>Allocator\<close>
    (\<^verbatim>\<open>allocator.go\<close>) and \<open>Engine\<close> (the page operations of \<^verbatim>\<open>engine.go\<close> and the crash points of \<^verbatim>\<open>wal/crash.go\<close>).
  \<^item> \<open>BNode\<close> (\<^verbatim>\<open>btree/node.go\<close>), \<open>BTree\<close> (\<^verbatim>\<open>btree.go\<close>, \<^verbatim>\<open>meta.go\<close>, \<^verbatim>\<open>insert.go\<close>, \<^verbatim>\<open>insert_batch.go\<close>, \<^verbatim>\<open>update.go\<close>) and \<open>BTreeDelete\<close>
    (\<^verbatim>\<open>delete.go\<close>, \<^verbatim>\<open>check.go\<close>) model the tree. \<open>BNodeSpec\<close>, \<open>BNodePage\<close> and \<open>BNodeProps\<close> read a page as a sorted list
    of entries; \<open>BTreeSplit\<close> is the choice of a cut; \<open>BTreeLevels\<close>, \<open>BTreeMap\<close> and \<open>BTreeRep\<close> define the
    invariant of a whole tree and the map it represents; \<open>BTreeWp\<close>, \<open>BTreeInsert\<close> and \<open>BTreeUpdate\<close> prove the
    writers; \<open>BTreeProps\<close> states the contract as the locale \<open>kv_store\<close>, interprets it on the tree and
    derives the properties.
  \<^item> \<open>Undo\<close> (\<^verbatim>\<open>undo/format.go\<close>, \<^verbatim>\<open>undo/log.go\<close>) and \<open>UndoProps\<close>: the log file as bytes, its invariant (the file and
    the buffer are the sealed records), and that a crash loses nothing that was synced.
  \<^item> \<open>WalUndo\<close> (record constructors and undo bodies of \<^verbatim>\<open>wal/log.go\<close>), \<open>Mvcc\<close> (\<^verbatim>\<open>btree/txn.go\<close>, \<^verbatim>\<open>btree/mvcc.go\<close> and the
    logging and rollback of \<^verbatim>\<open>engine.go\<close>) and \<open>MvccProps\<close>: transactions on a tree as the composition of the tree,
    the undo log and the transaction manager. The writers refine the relation \<open>row_change\<close> on the map of
    the tree and the undo log; isolation and reading one's own writes follow from it.

  \<^bold>\<open>Bounds and fuel.\<close> The descent of the tree and the walk over its levels take the height as fuel (the invariant
  ties it to the real depth); the search for deadlocks and the wake-up loop have termination proofs; the
  walks over undo links are partial functions that are proved to return when links lead to older records,
  which the writers keep. The theorems on tree writers have two conditions on the tree.
  \<^item> \<open>spacious\<close>: enough free pages for one split per level, since a full disk is reported in the middle of a split, no
    crash point armed inside the split, and a height below the 65535 of its field.
  \<^item> \<open>cutsFitFor\<close>: if the leaf of the key is split, every internal node that a separator then reaches and that
    is full is cut into two halves that fit a page. \<open>splitInternalAndInsert\<close> cuts by the number of entries and not
    by their sizes, so the condition can fail when keys of very different lengths meet in one node. What happens
    then is \<open>internal_split_overflow\<close>: the separator is refused with a full page after the node below has been
    split, and the records moved to its right half are out of reach. \<open>even_cutsFitFor\<close> shows that keys of similar
    lengths are enough for the condition.

  Under them a write of the tree is refused only in the cases the theorems name exactly (\<open>leafTakes\<close>,
  \<open>leafRetakes\<close>: one record, and a slot directory that leaves no room for it). The theorems on transactions
  take the same two conditions through \<open>writable\<close> in \<open>can_write\<close>, which also says that the
  transaction is open and its request for the key's lock decided, that no crash point is armed, and that the undo
  links of the stored rows are within the log and lead to older records.

  \<^bold>\<open>What the code does not promise.\<close> Isolation has one exception, which is part of the statement of
  \<open>snapshot_isolated\<close>: a second delete of a version (\<open>redelete\<close>), by a transaction that a snapshot does not see,
  replaces the deleter the snapshot saw and brings the row back for it. A delete does nothing under a
  snapshot that does not see the creator of the deleted version (\<open>deletesUnseen\<close> in \<open>reads_own_writes\<close>). On a
  replica a snapshot can change (\<open>replica_snapshot_unstable\<close>). \<open>Validate\<close> misses some overlapping records, a
  shared re-acquire gives up an exclusive lock, an empty range end is recorded as unbounded, a failed control
  write lets the undo log reuse nonces, and a row whose deleter still runs can be overwritten: each is the
  subject of a theorem.

  \<^bold>\<open>Simplifications.\<close> Unpinning a page and installing a new one in the buffer pool do not fail. \<open>NoteTree\<close> is its
  branch inside a transaction with a successful append to the write-ahead log. \<open>Vacuum\<close> of the undo log has
  no time budget or preflight and its closing, renaming and reopening of files succeed; no theorem is about it.
  Faults of the disk are those of the page file and the undo file.

  \<^bold>\<open>Not modelled.\<close> Go's scheduler and mutexes: each critical section is one step. The commit pipeline,
  checkpoints, recovery and the log manager of the engine (group commit over files and goroutines), the
  buffer pool's eviction, purge and cursor scans. Above storage: the SQL front end (lexer, parser, binder,
  optimizer, planner), the executor, the catalog, replication (Raft), the wire protocol, authentication,
  backup, full-text and vector search, administration and command line. These use the core through the
  operations modelled here; they are large, and much of them is network and file I/O or floating point.
\<close>

end
